(* ===== verification/Ev_Prelude.thy ===== *)
theory Ev_Prelude
  imports Main "HOL-Library.Word" "HOL-Library.Sublist"
begin

text \<open>
  Prelude of the development: the ways an execution of the library can go wrong, the result
  type every fallible operation returns, unsigned 64-bit arithmetic (\<open>size_t\<close>), the part of
  \<open>std::vector\<close> and of the standard algorithms the sources call, and the generic lemmas that
  the component theories share. Asserts are checked: the model is the build without
  \<open>NDEBUG\<close>, and a failed assert is the value \<^verbatim>\<open>Inl Assert_Failed\<close>. A theorem that
  an operation returns \<^verbatim>\<open>Inr\<close> therefore also says that the release build, where asserts
  are compiled out, does the same thing.
\<close>

section \<open>Errors and results\<close>

datatype error =
    Assert_Failed
  | Length_Error
  | Out_Of_Bounds
  | Bad_Function_Call
  | Aborted
  | Use_After_Free
  | Null_Pointer
  | Signed_Overflow
  | Syscall_Refused
  | Division_By_Zero
  | Input_Overwritten

type_synonym 'a res = "error + 'a"

text \<open>Sequencing: an error skips the rest, as an exception or an abort does.\<close>

definition bindE :: "error + 'a \<Rightarrow> ('a \<Rightarrow> error + 'b) \<Rightarrow> error + 'b" where
  "bindE m f = (case m of Inl e \<Rightarrow> Inl e | Inr x \<Rightarrow> f x)"

definition assertE :: "bool \<Rightarrow> error + unit" where
  "assertE c = (if c then Inr () else Inl Assert_Failed)"

named_theorems res_simps \<open>rules that evaluate results\<close>

lemma bindE_Inl [simp, res_simps]: "bindE (Inl e) f = Inl e"
  by (simp add: bindE_def)

lemma bindE_Inr [simp, res_simps]: "bindE (Inr x) f = f x"
  by (simp add: bindE_def)

lemma bindE_eq_Inr: "bindE m f = Inr y \<longleftrightarrow> (\<exists>x. m = Inr x \<and> f x = Inr y)"
  by (cases m) auto

lemma bindE_cong [fundef_cong]:
  "m = m' \<Longrightarrow> (\<And>x. m' = Inr x \<Longrightarrow> f x = f' x) \<Longrightarrow> bindE m f = bindE m' f'"
  by (cases m') auto

lemma assertE_True [simp, res_simps]: "assertE True = Inr ()"
  by (simp add: assertE_def)

lemma assertE_False [simp, res_simps]: "assertE False = Inl Assert_Failed"
  by (simp add: assertE_def)

lemma bindE_assertE [simp]: "c \<Longrightarrow> bindE (assertE c) f = f ()"
  by (simp add: assertE_def)

lemma bindE_assertE_fail [simp]: "\<not> c \<Longrightarrow> bindE (assertE c) f = Inl Assert_Failed"
  by (simp add: assertE_def)

lemma bindE_assoc: "bindE (bindE m f) g = bindE m (\<lambda>x. bindE (f x) g)"
  by (cases m) auto

text \<open>Running a list of fallible steps; stops at the first error.\<close>

fun foldE :: "('x \<Rightarrow> 's \<Rightarrow> error + 's) \<Rightarrow> 'x list \<Rightarrow> 's \<Rightarrow> error + 's" where
  "foldE f [] s = Inr s"
| "foldE f (x # xs) s = bindE (f x s) (foldE f xs)"

lemma foldE_append: "foldE f (xs @ ys) s = bindE (foldE f xs s) (foldE f ys)"
  by (induction xs arbitrary: s) (auto simp: bindE_def split: sum.splits)

text \<open>The invariant rule of \<open>foldE\<close>: a step that never fails and keeps an invariant.\<close>

lemma foldE_inv:
  assumes "\<And>x s s'. x \<in> set xs \<Longrightarrow> I s \<Longrightarrow> f x s = Inr s' \<Longrightarrow> I s'"
    and "I s" and "foldE f xs s = Inr s'"
  shows "I s'"
  using assms
proof (induction xs arbitrary: s)
  case Nil
  then show ?case by simp
next
  case (Cons x xs)
  from Cons.prems(3) obtain s1 where s1: "f x s = Inr s1" and rest: "foldE f xs s1 = Inr s'"
    by (auto simp: bindE_eq_Inr)
  have "I s1" using Cons.prems(1)[of x] Cons.prems(2) s1 by auto
  then show ?case using Cons.IH rest Cons.prems(1) by (meson list.set_intros(2))
qed

text \<open>
  The result is a value with the given property, or the one error that running out of address
  space may cause anywhere, \<open>std::length_error\<close> from a vector.
\<close>

definition okE :: "('a \<Rightarrow> bool) \<Rightarrow> error + 'a \<Rightarrow> bool" where
  "okE P r = (case r of Inl e \<Rightarrow> e = Length_Error | Inr x \<Rightarrow> P x)"

lemma okE_simps [simp]: "okE P (Inr x) = P x" "okE P (Inl e) = (e = Length_Error)"
  by (simp_all add: okE_def)

lemma okE_iff: "okE P r \<longleftrightarrow> r = Inl Length_Error \<or> (\<exists>x. r = Inr x \<and> P x)"
  by (cases r) auto

lemma okE_bind: "okE P m \<Longrightarrow> (\<And>x. P x \<Longrightarrow> okE Q (f x)) \<Longrightarrow> okE Q (bindE m f)"
  by (cases m) auto

lemma okE_weaken: "okE P r \<Longrightarrow> (\<And>x. P x \<Longrightarrow> Q x) \<Longrightarrow> okE Q r"
  by (cases r) auto

lemma okE_Inr: "okE P r \<Longrightarrow> r = Inr x \<Longrightarrow> P x"
  by simp

text \<open>A property of the value, if there is one.\<close>

definition thenP :: "error + 'a \<Rightarrow> ('a \<Rightarrow> bool) \<Rightarrow> bool" where
  "thenP r P = (case r of Inl e \<Rightarrow> True | Inr x \<Rightarrow> P x)"

lemma thenP_simps [simp]: "thenP (Inl e) P = True" "thenP (Inr x) P = P x"
  by (simp_all add: thenP_def)

lemma okE_then: "okE P r \<Longrightarrow> thenP r Q \<Longrightarrow> okE (\<lambda>x. P x \<and> Q x) r"
  by (cases r) auto

section \<open>Legal sequences of steps\<close>

text \<open>
  A sequence of steps each of which is legal in the state it is taken in. \<open>safe_steps\<close> is the
  contract of a component whose operations, used legally, keep an invariant, never fail and relate
  every state to its successors; its theorem carries the contract to whole sequences.
\<close>

fun legal_fold :: "('x \<Rightarrow> 's \<Rightarrow> bool) \<Rightarrow> ('x \<Rightarrow> 's \<Rightarrow> error + 's) \<Rightarrow> 'x list \<Rightarrow> 's \<Rightarrow> bool" where
  "legal_fold legal f [] s = True"
| "legal_fold legal f (x # xs) s = (legal x s \<and> thenP (f x s) (legal_fold legal f xs))"

locale safe_steps =
  fixes step :: "'x \<Rightarrow> 's \<Rightarrow> error + 's" and legal :: "'x \<Rightarrow> 's \<Rightarrow> bool"
    and inv :: "'s \<Rightarrow> bool" and rel :: "'s \<Rightarrow> 's \<Rightarrow> bool"
  assumes step_ok: "inv s \<Longrightarrow> legal x s \<Longrightarrow> okE (\<lambda>s'. inv s' \<and> rel s s') (step x s)"
    and rel_refl: "rel s s"
    and rel_trans: "rel a b \<Longrightarrow> rel b c \<Longrightarrow> rel a c"
begin

lemma run_ok:
  "inv s \<Longrightarrow> legal_fold legal step xs s \<Longrightarrow> okE (\<lambda>s'. inv s' \<and> rel s s') (foldE step xs s)"
proof (induction xs arbitrary: s)
  case Nil
  then show ?case by (simp add: rel_refl)
next
  case (Cons x xs)
  have "okE (\<lambda>s1. (inv s1 \<and> rel s s1) \<and> legal_fold legal step xs s1) (step x s)"
    using okE_then[OF step_ok[OF Cons.prems(1)], of x "legal_fold legal step xs"] Cons.prems(2)
    by simp
  then have "okE (\<lambda>s'. inv s' \<and> rel s s') (bindE (step x s) (foldE step xs))"
  proof (rule okE_bind)
    fix s1
    assume s1: "(inv s1 \<and> rel s s1) \<and> legal_fold legal step xs s1"
    then have "okE (\<lambda>s'. inv s' \<and> rel s1 s') (foldE step xs s1)" using Cons.IH by blast
    then show "okE (\<lambda>s'. inv s' \<and> rel s s') (foldE step xs s1)"
      by (rule okE_weaken) (use s1 rel_trans in blast)
  qed
  then show ?case by simp
qed

lemma run_Inr:
  "inv s \<Longrightarrow> legal_fold legal step xs s \<Longrightarrow> foldE step xs s = Inr s' \<Longrightarrow> inv s' \<and> rel s s'"
  using okE_Inr[OF run_ok] by blast

end

text \<open>The stronger contract of a component that cannot run out of memory either.\<close>

locale total_steps =
  fixes step :: "'x \<Rightarrow> 's \<Rightarrow> error + 's" and legal :: "'x \<Rightarrow> 's \<Rightarrow> bool"
    and inv :: "'s \<Rightarrow> bool" and rel :: "'s \<Rightarrow> 's \<Rightarrow> bool"
  assumes step_total: "inv s \<Longrightarrow> legal x s \<Longrightarrow> \<exists>s'. step x s = Inr s' \<and> inv s' \<and> rel s s'"
    and total_refl: "rel s s"
    and total_trans: "rel a b \<Longrightarrow> rel b c \<Longrightarrow> rel a c"

sublocale total_steps \<subseteq> safe: safe_steps step legal inv rel
proof unfold_locales
  show "inv s \<Longrightarrow> legal x s \<Longrightarrow> okE (\<lambda>s'. inv s' \<and> rel s s') (step x s)" for s x
    using step_total[of s x] by auto
qed (auto intro: total_refl total_trans)

context total_steps
begin

lemma run_total:
  "inv s \<Longrightarrow> legal_fold legal step xs s \<Longrightarrow> \<exists>s'. foldE step xs s = Inr s' \<and> inv s' \<and> rel s s'"
proof (induction xs arbitrary: s)
  case Nil
  then show ?case by (simp add: total_refl)
next
  case (Cons x xs)
  then obtain s1 where s1: "step x s = Inr s1" "inv s1" "rel s s1"
    using step_total[of s x] by auto
  then obtain s' where "foldE step xs s1 = Inr s'" "inv s'" "rel s1 s'"
    using Cons by auto
  with s1 show ?case using total_trans by auto
qed

end

section \<open>Unsigned 64-bit sizes\<close>

text \<open>
  \<open>size_t\<close> values are naturals below \<open>2^64\<close>; the sums and differences that the code takes
  wrap around.
\<close>

definition sz_add :: "nat \<Rightarrow> nat \<Rightarrow> nat" where
  "sz_add a b = (a + b) mod 2 ^ 64"

definition sz_sub :: "nat \<Rightarrow> nat \<Rightarrow> nat" where
  "sz_sub a b = (a + (2 ^ 64 - b)) mod 2 ^ 64"

text \<open>\<open>std::vector<char>::max_size()\<close> of a 64-bit platform: \<open>PTRDIFF_MAX\<close>.\<close>

definition vec_max :: nat where
  "vec_max = 2 ^ 63 - 1"

lemma sz_add_small: "a + b < 2 ^ 64 \<Longrightarrow> sz_add a b = a + b"
  by (simp add: sz_add_def)

lemma sz_sub_small: "b \<le> a \<Longrightarrow> a < 2 ^ 64 \<Longrightarrow> sz_sub a b = a - b"
proof -
  assume "b \<le> a" and "a < 2 ^ 64"
  then have "a + (2 ^ 64 - b) = (a - b) + 2 ^ 64" and "a - b < 2 ^ 64" by simp_all
  then show ?thesis by (simp only: sz_sub_def mod_add_self2 mod_less)
qed

lemma vec_max_lt: "vec_max < 2 ^ 63"
  by (simp add: vec_max_def)

section \<open>\<open>std::vector\<close>, \<open>std::copy\<close>, \<open>std::search\<close>\<close>

definition vec_resize :: "nat \<Rightarrow> char list \<Rightarrow> error + char list" where
  "vec_resize n xs =
     (if vec_max < n then Inl Length_Error
      else if n \<le> length xs then Inr (take n xs)
      else Inr (xs @ replicate (n - length xs) (CHR 0x00)))"

text \<open>Writing the range \<open>ds\<close> at offset \<open>i\<close>; leaving the vector is an error.\<close>

definition vec_copy :: "nat \<Rightarrow> char list \<Rightarrow> char list \<Rightarrow> error + char list" where
  "vec_copy i ds xs =
     (if i + length ds \<le> length xs
      then Inr (take i xs @ ds @ drop (i + length ds) xs) else Inl Out_Of_Bounds)"

text \<open>The range between two offsets of a vector.\<close>

definition subrange :: "nat \<Rightarrow> nat \<Rightarrow> 'a list \<Rightarrow> 'a list" where
  "subrange i j xs = take (j - i) (drop i xs)"

text \<open>
  \<open>std::search\<close>: the offset of the first occurrence of \<open>pat\<close>, the length of the range when
  there is none.
\<close>

fun std_search :: "'a list \<Rightarrow> 'a list \<Rightarrow> nat" where
  "std_search pat [] = 0"
| "std_search pat (x # xs) = (if prefix pat (x # xs) then 0 else Suc (std_search pat xs))"

text \<open>\<open>memchr\<close>: the offset of the first \<open>c\<close>, if any.\<close>

fun memchr :: "'a \<Rightarrow> 'a list \<Rightarrow> nat option" where
  "memchr c [] = None"
| "memchr c (x # xs) = (if x = c then Some 0 else map_option Suc (memchr c xs))"

lemma length_subrange [simp]: "j \<le> length xs \<Longrightarrow> length (subrange i j xs) = j - i"
  by (simp add: subrange_def)

lemma subrange_take: "n \<le> j - i \<Longrightarrow> take n (subrange i j xs) = subrange i (i + n) xs"
  by (simp add: subrange_def min_def)

lemma subrange_drop: "drop n (subrange i j xs) = subrange (i + n) j xs"
  by (simp add: subrange_def drop_take add.commute)

lemma subrange_same [simp]: "subrange i i xs = []"
  by (simp add: subrange_def)

lemma subrange_append_left: "j \<le> length xs \<Longrightarrow> subrange i j (xs @ ys) = subrange i j xs"
proof -
  assume "j \<le> length xs"
  then show ?thesis by (cases "i \<le> length xs") (simp_all add: subrange_def)
qed

lemma subrange_append_mid:
  "i \<le> length xs \<Longrightarrow> subrange i (length xs + length ys) (xs @ ys @ zs) = drop i xs @ ys"
  by (simp add: subrange_def)

lemma vec_copy_subrange:
  assumes "vec_copy i ds xs = Inr ys"
  shows "length ys = length xs" and "subrange i (i + length ds) ys = ds"
    and "j \<le> i \<Longrightarrow> subrange k j ys = subrange k j xs"
    and "i + length ds \<le> k \<Longrightarrow> subrange k j ys = subrange k j xs"
proof -
  from assms have le: "i + length ds \<le> length xs"
    and ys: "ys = take i xs @ ds @ drop (i + length ds) xs"
    by (auto simp: vec_copy_def split: if_splits)
  show "length ys = length xs" using le ys by simp
  show "subrange i (i + length ds) ys = ds" using le ys by (simp add: subrange_def)
  show "subrange k j ys = subrange k j xs" if "j \<le> i"
  proof -
    have "subrange k j ys = subrange k j (take i xs)"
      unfolding ys using that le by (intro subrange_append_left) simp
    also have "\<dots> = subrange k j (take i xs @ drop i xs)"
      using that le by (intro subrange_append_left[symmetric]) simp
    finally show ?thesis by simp
  qed
  show "subrange k j ys = subrange k j xs" if "i + length ds \<le> k"
  proof -
    have "drop k ys = drop k xs"
      using that le ys by simp
    then show ?thesis by (simp add: subrange_def)
  qed
qed

lemma std_search_le: "std_search pat xs \<le> length xs"
  by (induction xs) auto

lemma std_search_found:
  "std_search pat xs < length xs \<Longrightarrow> prefix pat (drop (std_search pat xs) xs)"
  by (induction xs) (auto split: if_splits)

lemma std_search_first:
  "i < std_search pat xs \<Longrightarrow> \<not> prefix pat (drop i xs)"
proof (induction xs arbitrary: i)
  case Nil
  then show ?case by simp
next
  case (Cons x xs)
  then show ?case by (cases i) (auto split: if_splits)
qed

lemma memchr_Some:
  "memchr c xs = Some i \<Longrightarrow> i < length xs \<and> xs ! i = c \<and> c \<notin> set (take i xs)"
proof (induction xs arbitrary: i)
  case Nil
  then show ?case by simp
next
  case (Cons x xs)
  show ?case
  proof (cases "x = c")
    case True
    with Cons.prems show ?thesis by simp
  next
    case False
    with Cons.prems obtain j where "memchr c xs = Some j" "i = Suc j" by auto
    with Cons.IH False show ?thesis by auto
  qed
qed

lemma memchr_None: "memchr c xs = None \<longleftrightarrow> c \<notin> set xs"
  by (induction xs) auto

end
