(* ===== verification/Ev_Buffer.thy ===== *)
theory Ev_Buffer
  imports Ev_Prelude
begin

text \<open>
  The byte buffer of \<^verbatim>\<open>tinyev/Buffer.h\<close> and \<^verbatim>\<open>tinyev/Buffer.cc\<close>: one vector, a
  reader and a writer index, a cheap-prepend area in front, growth or compaction on demand, and
  the scatter read \<open>readFd\<close>. Pointers into the vector are offsets from \<open>begin()\<close>. The abstract
  view is the byte string between the two indices (\<open>contents\<close>); the locale \<open>byte_fifo\<close> is the
  contract the connection relies on, interpreted on this buffer at the end.
\<close>

section \<open>State and accessors\<close>

definition kCheapPrepend :: nat where
  "kCheapPrepend = 8"

definition kInitialSize :: nat where
  "kInitialSize = 1024"

definition kCRLF :: string where
  "kCRLF = [CHR 0x0D, CHR 0x0A]"

record buffer =
  bytes :: "char list"
  readerIndex :: nat
  writerIndex :: nat

definition readableBytes :: "buffer \<Rightarrow> nat" where
  "readableBytes b = sz_sub (writerIndex b) (readerIndex b)"

definition writableBytes :: "buffer \<Rightarrow> nat" where
  "writableBytes b = sz_sub (length (bytes b)) (writerIndex b)"

definition prependableBytes :: "buffer \<Rightarrow> nat" where
  "prependableBytes b = readerIndex b"

definition peek :: "buffer \<Rightarrow> nat" where
  "peek b = readerIndex b"

definition beginWrite :: "buffer \<Rightarrow> nat" where
  "beginWrite b = writerIndex b"

definition buffer_new :: "nat \<Rightarrow> error + buffer" where
  "buffer_new initialSize =
     bindE (vec_resize (sz_add kCheapPrepend initialSize) []) (\<lambda>v.
     let b = \<lparr>bytes = v, readerIndex = kCheapPrepend, writerIndex = kCheapPrepend\<rparr> in
     bindE (assertE (readableBytes b = 0)) (\<lambda>_.
     bindE (assertE (writableBytes b = initialSize)) (\<lambda>_.
     bindE (assertE (prependableBytes b = kCheapPrepend)) (\<lambda>_. Inr b))))"

definition buffer_swap :: "buffer \<Rightarrow> buffer \<Rightarrow> buffer \<times> buffer" where
  "buffer_swap b rhs =
     (b\<lparr>bytes := bytes rhs, readerIndex := readerIndex rhs, writerIndex := writerIndex rhs\<rparr>,
      rhs\<lparr>bytes := bytes b, readerIndex := readerIndex b, writerIndex := writerIndex b\<rparr>)"

section \<open>Searching\<close>

definition findCRLF :: "buffer \<Rightarrow> nat option" where
  "findCRLF b =
     (let crlf = peek b + std_search kCRLF (subrange (peek b) (beginWrite b) (bytes b))
      in if crlf = beginWrite b then None else Some crlf)"

definition findCRLF_from :: "nat \<Rightarrow> buffer \<Rightarrow> error + nat option" where
  "findCRLF_from start b =
     bindE (assertE (peek b \<le> start)) (\<lambda>_.
     bindE (assertE (start \<le> beginWrite b)) (\<lambda>_.
     let crlf = start + std_search kCRLF (subrange start (beginWrite b) (bytes b))
     in Inr (if crlf = beginWrite b then None else Some crlf)))"

definition findEOL :: "buffer \<Rightarrow> nat option" where
  "findEOL b =
     map_option (\<lambda>k. peek b + k)
       (memchr (CHR 0x0A) (subrange (peek b) (peek b + readableBytes b) (bytes b)))"

definition findEOL_from :: "nat \<Rightarrow> buffer \<Rightarrow> error + nat option" where
  "findEOL_from start b =
     bindE (assertE (peek b \<le> start)) (\<lambda>_.
     bindE (assertE (start \<le> beginWrite b)) (\<lambda>_.
     Inr (map_option (\<lambda>k. start + k) (memchr (CHR 0x0A) (subrange start (beginWrite b) (bytes b))))))"

section \<open>Retrieving\<close>

definition retrieveAll :: "buffer \<Rightarrow> buffer" where
  "retrieveAll b = b\<lparr>readerIndex := kCheapPrepend, writerIndex := kCheapPrepend\<rparr>"

definition retrieve :: "nat \<Rightarrow> buffer \<Rightarrow> error + buffer" where
  "retrieve len b =
     bindE (assertE (len \<le> readableBytes b)) (\<lambda>_.
     if len < readableBytes b then Inr (b\<lparr>readerIndex := sz_add (readerIndex b) len\<rparr>)
     else Inr (retrieveAll b))"

definition retrieveUntil :: "nat \<Rightarrow> buffer \<Rightarrow> error + buffer" where
  "retrieveUntil end_ptr b =
     bindE (assertE (peek b \<le> end_ptr)) (\<lambda>_.
     bindE (assertE (end_ptr \<le> beginWrite b)) (\<lambda>_.
     retrieve (sz_sub end_ptr (peek b)) b))"

definition retrieveAsString :: "nat \<Rightarrow> buffer \<Rightarrow> error + (string \<times> buffer)" where
  "retrieveAsString len b =
     bindE (assertE (len \<le> readableBytes b)) (\<lambda>_.
     let result = subrange (peek b) (peek b + len) (bytes b) in
     bindE (retrieve len b) (\<lambda>b'. Inr (result, b')))"

definition retrieveAllAsString :: "buffer \<Rightarrow> error + (string \<times> buffer)" where
  "retrieveAllAsString b = retrieveAsString (readableBytes b) b"

section \<open>Appending and prepending\<close>

definition makeSpace :: "nat \<Rightarrow> buffer \<Rightarrow> error + buffer" where
  "makeSpace len b =
     (if sz_add (writableBytes b) (prependableBytes b) < sz_add len kCheapPrepend
      then bindE (vec_resize (sz_add (writerIndex b) len) (bytes b)) (\<lambda>v. Inr (b\<lparr>bytes := v\<rparr>))
      else
        bindE (assertE (kCheapPrepend < readerIndex b)) (\<lambda>_.
        let readable = readableBytes b in
        bindE (vec_copy kCheapPrepend (subrange (readerIndex b) (writerIndex b) (bytes b)) (bytes b)) (\<lambda>v.
        let b' = b\<lparr>bytes := v, readerIndex := kCheapPrepend,
                   writerIndex := sz_add kCheapPrepend readable\<rparr> in
        bindE (assertE (readable = readableBytes b')) (\<lambda>_. Inr b'))))"

definition ensureWritableBytes :: "nat \<Rightarrow> buffer \<Rightarrow> error + buffer" where
  "ensureWritableBytes len b =
     bindE (if writableBytes b < len then makeSpace len b else Inr b) (\<lambda>b'.
     bindE (assertE (len \<le> writableBytes b')) (\<lambda>_. Inr b'))"

definition hasWritten :: "nat \<Rightarrow> buffer \<Rightarrow> error + buffer" where
  "hasWritten len b =
     bindE (assertE (len \<le> writableBytes b)) (\<lambda>_.
     Inr (b\<lparr>writerIndex := sz_add (writerIndex b) len\<rparr>))"

definition append_buf :: "string \<Rightarrow> buffer \<Rightarrow> error + buffer" where
  "append_buf data b =
     bindE (ensureWritableBytes (length data) b) (\<lambda>b1.
     bindE (vec_copy (beginWrite b1) data (bytes b1)) (\<lambda>v.
     hasWritten (length data) (b1\<lparr>bytes := v\<rparr>)))"

definition prepend :: "string \<Rightarrow> buffer \<Rightarrow> error + buffer" where
  "prepend data b =
     bindE (assertE (length data \<le> prependableBytes b)) (\<lambda>_.
     let r = sz_sub (readerIndex b) (length data) in
     bindE (vec_copy r data (bytes b)) (\<lambda>v. Inr (b\<lparr>readerIndex := r, bytes := v\<rparr>)))"

section \<open>The scatter read\<close>

text \<open>
  The outcome of \<open>readv\<close>: the bytes the kernel delivered, or an \<open>errno\<close>. The kernel fills the
  writable area first and then the 65536-byte \<open>extrabuf\<close> on the stack, which is passed only when
  the writable area is smaller than it. The result is the value of \<open>n\<close>, the saved \<open>errno\<close> if
  there is one, and the buffer.
\<close>

datatype read_result = Read_Ok string | Read_Err nat

definition extrabuf_size :: nat where
  "extrabuf_size = 65536"

definition readv_limit :: "buffer \<Rightarrow> nat" where
  "readv_limit b =
     writableBytes b + (if writableBytes b < extrabuf_size then extrabuf_size else 0)"

definition readFd :: "read_result \<Rightarrow> buffer \<Rightarrow> error + (int \<times> nat option \<times> buffer)" where
  "readFd rr b =
     (let writable = writableBytes b in
      case rr of
        Read_Err e \<Rightarrow> Inr (-1, Some e, b)
      | Read_Ok ds \<Rightarrow>
          let n = length ds in
          bindE (vec_copy (writerIndex b) (take writable ds) (bytes b)) (\<lambda>v.
          let b1 = b\<lparr>bytes := v\<rparr> in
          if n \<le> writable
          then Inr (int n, None, b1\<lparr>writerIndex := sz_add (writerIndex b1) n\<rparr>)
          else
            let extrabuf = take extrabuf_size (drop writable ds);
                b2 = b1\<lparr>writerIndex := length (bytes b1)\<rparr> in
            if length extrabuf < n - writable then Inl Out_Of_Bounds
            else bindE (append_buf (take (n - writable) extrabuf) b2) (\<lambda>b3. Inr (int n, None, b3))))"

section \<open>Well-formed buffers and their contents\<close>

definition buffer_ok :: "buffer \<Rightarrow> bool" where
  "buffer_ok b \<longleftrightarrow> kCheapPrepend \<le> length (bytes b) \<and> readerIndex b \<le> writerIndex b \<and>
     writerIndex b \<le> length (bytes b) \<and> length (bytes b) \<le> vec_max"

definition contents :: "buffer \<Rightarrow> string" where
  "contents b = subrange (readerIndex b) (writerIndex b) (bytes b)"

text \<open>Enough address space for \<open>n\<close> more bytes without \<open>std::length_error\<close>.\<close>

definition room :: "buffer \<Rightarrow> nat \<Rightarrow> bool" where
  "room b n \<longleftrightarrow> writerIndex b + n \<le> vec_max"

named_theorems buf_simps \<open>accessors of a well-formed buffer\<close>

lemma buffer_okD:
  assumes "buffer_ok b"
  shows "kCheapPrepend \<le> length (bytes b)" and "readerIndex b \<le> writerIndex b"
    and "writerIndex b \<le> length (bytes b)" and "length (bytes b) \<le> vec_max"
    and "length (bytes b) < 2 ^ 63"
  using assms vec_max_lt by (auto simp: buffer_ok_def)

lemma readable_eq [buf_simps]:
  "buffer_ok b \<Longrightarrow> readableBytes b = writerIndex b - readerIndex b"
  unfolding readableBytes_def by (rule sz_sub_small) (use buffer_okD[of b] in auto)

lemma writable_eq [buf_simps]:
  "buffer_ok b \<Longrightarrow> writableBytes b = length (bytes b) - writerIndex b"
  unfolding writableBytes_def by (rule sz_sub_small) (use buffer_okD[of b] in auto)

lemma length_contents [buf_simps]: "buffer_ok b \<Longrightarrow> length (contents b) = readableBytes b"
  using buffer_okD[of b] by (simp add: contents_def readable_eq)

lemma contents_retrieveAll [simp]: "contents (retrieveAll b) = []"
  by (simp add: contents_def retrieveAll_def)

lemma retrieveAll_ok: "buffer_ok b \<Longrightarrow> buffer_ok (retrieveAll b)"
  by (auto simp: buffer_ok_def retrieveAll_def)

lemma contents_buffer_new:
  "n \<le> vec_max - kCheapPrepend \<Longrightarrow>
   \<exists>b. buffer_new n = Inr b \<and> buffer_ok b \<and> contents b = [] \<and> writableBytes b = n"
proof -
  assume n: "n \<le> vec_max - kCheapPrepend"
  let ?b = "\<lparr>bytes = replicate (8 + n) (CHR 0x00), readerIndex = 8, writerIndex = 8\<rparr>"
  have "8 + n \<le> vec_max" using n by (simp add: kCheapPrepend_def vec_max_def)
  moreover from this have "sz_add 8 n = 8 + n" by (intro sz_add_small) (simp add: vec_max_def)
  ultimately have v: "vec_resize (sz_add kCheapPrepend n) [] = Inr (replicate (8 + n) (CHR 0x00))"
    by (simp add: vec_resize_def kCheapPrepend_def)
  have ok: "buffer_ok ?b" using \<open>8 + n \<le> vec_max\<close> by (simp add: buffer_ok_def kCheapPrepend_def)
  have "readableBytes ?b = 0" "writableBytes ?b = n" "prependableBytes ?b = kCheapPrepend"
    using ok by (simp_all add: buf_simps prependableBytes_def kCheapPrepend_def)
  with v ok show ?thesis
    by (simp add: buffer_new_def Let_def contents_def kCheapPrepend_def)
qed

section \<open>Retrieving\<close>

lemma retrieve_ok:
  assumes "buffer_ok b" and "n \<le> length (contents b)"
  shows "\<exists>b'. retrieve n b = Inr b' \<and> buffer_ok b' \<and> contents b' = drop n (contents b)"
proof (cases "n < readableBytes b")
  case True
  have len: "readerIndex b + n < 2 ^ 64"
    using True buffer_okD[OF assms(1)] assms(1) by (simp add: buf_simps)
  let ?b = "b\<lparr>readerIndex := readerIndex b + n\<rparr>"
  have "retrieve n b = Inr ?b" using True len by (simp add: retrieve_def sz_add_small)
  moreover have "buffer_ok ?b" using True assms(1) by (auto simp: buffer_ok_def buf_simps)
  moreover have "contents ?b = drop n (contents b)" by (simp add: contents_def subrange_drop)
  ultimately show ?thesis by blast
next
  case False
  with assms have "n = readableBytes b" by (simp add: buf_simps)
  moreover from this have "drop n (contents b) = []" using assms by (simp add: length_contents)
  ultimately show ?thesis
    using assms(1) retrieveAll_ok by (auto simp: retrieve_def)
qed

lemma retrieve_assert:
  "buffer_ok b \<Longrightarrow> length (contents b) < n \<Longrightarrow> retrieve n b = Inl Assert_Failed"
  by (simp add: retrieve_def length_contents)

lemma retrieve_prependable:
  "retrieve n b = Inr b' \<Longrightarrow> prependableBytes b = kCheapPrepend \<Longrightarrow> buffer_ok b \<Longrightarrow>
   kCheapPrepend \<le> prependableBytes b'"
  using buffer_okD[of b]
  by (auto simp: retrieve_def retrieveAll_def prependableBytes_def assertE_def buf_simps sz_add_small
      split: if_splits)

lemma retrieveUntil_ok:
  assumes ok: "buffer_ok b" and "peek b \<le> p" and "p \<le> beginWrite b"
  shows "\<exists>b'. retrieveUntil p b = Inr b' \<and> buffer_ok b' \<and>
    contents b' = drop (p - peek b) (contents b)"
proof -
  have "sz_sub p (peek b) = p - peek b"
    using assms buffer_okD[OF ok] by (intro sz_sub_small) (auto simp: beginWrite_def)
  moreover have "p - peek b \<le> length (contents b)"
    using assms by (simp add: buf_simps peek_def beginWrite_def)
  ultimately show ?thesis using retrieve_ok[OF ok] assms(2,3) by (simp add: retrieveUntil_def)
qed

lemma retrieveAsString_ok:
  assumes ok: "buffer_ok b" and n: "n \<le> length (contents b)"
  shows "\<exists>b'. retrieveAsString n b = Inr (take n (contents b), b') \<and> buffer_ok b' \<and>
    contents b' = drop n (contents b)"
proof -
  obtain b' where b': "retrieve n b = Inr b'" "buffer_ok b'" "contents b' = drop n (contents b)"
    using retrieve_ok[OF assms] by blast
  have "subrange (peek b) (peek b + n) (bytes b) = take n (contents b)"
    using n buffer_okD[OF ok] by (simp add: contents_def peek_def subrange_take)
  with b' n ok show ?thesis by (simp add: retrieveAsString_def length_contents)
qed

lemma retrieveAllAsString_ok:
  assumes ok: "buffer_ok b"
  shows "\<exists>b'. retrieveAllAsString b = Inr (contents b, b') \<and> buffer_ok b' \<and> contents b' = []"
  using retrieveAsString_ok[OF ok, of "length (contents b)"] ok
  by (auto simp: retrieveAllAsString_def length_contents)

section \<open>Making space and appending\<close>

text \<open>Growing keeps indices and bytes; the new bytes are at the end.\<close>

lemma vec_resize_grow:
  "length xs \<le> n \<Longrightarrow> n \<le> vec_max \<Longrightarrow>
   vec_resize n xs = Inr (xs @ replicate (n - length xs) (CHR 0x00))"
  by (auto simp: vec_resize_def)

lemma makeSpace_no_wrap:
  assumes ok: "buffer_ok b" and n: "n \<le> vec_max"
  shows "sz_add (writableBytes b) (prependableBytes b) = writableBytes b + prependableBytes b"
    and "sz_add n kCheapPrepend = n + kCheapPrepend"
    and "sz_add (writerIndex b) n = writerIndex b + n"
proof -
  note d = buffer_okD[OF ok]
  have lim: "n < 2 ^ 63" using n vec_max_lt by simp
  show "sz_add (writableBytes b) (prependableBytes b) = writableBytes b + prependableBytes b"
    by (rule sz_add_small) (use d ok in \<open>simp add: buf_simps prependableBytes_def\<close>)
  show "sz_add n kCheapPrepend = n + kCheapPrepend"
    by (rule sz_add_small) (use lim in \<open>simp add: kCheapPrepend_def\<close>)
  show "sz_add (writerIndex b) n = writerIndex b + n"
    by (rule sz_add_small) (use lim d in simp)
qed

lemma room_vec_max: "room b n \<Longrightarrow> n \<le> vec_max"
  by (simp add: room_def)

lemma makeSpace_grow:
  assumes ok: "buffer_ok b" and room: "room b n" and need: "writableBytes b < n"
    and more: "writableBytes b + prependableBytes b < n + kCheapPrepend"
  shows "\<exists>b'. makeSpace n b = Inr b' \<and> buffer_ok b' \<and> contents b' = contents b \<and>
    writableBytes b' = n \<and> writerIndex b' = writerIndex b \<and> readerIndex b' = readerIndex b"
proof -
  note d = buffer_okD[OF ok]
  let ?n = "writerIndex b + n"
  let ?b = "b\<lparr>bytes := bytes b @ replicate (?n - length (bytes b)) (CHR 0x00)\<rparr>"
  have lim: "?n \<le> vec_max" and big: "length (bytes b) \<le> ?n"
    using room need ok d by (auto simp: room_def buf_simps)
  note wrap = makeSpace_no_wrap[OF ok room_vec_max[OF room]]
  have "makeSpace n b = Inr ?b"
    using more lim big by (simp add: makeSpace_def wrap vec_resize_grow)
  moreover have okb: "buffer_ok ?b" using ok lim big by (auto simp: buffer_ok_def)
  moreover have "contents ?b = contents b"
    using d by (simp add: contents_def subrange_append_left)
  moreover have "writableBytes ?b = n" using okb big by (simp add: buf_simps)
  ultimately show ?thesis by fastforce
qed

text \<open>
  Compaction: the readable bytes move to the front (the ranges may overlap), nothing is
  allocated, and the assert \<open>kCheapPrepend < readerIndex_\<close> holds because the caller asked for
  more than the writable area.
\<close>

lemma makeSpace_compact:
  assumes ok: "buffer_ok b" and n: "n \<le> vec_max" and need: "writableBytes b < n"
    and fits: "n + kCheapPrepend \<le> writableBytes b + prependableBytes b"
  shows "\<exists>b'. makeSpace n b = Inr b' \<and> buffer_ok b' \<and> contents b' = contents b \<and>
    n \<le> writableBytes b' \<and> writerIndex b' \<le> writerIndex b \<and>
    readerIndex b' = kCheapPrepend \<and> length (bytes b') = length (bytes b)"
proof -
  note d = buffer_okD[OF ok]
  note wrap = makeSpace_no_wrap[OF ok n]
  have r8: "kCheapPrepend < readerIndex b" using need fits by (simp add: prependableBytes_def)
  have len: "kCheapPrepend + length (contents b) \<le> length (bytes b)"
    using r8 d ok by (simp add: buf_simps)
  then obtain v where v: "vec_copy kCheapPrepend (contents b) (bytes b) = Inr v"
    by (simp add: vec_copy_def)
  note vc = vec_copy_subrange[OF v]
  have rb: "readableBytes b = length (contents b)" using ok by (simp add: length_contents)
  have sum: "sz_add kCheapPrepend (length (contents b)) = kCheapPrepend + length (contents b)"
    using len d by (intro sz_add_small) simp
  let ?b = "\<lparr>bytes = v, readerIndex = kCheapPrepend,
             writerIndex = kCheapPrepend + length (contents b)\<rparr>"
  have eq: "b\<lparr>bytes := v, readerIndex := kCheapPrepend,
             writerIndex := kCheapPrepend + length (contents b)\<rparr> = ?b" by simp
  have okb: "buffer_ok ?b" using len d vc(1) by (auto simp: buffer_ok_def)
  have "readableBytes ?b = length (contents b)" using okb by (simp add: buf_simps)
  then have "makeSpace n b = Inr ?b"
    using r8 fits v by (simp add: makeSpace_def wrap rb sum Let_def eq contents_def[symmetric])
  moreover have "contents ?b = contents b" using vc(2) by (simp add: contents_def[of ?b])
  moreover have "n \<le> writableBytes ?b"
    using okb fits ok d vc(1) by (simp add: buf_simps prependableBytes_def)
  moreover have "kCheapPrepend + length (contents b) \<le> writerIndex b"
    using r8 d ok by (simp add: buf_simps)
  ultimately show ?thesis using okb vc(1) by fastforce
qed

lemma ensureWritableBytes_ok:
  assumes ok: "buffer_ok b" and room: "room b n"
  shows "\<exists>b'. ensureWritableBytes n b = Inr b' \<and> buffer_ok b' \<and> contents b' = contents b \<and>
    n \<le> writableBytes b' \<and> writerIndex b' \<le> writerIndex b"
proof (cases "writableBytes b < n")
  case True
  then show ?thesis
    using makeSpace_grow[OF ok room] makeSpace_compact[OF ok room_vec_max[OF room]]
    by (cases "writableBytes b + prependableBytes b < n + kCheapPrepend")
       (fastforce simp: ensureWritableBytes_def)+
next
  case False
  then show ?thesis using ok by (auto simp: ensureWritableBytes_def)
qed

lemma write_back:
  assumes ok: "buffer_ok b" and fits: "length d \<le> writableBytes b"
  shows "\<exists>v. vec_copy (writerIndex b) d (bytes b) = Inr v \<and>
    sz_add (writerIndex b) (length d) = writerIndex b + length d \<and>
    buffer_ok (b\<lparr>bytes := v\<rparr>) \<and>
    buffer_ok (b\<lparr>bytes := v, writerIndex := writerIndex b + length d\<rparr>) \<and>
    contents (b\<lparr>bytes := v, writerIndex := writerIndex b + length d\<rparr>) = contents b @ d"
proof -
  note k = buffer_okD[OF ok]
  have "writerIndex b + length d \<le> length (bytes b)" using fits k ok by (simp add: buf_simps)
  then obtain v where v: "vec_copy (writerIndex b) d (bytes b) = Inr v"
    and vdef: "v = take (writerIndex b) (bytes b) @ d @ drop (writerIndex b + length d) (bytes b)"
    and le: "writerIndex b + length d \<le> length (bytes b)"
    by (simp add: vec_copy_def)
  have lw: "length (take (writerIndex b) (bytes b)) = writerIndex b" using k by simp
  have "subrange (readerIndex b) (writerIndex b + length d) v
        = drop (readerIndex b) (take (writerIndex b) (bytes b)) @ d"
    using subrange_append_mid[of "readerIndex b" "take (writerIndex b) (bytes b)" d] k lw
    by (simp add: vdef)
  then have "contents (b\<lparr>bytes := v, writerIndex := writerIndex b + length d\<rparr>) = contents b @ d"
    by (simp add: contents_def subrange_def drop_take)
  moreover have "sz_add (writerIndex b) (length d) = writerIndex b + length d"
    using le k by (intro sz_add_small) simp
  moreover have "length v = length (bytes b)" using vec_copy_subrange(1)[OF v] .
  ultimately show ?thesis using v le ok by (auto simp: buffer_ok_def)
qed

text \<open>
  Without the \<open>room\<close> premise: the only failure is \<open>std::length_error\<close> from the vector, and it
  leaves no half-done state behind.
\<close>

lemma ensureWritableBytes_cases:
  assumes ok: "buffer_ok b" and n: "n \<le> vec_max"
  shows "ensureWritableBytes n b = Inl Length_Error \<or>
    (\<exists>b'. ensureWritableBytes n b = Inr b' \<and> buffer_ok b' \<and> contents b' = contents b \<and>
      n \<le> writableBytes b')"
proof (cases "room b n")
  case True
  then show ?thesis using ensureWritableBytes_ok[OF ok] by blast
next
  case False
  note wrap = makeSpace_no_wrap[OF ok n]
  have need: "writableBytes b < n" using False buffer_okD[OF ok] ok
    by (auto simp: room_def buf_simps)
  show ?thesis
  proof (cases "writableBytes b + prependableBytes b < n + kCheapPrepend")
    case True
    then have "makeSpace n b = Inl Length_Error"
      using False by (simp add: makeSpace_def wrap vec_resize_def room_def)
    then show ?thesis using need by (simp add: ensureWritableBytes_def)
  next
    case False
    then show ?thesis using makeSpace_compact[OF ok n need] need
      by (fastforce simp: ensureWritableBytes_def)
  qed
qed

lemma append_ensured:
  assumes "ensureWritableBytes (length d) b = Inr b1" and ok: "buffer_ok b1"
    and fits: "length d \<le> writableBytes b1"
  shows "\<exists>b'. append_buf d b = Inr b' \<and> buffer_ok b' \<and> contents b' = contents b1 @ d \<and>
    writerIndex b' = writerIndex b1 + length d"
proof -
  obtain v where v: "vec_copy (writerIndex b1) d (bytes b1) = Inr v"
    "sz_add (writerIndex b1) (length d) = writerIndex b1 + length d"
    "buffer_ok (b1\<lparr>bytes := v\<rparr>)"
    "buffer_ok (b1\<lparr>bytes := v, writerIndex := writerIndex b1 + length d\<rparr>)"
    "contents (b1\<lparr>bytes := v, writerIndex := writerIndex b1 + length d\<rparr>) = contents b1 @ d"
    using write_back[OF ok fits] by blast
  have "length v = length (bytes b1)" using vec_copy_subrange(1)[OF v(1)] .
  with v(3) ok fits have w: "length d \<le> writableBytes (b1\<lparr>bytes := v\<rparr>)" by (simp add: buf_simps)
  have "append_buf d b = Inr (b1\<lparr>bytes := v, writerIndex := writerIndex b1 + length d\<rparr>)"
    using assms(1) v(1,2) w by (simp add: append_buf_def beginWrite_def hasWritten_def)
  then show ?thesis using v(4,5) by simp
qed

lemma append_fits:
  assumes "buffer_ok b" and "room b (length d)"
  shows "\<exists>b'. append_buf d b = Inr b' \<and> buffer_ok b' \<and> contents b' = contents b @ d \<and>
    writerIndex b' \<le> writerIndex b + length d"
proof -
  obtain b1 where b1: "ensureWritableBytes (length d) b = Inr b1" "buffer_ok b1"
    "contents b1 = contents b" "length d \<le> writableBytes b1" "writerIndex b1 \<le> writerIndex b"
    using ensureWritableBytes_ok[OF assms] by blast
  then show ?thesis using append_ensured[OF b1(1,2,4)] by auto
qed

lemma append_cases:
  assumes "buffer_ok b" and "length d \<le> vec_max"
  shows "append_buf d b = Inl Length_Error \<or>
    (\<exists>b'. append_buf d b = Inr b' \<and> buffer_ok b' \<and> contents b' = contents b @ d)"
  using ensureWritableBytes_cases[OF assms]
proof
  assume "ensureWritableBytes (length d) b = Inl Length_Error"
  then show ?thesis by (simp add: append_buf_def)
next
  assume "\<exists>b'. ensureWritableBytes (length d) b = Inr b' \<and> buffer_ok b' \<and>
    contents b' = contents b \<and> length d \<le> writableBytes b'"
  then show ?thesis using append_ensured by fastforce
qed

lemma prepend_ok:
  assumes ok: "buffer_ok b" and fits: "length d \<le> prependableBytes b"
  shows "\<exists>b'. prepend d b = Inr b' \<and> buffer_ok b' \<and> contents b' = d @ contents b"
proof -
  note k = buffer_okD[OF ok]
  let ?r = "readerIndex b - length d"
  have r: "sz_sub (readerIndex b) (length d) = ?r"
    using fits k by (intro sz_sub_small) (auto simp: prependableBytes_def)
  have "?r + length d = readerIndex b" using fits by (simp add: prependableBytes_def)
  moreover from this obtain v where v: "vec_copy ?r d (bytes b) = Inr v"
    and vdef: "v = take ?r (bytes b) @ d @ drop (readerIndex b) (bytes b)"
    using k by (auto simp: vec_copy_def)
  moreover have lr: "length (take ?r (bytes b)) = ?r" using k by simp
  ultimately have "drop ?r v = d @ drop (readerIndex b) (bytes b)" by simp
  moreover have "writerIndex b - ?r = length d + (writerIndex b - readerIndex b)"
    using k fits by (simp add: prependableBytes_def)
  ultimately have "contents (b\<lparr>readerIndex := ?r, bytes := v\<rparr>) = d @ contents b"
    by (simp add: contents_def subrange_def)
  moreover have "buffer_ok (b\<lparr>readerIndex := ?r, bytes := v\<rparr>)"
    using ok vec_copy_subrange(1)[OF v] by (auto simp: buffer_ok_def)
  ultimately show ?thesis using fits v r by (simp add: prepend_def)
qed

section \<open>The scatter read\<close>

lemma readFd_small:
  assumes ok: "buffer_ok b" and le: "length ds \<le> writableBytes b"
  shows "\<exists>b'. readFd (Read_Ok ds) b = Inr (int (length ds), None, b') \<and> buffer_ok b' \<and>
    contents b' = contents b @ ds"
  using write_back[OF ok le] le by (auto simp: readFd_def Let_def)

text \<open>
  The read that spills into \<open>extrabuf\<close>: the vector is filled to its end and the spilled bytes are
  appended. The only failure is the vector's \<open>std::length_error\<close>.
\<close>

lemma readFd_spill:
  assumes ok: "buffer_ok b" and gt: "writableBytes b < length ds"
    and lim: "length ds \<le> readv_limit b"
  shows "readFd (Read_Ok ds) b = Inl Length_Error \<or>
    (\<exists>b'. readFd (Read_Ok ds) b = Inr (int (length ds), None, b') \<and> buffer_ok b' \<and>
    contents b' = contents b @ ds)"
proof -
  let ?w = "writableBytes b"
  let ?d = "take ?w ds" let ?e = "drop ?w ds"
  have small: "length ?e \<le> extrabuf_size"
    using gt lim by (auto simp: readv_limit_def split: if_splits)
  have ld: "length ?d = ?w" using gt by simp
  obtain v where v: "vec_copy (writerIndex b) ?d (bytes b) = Inr v"
    "buffer_ok (b\<lparr>bytes := v, writerIndex := writerIndex b + ?w\<rparr>)"
    "contents (b\<lparr>bytes := v, writerIndex := writerIndex b + ?w\<rparr>) = contents b @ ?d"
    using write_back[OF ok, of ?d] ld by auto
  have full: "writerIndex b + ?w = length v"
    using vec_copy_subrange(1)[OF v(1)] buffer_okD[OF ok] ok by (simp add: buf_simps)
  let ?b2 = "b\<lparr>bytes := v, writerIndex := length v\<rparr>"
  have b2: "buffer_ok ?b2" "contents ?b2 = contents b @ ?d" using v(2,3) by (simp_all add: full)
  have rd: "readFd (Read_Ok ds) b = bindE (append_buf ?e ?b2) (\<lambda>b3. Inr (int (length ds), None, b3))"
    using gt small v(1) by (simp add: readFd_def Let_def)
  have "length ?e \<le> vec_max" using small by (simp add: extrabuf_size_def vec_max_def)
  from append_cases[OF b2(1) this] rd show ?thesis
    using b2(2) by auto
qed

lemma readFd_cases:
  assumes "buffer_ok b" and "length ds \<le> readv_limit b"
  shows "readFd (Read_Ok ds) b = Inl Length_Error \<or>
    (\<exists>b'. readFd (Read_Ok ds) b = Inr (int (length ds), None, b') \<and> buffer_ok b' \<and>
    contents b' = contents b @ ds)"
  using readFd_small[OF assms(1)] readFd_spill[OF assms(1) _ assms(2)]
  by (cases "length ds \<le> writableBytes b") auto

lemma readFd_room:
  assumes ok: "buffer_ok b" and lim: "length ds \<le> readv_limit b" and room: "room b (length ds)"
  shows "\<exists>b'. readFd (Read_Ok ds) b = Inr (int (length ds), None, b') \<and> buffer_ok b' \<and>
    contents b' = contents b @ ds"
proof (cases "length ds \<le> writableBytes b")
  case True
  then show ?thesis by (rule readFd_small[OF ok])
next
  case False
  let ?w = "writableBytes b" let ?e = "drop ?w ds"
  obtain v where v: "vec_copy (writerIndex b) (take ?w ds) (bytes b) = Inr v"
    "buffer_ok (b\<lparr>bytes := v, writerIndex := writerIndex b + ?w\<rparr>)"
    using write_back[OF ok, of "take ?w ds"] False by auto
  have full: "writerIndex b + ?w = length v"
    using vec_copy_subrange(1)[OF v(1)] buffer_okD[OF ok] ok by (simp add: buf_simps)
  let ?b2 = "b\<lparr>bytes := v, writerIndex := length v\<rparr>"
  have "buffer_ok ?b2" using v(2) by (simp add: full)
  moreover have "room ?b2 (length ?e)" using room full False by (simp add: room_def)
  ultimately obtain b3 where b3: "append_buf ?e ?b2 = Inr b3" using append_fits by blast
  have "length ?e \<le> extrabuf_size"
    using False lim by (auto simp: readv_limit_def split: if_splits)
  then have "readFd (Read_Ok ds) b \<noteq> Inl Length_Error"
    using False v(1) b3 by (simp add: readFd_def Let_def)
  then show ?thesis using readFd_cases[OF ok lim] by blast
qed

lemma readv_limit_bound:
  "buffer_ok b \<Longrightarrow> readv_limit b \<le> max (writableBytes b) (2 * extrabuf_size - 1)"
  by (auto simp: readv_limit_def extrabuf_size_def)

section \<open>Searching\<close>

text \<open>
  The line view of a byte string: the text before the first CRLF and what follows it. The codecs
  of the examples read their messages this way.
\<close>

definition next_line :: "string \<Rightarrow> (string \<times> string) option" where
  "next_line s =
     (let k = std_search kCRLF s in if k = length s then None else Some (take k s, drop (k + 2) s))"

lemma length_kCRLF [simp]: "length kCRLF = 2"
  by (simp add: kCRLF_def)

lemma crlf_found:
  assumes "std_search kCRLF s \<noteq> length s"
  shows "s = take (std_search kCRLF s) s @ kCRLF @ drop (std_search kCRLF s + 2) s"
    and "std_search kCRLF s + 2 \<le> length s"
proof -
  let ?k = "std_search kCRLF s"
  have "?k < length s" using std_search_le[of kCRLF s] assms by simp
  from std_search_found[OF this] obtain t where t: "drop ?k s = kCRLF @ t"
    by (auto elim: prefixE)
  then have "drop (?k + 2) s = t" by (metis add.commute append_eq_conv_conj drop_drop length_kCRLF)
  then show "s = take ?k s @ kCRLF @ drop (?k + 2) s" using t by (metis append_take_drop_id)
  show "?k + 2 \<le> length s" using arg_cong[OF t, of length] by simp
qed

lemma next_line_Some:
  assumes "next_line s = Some (l, r)"
  shows "s = l @ kCRLF @ r" and "i < length l \<Longrightarrow> \<not> prefix kCRLF (drop i s)"
proof -
  have k: "std_search kCRLF s \<noteq> length s" "l = take (std_search kCRLF s) s"
    "r = drop (std_search kCRLF s + 2) s"
    using assms by (auto simp: next_line_def Let_def split: if_splits)
  show "s = l @ kCRLF @ r" using crlf_found(1)[OF k(1)] k(2,3) by simp
  show "i < length l \<Longrightarrow> \<not> prefix kCRLF (drop i s)"
    using k(2) by (intro std_search_first) simp
qed

lemma next_line_shorter: "next_line s = Some (l, r) \<Longrightarrow> length r + 2 + length l = length s"
  using arg_cong[OF next_line_Some(1), of s l r length] by simp

lemma std_search_append:
  "std_search pat s < length s \<Longrightarrow> std_search pat (s @ t) = std_search pat s"
proof (induction s)
  case Nil
  then show ?case by simp
next
  case (Cons x s)
  show ?case
  proof (cases "prefix pat (x # s)")
    case True
    then have "prefix pat (x # s @ t)" by (metis append_Cons prefix_prefix)
    with True show ?thesis by simp
  next
    case False
    with Cons.prems have lt: "std_search pat s < length s" by simp
    have "prefix pat (drop (std_search pat s) s)" by (rule std_search_found[OF lt])
    then have "length pat \<le> length s - std_search pat s"
      using prefix_length_le by fastforce
    with lt have "length pat \<le> length (x # s)" by simp
    then have "\<not> prefix pat (x # s @ t)"
      using False by (metis append_Cons prefix_length_prefix prefix_prefix prefix_order.order_refl
          prefix_append)
    with False Cons.IH[OF lt] show ?thesis by simp
  qed
qed

text \<open>A complete line stays the next line however many bytes arrive after it.\<close>

lemma next_line_append:
  assumes "next_line s = Some (l, r)"
  shows "next_line (s @ t) = Some (l, r @ t)"
proof -
  have k: "std_search kCRLF s \<noteq> length s" "l = take (std_search kCRLF s) s"
    "r = drop (std_search kCRLF s + 2) s"
    using assms by (auto simp: next_line_def Let_def split: if_splits)
  have le: "std_search kCRLF s + 2 \<le> length s" by (rule crlf_found(2)[OF k(1)])
  then have "std_search kCRLF (s @ t) = std_search kCRLF s" by (intro std_search_append) simp
  with le k show ?thesis by (simp add: next_line_def Let_def)
qed

lemma findCRLF_next_line:
  assumes ok: "buffer_ok b"
  shows "findCRLF b = map_option (\<lambda>(l, r). peek b + length l) (next_line (contents b))"
proof -
  let ?k = "std_search kCRLF (contents b)"
  have "beginWrite b = peek b + length (contents b)"
    using ok buffer_okD[OF ok] by (simp add: buf_simps beginWrite_def peek_def)
  moreover have "subrange (peek b) (beginWrite b) (bytes b) = contents b"
    by (simp add: contents_def peek_def beginWrite_def)
  moreover have "?k \<le> length (contents b)" by (rule std_search_le)
  ultimately show ?thesis by (auto simp: findCRLF_def next_line_def Let_def)
qed

text \<open>One step of a line reader: find the CRLF, copy the line out, drop the line and its CRLF.\<close>

lemma read_line_step:
  assumes ok: "buffer_ok b" and nl: "next_line (contents b) = Some (l, r)"
  shows "findCRLF b = Some (peek b + length l)"
    and "subrange (peek b) (peek b + length l) (bytes b) = l"
    and "\<exists>b'. retrieveUntil (peek b + length l + 2) b = Inr b' \<and> buffer_ok b' \<and> contents b' = r"
proof -
  have c: "contents b = l @ kCRLF @ r" by (rule next_line_Some(1)[OF nl])
  have len: "length l + 2 \<le> writerIndex b - readerIndex b"
    using arg_cong[OF c, of length] ok by (simp add: buf_simps)
  show "findCRLF b = Some (peek b + length l)" using nl by (simp add: findCRLF_next_line[OF ok])
  have "subrange (peek b) (peek b + length l) (bytes b) = take (length l) (contents b)"
    using len by (simp add: contents_def peek_def subrange_take)
  then show "subrange (peek b) (peek b + length l) (bytes b) = l" by (simp add: c)
  have "peek b + length l + 2 \<le> beginWrite b" using len by (simp add: peek_def beginWrite_def)
  then obtain b' where "retrieveUntil (peek b + length l + 2) b = Inr b'" "buffer_ok b'"
    "contents b' = drop (length l + 2) (contents b)"
    using retrieveUntil_ok[OF ok, of "peek b + length l + 2"] by auto
  then show "\<exists>b'. retrieveUntil (peek b + length l + 2) b = Inr b' \<and> buffer_ok b' \<and> contents b' = r"
    by (auto simp: c)
qed

section \<open>The contract of a byte queue\<close>

text \<open>
  What the connection relies on: a queue of bytes with an \<open>append\<close> that either fails cleanly with
  \<open>std::length_error\<close> or adds at the back, and a \<open>retrieve\<close> that drops from the front and asserts
  that there is enough. A run of such operations loses, duplicates and reorders nothing.
\<close>

datatype fifo_op = Put string | Take nat

definition fifo_step ::
  "('b \<Rightarrow> string) \<Rightarrow> (string \<Rightarrow> 'b \<Rightarrow> error + 'b) \<Rightarrow> (nat \<Rightarrow> 'b \<Rightarrow> error + 'b) \<Rightarrow>
   fifo_op \<Rightarrow> string \<times> 'b \<Rightarrow> error + (string \<times> 'b)" where
  "fifo_step cont put tk op st =
     (case op of
        Put d \<Rightarrow> bindE (put d (snd st)) (\<lambda>b. Inr (fst st, b))
      | Take n \<Rightarrow> bindE (tk n (snd st)) (\<lambda>b. Inr (fst st @ take n (cont (snd st)), b)))"

fun op_data :: "fifo_op \<Rightarrow> string" where
  "op_data (Put d) = d"
| "op_data (Take n) = []"

locale byte_fifo =
  fixes cont :: "'b \<Rightarrow> string" and inv :: "'b \<Rightarrow> bool" and space :: "'b \<Rightarrow> nat \<Rightarrow> bool"
    and put :: "string \<Rightarrow> 'b \<Rightarrow> error + 'b" and tk :: "nat \<Rightarrow> 'b \<Rightarrow> error + 'b"
  assumes put_space: "inv b \<Longrightarrow> space b (length d) \<Longrightarrow>
      \<exists>b'. put d b = Inr b' \<and> inv b' \<and> cont b' = cont b @ d"
    and put_cases: "inv b \<Longrightarrow> length d \<le> vec_max \<Longrightarrow> put d b = Inl Length_Error \<or>
      (\<exists>b'. put d b = Inr b' \<and> inv b' \<and> cont b' = cont b @ d)"
    and tk_ok: "inv b \<Longrightarrow> n \<le> length (cont b) \<Longrightarrow>
      \<exists>b'. tk n b = Inr b' \<and> inv b' \<and> cont b' = drop n (cont b)"
    and tk_assert: "inv b \<Longrightarrow> length (cont b) < n \<Longrightarrow> tk n b = Inl Assert_Failed"
begin

lemma put_Inr:
  "inv b \<Longrightarrow> length d \<le> vec_max \<Longrightarrow> put d b = Inr b' \<Longrightarrow> inv b' \<and> cont b' = cont b @ d"
  using put_cases[of b d] by auto

lemma tk_Inr:
  "inv b \<Longrightarrow> tk n b = Inr b' \<Longrightarrow> inv b' \<and> n \<le> length (cont b) \<and> cont b' = drop n (cont b)"
  using tk_ok[of b n] tk_assert[of b n] by (cases "n \<le> length (cont b)") auto

lemma step_stream:
  assumes "inv (snd st)" and "length (op_data x) \<le> vec_max"
    and "fifo_step cont put tk x st = Inr st'"
  shows "inv (snd st') \<and> fst st' @ cont (snd st') = fst st @ cont (snd st) @ op_data x"
  using assms
  by (cases x) (auto simp: fifo_step_def bindE_eq_Inr dest: put_Inr tk_Inr)

lemma run_stream:
  assumes "inv (snd st)" and "\<And>x. x \<in> set ops \<Longrightarrow> length (op_data x) \<le> vec_max"
    and "foldE (fifo_step cont put tk) ops st = Inr st'"
  shows "inv (snd st') \<and>
    fst st' @ cont (snd st') = fst st @ cont (snd st) @ concat (map op_data ops)"
  using assms
proof (induction ops arbitrary: st)
  case Nil
  then show ?case by simp
next
  case (Cons x ops)
  from Cons.prems(3) obtain st1 where st1: "fifo_step cont put tk x st = Inr st1"
    and rest: "foldE (fifo_step cont put tk) ops st1 = Inr st'"
    by (auto simp: bindE_eq_Inr)
  have "inv (snd st1) \<and> fst st1 @ cont (snd st1) = fst st @ cont (snd st) @ op_data x"
    using step_stream[OF Cons.prems(1) _ st1] Cons.prems(2) by simp
  with Cons.IH[OF _ _ rest] Cons.prems(2) show ?case by simp
qed

end

interpretation buffer_fifo: byte_fifo contents buffer_ok room append_buf retrieve
proof unfold_locales
  fix b :: buffer and d :: string and n :: nat
  assume ok: "buffer_ok b"
  show "room b (length d) \<Longrightarrow>
      \<exists>b'. append_buf d b = Inr b' \<and> buffer_ok b' \<and> contents b' = contents b @ d"
    using append_fits[OF ok] by blast
  show "length d \<le> vec_max \<Longrightarrow> append_buf d b = Inl Length_Error \<or>
      (\<exists>b'. append_buf d b = Inr b' \<and> buffer_ok b' \<and> contents b' = contents b @ d)"
    by (rule append_cases[OF ok])
  show "n \<le> length (contents b) \<Longrightarrow>
      \<exists>b'. retrieve n b = Inr b' \<and> buffer_ok b' \<and> contents b' = drop n (contents b)"
    by (rule retrieve_ok[OF ok])
  show "length (contents b) < n \<Longrightarrow> retrieve n b = Inl Assert_Failed"
    by (rule retrieve_assert[OF ok])
qed

section \<open>Properties\<close>

text \<open>Every \<open>retrieve\<close> of a run asks for no more than the queue holds at that point.\<close>

fun takes_ok :: "nat \<Rightarrow> fifo_op list \<Rightarrow> bool" where
  "takes_ok n [] = True"
| "takes_ok n (Put d # ops) = takes_ok (n + length d) ops"
| "takes_ok n (Take k # ops) = (k \<le> n \<and> takes_ok (n - k) ops)"

lemma retrieve_writer:
  "buffer_ok b \<Longrightarrow> retrieve n b = Inr b' \<Longrightarrow> writerIndex b' \<le> max kCheapPrepend (writerIndex b)"
  by (auto simp: retrieve_def retrieveAll_def assertE_def split: if_splits)

lemma buffer_run_total:
  assumes "buffer_ok b" and "takes_ok (length (contents b)) ops"
    and "max kCheapPrepend (writerIndex b) + length (concat (map op_data ops)) \<le> vec_max"
  shows "\<exists>st'. foldE (fifo_step contents append_buf retrieve) ops (out, b) = Inr st'"
  using assms
proof (induction ops arbitrary: b out)
  case Nil
  then show ?case by simp
next
  case (Cons x ops)
  show ?case
  proof (cases x)
    case (Put d)
    with Cons.prems have "room b (length d)" by (simp add: room_def)
    then obtain b1 where "append_buf d b = Inr b1" "buffer_ok b1" "contents b1 = contents b @ d"
      "writerIndex b1 \<le> writerIndex b + length d"
      using append_fits[OF Cons.prems(1)] by blast
    with Cons.IH[of b1 out] Cons.prems Put show ?thesis by (simp add: fifo_step_def)
  next
    case (Take k)
    with Cons.prems obtain b1 where b1: "retrieve k b = Inr b1" "buffer_ok b1"
      "contents b1 = drop k (contents b)"
      using retrieve_ok[OF Cons.prems(1)] by auto
    with retrieve_writer[OF Cons.prems(1) b1(1)]
      Cons.IH[of b1 "out @ take k (contents b)"] Cons.prems Take
    show ?thesis by (simp add: fifo_step_def)
  qed
qed

text \<open>
  C2: A buffer is a lossless FIFO. Any run of \<open>append\<close> and \<open>retrieve\<close> calls on a well-formed
  buffer, each retrieve within what is there and the whole within the address space, returns; no
  assert fires and no access leaves the vector, and the bytes taken out followed by the bytes
  still inside are exactly the bytes there at the start followed by the bytes appended, whatever
  growth and compaction \<open>makeSpace\<close> did on the way.
\<close>

theorem buffer_lossless_fifo:
  assumes ok: "buffer_ok b" and tk: "takes_ok (length (contents b)) ops"
    and size: "max kCheapPrepend (writerIndex b) + length (concat (map op_data ops)) \<le> vec_max"
  shows "\<exists>out b'. foldE (fifo_step contents append_buf retrieve) ops ([], b) = Inr (out, b') \<and>
    buffer_ok b' \<and> out @ contents b' = contents b @ concat (map op_data ops)"
proof -
  obtain out b' where run: "foldE (fifo_step contents append_buf retrieve) ops ([], b) = Inr (out, b')"
    using buffer_run_total[OF assms] by fastforce
  have "length (op_data x) \<le> vec_max" if "x \<in> set ops" for x
    using that size by (auto dest!: split_list)
  then show ?thesis using buffer_fifo.run_stream[OF _ _ run] ok run by fastforce
qed

definition demo_buffer :: buffer where
  "demo_buffer = \<lparr>bytes = replicate 12 (CHR 0x00), readerIndex = 8, writerIndex = 8\<rparr>"

lemma demo_buffer_ok: "buffer_ok demo_buffer" "contents demo_buffer = []" "room demo_buffer 100"
  "prependableBytes demo_buffer = 8" "writerIndex demo_buffer = 8" "writableBytes demo_buffer = 4"
  by (simp_all add: demo_buffer_def buffer_ok_def contents_def kCheapPrepend_def vec_max_def
      room_def prependableBytes_def writableBytes_def sz_sub_def)

lemma buffer_lossless_fifo_witness:
  "\<exists>out b'. foldE (fifo_step contents append_buf retrieve)
      [Put ''abc'', Take 2, Put ''defghij'', Take 1] ([], demo_buffer) = Inr (out, b') \<and>
    buffer_ok b' \<and> out @ contents b' = ''abcdefghij''"
  using buffer_lossless_fifo[OF demo_buffer_ok(1),
      of "[Put ''abc'', Take 2, Put ''defghij'', Take 1]"]
  by (simp add: demo_buffer_ok kCheapPrepend_def vec_max_def)

text \<open>
  \<open>readFd\<close> appends exactly the bytes the kernel delivered, whether or not they spill into
  \<open>extrabuf\<close>, provided the kernel delivers no more than the two areas it was given; it returns
  their number, and it can deliver at most \<open>128k - 1\<close> bytes when \<open>extrabuf\<close> is used.
\<close>

theorem readFd_appends:
  assumes ok: "buffer_ok b" and lim: "length ds \<le> readv_limit b" and room: "room b (length ds)"
  shows "\<exists>b'. readFd (Read_Ok ds) b = Inr (int (length ds), None, b') \<and> buffer_ok b' \<and>
    contents b' = contents b @ ds \<and>
    (if writableBytes b < extrabuf_size then length ds \<le> 128 * 1024 - 1
     else length ds \<le> writableBytes b)"
proof -
  have "if writableBytes b < extrabuf_size then length ds \<le> 128 * 1024 - 1
     else length ds \<le> writableBytes b"
    using lim by (auto simp: readv_limit_def extrabuf_size_def)
  then show ?thesis using readFd_room[OF assms] by blast
qed

lemma readFd_appends_witness:
  "\<exists>b'. readFd (Read_Ok ''hello world'') demo_buffer = Inr (11, None, b') \<and>
    contents b' = ''hello world''"
  using readFd_appends[OF demo_buffer_ok(1), of "''hello world''"]
  by (auto simp: demo_buffer_ok readv_limit_def extrabuf_size_def room_def vec_max_def)

text \<open>
  \<open>findCRLF\<close> points at the first CRLF of the readable bytes, or is null when there is none;
  copying the bytes before it out and calling \<open>retrieveUntil(crlf + 2)\<close> leaves exactly the bytes
  after it.
\<close>

theorem findCRLF_first:
  assumes ok: "buffer_ok b"
  shows "case findCRLF b of
      None \<Rightarrow> std_search kCRLF (contents b) = length (contents b)
    | Some p \<Rightarrow> \<exists>l r b'. contents b = l @ kCRLF @ r \<and> p = peek b + length l \<and>
        \<not> (\<exists>i<length l. prefix kCRLF (drop i (contents b))) \<and>
        subrange (peek b) p (bytes b) = l \<and>
        retrieveUntil (p + 2) b = Inr b' \<and> buffer_ok b' \<and> contents b' = r"
proof (cases "next_line (contents b)")
  case None
  then show ?thesis
    by (simp add: findCRLF_next_line[OF ok]) (auto simp: next_line_def Let_def split: if_splits)
next
  case (Some lr)
  then obtain l r where nl: "next_line (contents b) = Some (l, r)" by (cases lr) auto
  show ?thesis
    using read_line_step[OF ok nl] next_line_Some[OF nl]
    by (fastforce simp: findCRLF_next_line[OF ok] nl)
qed

lemma findCRLF_first_witness:
  "\<exists>b. buffer_ok b \<and> findCRLF b = Some 10 \<and>
    (case findCRLF b of None \<Rightarrow> False
     | Some p \<Rightarrow> \<exists>b'. retrieveUntil (p + 2) b = Inr b' \<and> contents b' = ''c'')"
proof -
  let ?b = "\<lparr>bytes = replicate 8 (CHR 0x00) @ ''ab'' @ kCRLF @ ''c'', readerIndex = 8,
    writerIndex = 13\<rparr>"
  have ok: "buffer_ok ?b" by (simp add: buffer_ok_def kCheapPrepend_def vec_max_def kCRLF_def)
  have c: "contents ?b = ''ab'' @ kCRLF @ ''c''"
    by (simp add: contents_def subrange_def kCRLF_def)
  have f: "findCRLF ?b = Some 10"
    by (simp add: findCRLF_def peek_def beginWrite_def subrange_def kCRLF_def)
  have "\<exists>b'. retrieveUntil (10 + 2) ?b = Inr b' \<and> contents b' = ''c''"
  proof -
    obtain l r b' where "''ab'' @ kCRLF @ ''c'' = l @ kCRLF @ r" "10 = peek ?b + length l"
      "retrieveUntil (10 + 2) ?b = Inr b'" "contents b' = r"
      using findCRLF_first[OF ok] unfolding f c option.case by metis
    moreover from this have "length l = length ''ab''" by (simp add: peek_def)
    ultimately show ?thesis by (metis append_eq_append_conv same_append_eq)
  qed
  with ok f show ?thesis by (intro exI[of _ ?b]) simp
qed

text \<open>
  The size arithmetic of \<open>ensureWritableBytes\<close> wraps around. For a length within \<open>writerIndex_\<close>
  of \<open>2^64\<close> the sum \<open>writerIndex_ + len\<close> wraps, the vector is cut below the writer index, and the
  final assert \<open>writableBytes() >= len\<close> still passes, because its difference wraps as well: the
  call returns normally with a buffer whose indices point outside its vector.
\<close>

theorem ensureWritableBytes_wraps:
  assumes ok: "buffer_ok b" and k: "kCheapPrepend < k" "k \<le> writerIndex b"
  shows "\<exists>b'. ensureWritableBytes (2 ^ 64 - k) b = Inr b' \<and>
    length (bytes b') < writerIndex b' \<and> \<not> buffer_ok b'"
proof -
  note d = buffer_okD[OF ok]
  let ?n = "2 ^ 64 - k" and ?b = "b\<lparr>bytes := take (writerIndex b - k) (bytes b)\<rparr>"
  have k63: "k < 2 ^ 63" using k d by simp
  have wl: "writerIndex b - k \<le> length (bytes b)" using d by simp
  have "sz_add (writableBytes b) (prependableBytes b) = writableBytes b + prependableBytes b"
    by (rule sz_add_small) (use d ok in \<open>simp add: buf_simps prependableBytes_def\<close>)
  moreover have "sz_add ?n kCheapPrepend = ?n + kCheapPrepend"
    by (rule sz_add_small) (use k k63 in simp)
  moreover have "writableBytes b + prependableBytes b < ?n + kCheapPrepend"
    using d k63 ok by (simp add: buf_simps prependableBytes_def)
  moreover have "sz_add (writerIndex b) ?n = writerIndex b - k"
  proof -
    have "writerIndex b + ?n = (writerIndex b - k) + 2 ^ 64" using k k63 by simp
    moreover have "writerIndex b - k < 2 ^ 64" using d by simp
    ultimately show ?thesis by (simp only: sz_add_def mod_add_self2 mod_less)
  qed
  ultimately have "makeSpace ?n b = Inr ?b"
    using wl d by (simp add: makeSpace_def vec_resize_def)
  moreover have "writableBytes b < ?n" using d k63 ok by (simp add: buf_simps)
  moreover have "writableBytes ?b = ?n"
  proof -
    have "length (bytes ?b) + (2 ^ 64 - writerIndex b) = ?n" using k d by simp
    moreover have "?n < 2 ^ 64" using k by simp
    ultimately show ?thesis by (simp add: writableBytes_def sz_sub_def)
  qed
  ultimately have "ensureWritableBytes ?n b = Inr ?b" by (simp add: ensureWritableBytes_def)
  moreover have "length (bytes ?b) < writerIndex ?b" using k wl by simp
  ultimately show ?thesis by (auto simp: buffer_ok_def)
qed

lemma ensureWritableBytes_wraps_witness:
  "\<exists>b'. ensureWritableBytes (2 ^ 64 - 9)
      \<lparr>bytes = replicate 12 (CHR 0x00), readerIndex = 8, writerIndex = 10\<rparr> = Inr b' \<and>
    length (bytes b') < writerIndex b'"
  using ensureWritableBytes_wraps[of
      "\<lparr>bytes = replicate 12 (CHR 0x00), readerIndex = 8, writerIndex = 10\<rparr>" 9]
  by (auto simp: buffer_ok_def kCheapPrepend_def vec_max_def)

end
