(* ===== verification/Ev_BufferInts.thy ===== *)
theory Ev_BufferInts
  imports Ev_Buffer
begin

text \<open>
  The fixed-width integers of \<^verbatim>\<open>Buffer.h\<close>: \<open>append\<close>, \<open>peek\<close>, \<open>read\<close> and \<open>prepend\<close> of 64, 32,
  16 and 8 bits in network byte order. A signed \<open>intN_t\<close> is its bit pattern, a word of N bits.
  What \<open>htobeN\<close> leaves in memory is the big-endian byte string of the pattern on every host, so
  the model writes and reads that string.
\<close>

section \<open>Big-endian byte strings\<close>

fun be_encode :: "nat \<Rightarrow> nat \<Rightarrow> string" where
  "be_encode 0 x = []"
| "be_encode (Suc k) x = be_encode k (x div 256) @ [char_of (x mod 256)]"

definition be_decode :: "string \<Rightarrow> nat" where
  "be_decode s = foldl (\<lambda>a c. a * 256 + of_char c) 0 s"

lemma length_be_encode [simp]: "length (be_encode k x) = k"
  by (induction k arbitrary: x) auto

lemma be_decode_snoc: "be_decode (s @ [c]) = be_decode s * 256 + of_char c"
  by (simp add: be_decode_def)

lemma be_decode_encode: "x < 256 ^ k \<Longrightarrow> be_decode (be_encode k x) = x"
proof (induction k arbitrary: x)
  case 0
  then show ?case by (simp add: be_decode_def)
next
  case (Suc k)
  then have "x div 256 < 256 ^ k" by (simp add: less_mult_imp_div_less mult.commute)
  with Suc.IH show ?case by (simp add: be_decode_snoc)
qed

lemma be_decode_lt: "be_decode s < 256 ^ length s"
proof (induction s rule: rev_induct)
  case Nil
  then show ?case by (simp add: be_decode_def)
next
  case (snoc c s)
  have "of_char c < (256::nat)" by simp
  then have "be_decode (s @ [c]) < be_decode s * 256 + 256" unfolding be_decode_snoc by linarith
  also have "\<dots> \<le> 256 ^ length s * 256" using snoc by simp
  finally show ?case by (simp add: mult.commute)
qed

section \<open>The operations\<close>

definition retrieveInt64 :: "buffer \<Rightarrow> error + buffer" where
  "retrieveInt64 b = retrieve 8 b"

definition retrieveInt32 :: "buffer \<Rightarrow> error + buffer" where
  "retrieveInt32 b = retrieve 4 b"

definition retrieveInt16 :: "buffer \<Rightarrow> error + buffer" where
  "retrieveInt16 b = retrieve 2 b"

definition retrieveInt8 :: "buffer \<Rightarrow> error + buffer" where
  "retrieveInt8 b = retrieve 1 b"

definition appendInt64 :: "64 word \<Rightarrow> buffer \<Rightarrow> error + buffer" where
  "appendInt64 x b = append_buf (be_encode 8 (unat x)) b"

definition appendInt32 :: "32 word \<Rightarrow> buffer \<Rightarrow> error + buffer" where
  "appendInt32 x b = append_buf (be_encode 4 (unat x)) b"

definition appendInt16 :: "16 word \<Rightarrow> buffer \<Rightarrow> error + buffer" where
  "appendInt16 x b = append_buf (be_encode 2 (unat x)) b"

definition appendInt8 :: "8 word \<Rightarrow> buffer \<Rightarrow> error + buffer" where
  "appendInt8 x b = append_buf (be_encode 1 (unat x)) b"

text \<open>\<open>memcpy\<close> of \<open>k\<close> bytes at \<open>peek()\<close>, after the assert that they are readable.\<close>

definition peek_bytes :: "nat \<Rightarrow> buffer \<Rightarrow> error + string" where
  "peek_bytes k b =
     bindE (assertE (k \<le> readableBytes b)) (\<lambda>_. Inr (subrange (peek b) (peek b + k) (bytes b)))"

definition peekInt64 :: "buffer \<Rightarrow> error + 64 word" where
  "peekInt64 b = bindE (peek_bytes 8 b) (\<lambda>s. Inr (word_of_nat (be_decode s)))"

definition peekInt32 :: "buffer \<Rightarrow> error + 32 word" where
  "peekInt32 b = bindE (peek_bytes 4 b) (\<lambda>s. Inr (word_of_nat (be_decode s)))"

definition peekInt16 :: "buffer \<Rightarrow> error + 16 word" where
  "peekInt16 b = bindE (peek_bytes 2 b) (\<lambda>s. Inr (word_of_nat (be_decode s)))"

definition peekInt8 :: "buffer \<Rightarrow> error + 8 word" where
  "peekInt8 b = bindE (peek_bytes 1 b) (\<lambda>s. Inr (word_of_nat (be_decode s)))"

definition readInt64 :: "buffer \<Rightarrow> error + (64 word \<times> buffer)" where
  "readInt64 b = bindE (peekInt64 b) (\<lambda>x. bindE (retrieveInt64 b) (\<lambda>b'. Inr (x, b')))"

definition readInt32 :: "buffer \<Rightarrow> error + (32 word \<times> buffer)" where
  "readInt32 b = bindE (peekInt32 b) (\<lambda>x. bindE (retrieveInt32 b) (\<lambda>b'. Inr (x, b')))"

definition readInt16 :: "buffer \<Rightarrow> error + (16 word \<times> buffer)" where
  "readInt16 b = bindE (peekInt16 b) (\<lambda>x. bindE (retrieveInt16 b) (\<lambda>b'. Inr (x, b')))"

definition readInt8 :: "buffer \<Rightarrow> error + (8 word \<times> buffer)" where
  "readInt8 b = bindE (peekInt8 b) (\<lambda>x. bindE (retrieveInt8 b) (\<lambda>b'. Inr (x, b')))"

definition prependInt64 :: "64 word \<Rightarrow> buffer \<Rightarrow> error + buffer" where
  "prependInt64 x b = prepend (be_encode 8 (unat x)) b"

definition prependInt32 :: "32 word \<Rightarrow> buffer \<Rightarrow> error + buffer" where
  "prependInt32 x b = prepend (be_encode 4 (unat x)) b"

definition prependInt16 :: "16 word \<Rightarrow> buffer \<Rightarrow> error + buffer" where
  "prependInt16 x b = prepend (be_encode 2 (unat x)) b"

definition prependInt8 :: "8 word \<Rightarrow> buffer \<Rightarrow> error + buffer" where
  "prependInt8 x b = prepend (be_encode 1 (unat x)) b"

section \<open>Reading back\<close>

lemma peek_bytes_ok:
  assumes ok: "buffer_ok b" and c: "contents b = s @ rest"
  shows "peek_bytes (length s) b = Inr s"
proof -
  have n: "length s \<le> writerIndex b - readerIndex b"
    using arg_cong[OF c, of length] ok by (simp add: buf_simps)
  then have "subrange (peek b) (peek b + length s) (bytes b) = take (length s) (contents b)"
    by (simp add: contents_def peek_def subrange_take)
  then show ?thesis using n ok c by (simp add: peek_bytes_def buf_simps)
qed

lemma be_word:
  fixes x :: "'a::len word"
  assumes "2 ^ LENGTH('a) = (256::nat) ^ k"
  shows "word_of_nat (be_decode (be_encode k (unat x))) = x"
proof -
  have "unat x < 2 ^ LENGTH('a)" by simp
  then have "unat x < 256 ^ k" using assms by simp
  then show ?thesis by (simp add: be_decode_encode)
qed

lemma retrieve_front:
  assumes ok: "buffer_ok b" and c: "contents b = s @ rest"
  shows "\<exists>b'. retrieve (length s) b = Inr b' \<and> buffer_ok b' \<and> contents b' = rest"
  using retrieve_ok[OF ok, of "length s"] by (auto simp: c)

lemma readInt_front:
  assumes ok: "buffer_ok b"
  shows "contents b = be_encode 8 (unat x) @ rest \<Longrightarrow>
      \<exists>b'. readInt64 b = Inr (x, b') \<and> buffer_ok b' \<and> contents b' = rest"
    and "contents b = be_encode 4 (unat y) @ rest \<Longrightarrow>
      \<exists>b'. readInt32 b = Inr (y, b') \<and> buffer_ok b' \<and> contents b' = rest"
    and "contents b = be_encode 2 (unat z) @ rest \<Longrightarrow>
      \<exists>b'. readInt16 b = Inr (z, b') \<and> buffer_ok b' \<and> contents b' = rest"
    and "contents b = be_encode 1 (unat w) @ rest \<Longrightarrow>
      \<exists>b'. readInt8 b = Inr (w, b') \<and> buffer_ok b' \<and> contents b' = rest"
proof -
  have front: "peek_bytes k b = Inr (be_encode k v) \<and>
      (\<exists>b'. retrieve k b = Inr b' \<and> buffer_ok b' \<and> contents b' = rest)"
    if "contents b = be_encode k v @ rest" for k v
    using peek_bytes_ok[OF ok that] retrieve_front[OF ok that] by simp
  show "contents b = be_encode 8 (unat x) @ rest \<Longrightarrow>
      \<exists>b'. readInt64 b = Inr (x, b') \<and> buffer_ok b' \<and> contents b' = rest"
    using front[of 8 "unat x"] be_word[of 8 x]
    by (auto simp: readInt64_def peekInt64_def retrieveInt64_def)
  show "contents b = be_encode 4 (unat y) @ rest \<Longrightarrow>
      \<exists>b'. readInt32 b = Inr (y, b') \<and> buffer_ok b' \<and> contents b' = rest"
    using front[of 4 "unat y"] be_word[of 4 y]
    by (auto simp: readInt32_def peekInt32_def retrieveInt32_def)
  show "contents b = be_encode 2 (unat z) @ rest \<Longrightarrow>
      \<exists>b'. readInt16 b = Inr (z, b') \<and> buffer_ok b' \<and> contents b' = rest"
    using front[of 2 "unat z"] be_word[of 2 z]
    by (auto simp: readInt16_def peekInt16_def retrieveInt16_def)
  show "contents b = be_encode 1 (unat w) @ rest \<Longrightarrow>
      \<exists>b'. readInt8 b = Inr (w, b') \<and> buffer_ok b' \<and> contents b' = rest"
    using front[of 1 "unat w"] be_word[of 1 w]
    by (auto simp: readInt8_def peekInt8_def retrieveInt8_def)
qed

text \<open>
  Integers survive the buffer. Values of all four widths appended one after the other to a
  buffer with any contents are read back, in the same order, once the earlier contents are
  retrieved; the buffer is then empty, and no assert fails on the way.
\<close>

theorem ints_roundtrip:
  assumes ok: "buffer_ok b" and room: "room b 15"
  shows "\<exists>b1 b2 b3 b4 r0 r1 r2 r3 r4.
    appendInt64 x b = Inr b1 \<and> appendInt32 y b1 = Inr b2 \<and> appendInt16 z b2 = Inr b3 \<and>
    appendInt8 w b3 = Inr b4 \<and> retrieve (length (contents b)) b4 = Inr r0 \<and>
    readInt64 r0 = Inr (x, r1) \<and> readInt32 r1 = Inr (y, r2) \<and> readInt16 r2 = Inr (z, r3) \<and>
    readInt8 r3 = Inr (w, r4) \<and> buffer_ok r4 \<and> contents r4 = []"
proof -
  have app: "\<exists>b'. append_buf (be_encode k v) c = Inr b' \<and> buffer_ok b' \<and>
      contents b' = contents c @ be_encode k v \<and> room b' n"
    if "buffer_ok c" "room c (k + n)" for c k v n
    using append_fits[OF that(1), of "be_encode k v"] that(2) by (fastforce simp: room_def)
  obtain b1 where b1: "appendInt64 x b = Inr b1" "buffer_ok b1" "room b1 (4 + 3)"
    "contents b1 = contents b @ be_encode 8 (unat x)"
    using app[of b 8 7] ok room by (auto simp: appendInt64_def)
  obtain b2 where b2: "appendInt32 y b1 = Inr b2" "buffer_ok b2" "room b2 (2 + 1)"
    "contents b2 = contents b1 @ be_encode 4 (unat y)"
    using app[OF b1(2,3)] by (auto simp: appendInt32_def)
  obtain b3 where b3: "appendInt16 z b2 = Inr b3" "buffer_ok b3" "room b3 (1 + 0)"
    "contents b3 = contents b2 @ be_encode 2 (unat z)"
    using app[OF b2(2,3)] by (auto simp: appendInt16_def)
  obtain b4 where b4: "appendInt8 w b3 = Inr b4" "buffer_ok b4"
    "contents b4 = contents b3 @ be_encode 1 (unat w)"
    using app[OF b3(2,3)] by (auto simp: appendInt8_def)
  have c4: "contents b4 = contents b @ be_encode 8 (unat x) @ be_encode 4 (unat y) @
      be_encode 2 (unat z) @ be_encode 1 (unat w)"
    by (simp add: b1 b2 b3 b4)
  obtain r0 where r0: "retrieve (length (contents b)) b4 = Inr r0" "buffer_ok r0"
    "contents r0 = be_encode 8 (unat x) @ be_encode 4 (unat y) @ be_encode 2 (unat z) @
      be_encode 1 (unat w)"
    using retrieve_front[OF b4(2) c4] by blast
  obtain r1 where r1: "readInt64 r0 = Inr (x, r1)" "buffer_ok r1"
    "contents r1 = be_encode 4 (unat y) @ be_encode 2 (unat z) @ be_encode 1 (unat w)"
    using readInt_front(1)[OF r0(2,3)] by blast
  obtain r2 where r2: "readInt32 r1 = Inr (y, r2)" "buffer_ok r2"
    "contents r2 = be_encode 2 (unat z) @ be_encode 1 (unat w)"
    using readInt_front(2)[OF r1(2,3)] by blast
  obtain r3 where r3: "readInt16 r2 = Inr (z, r3)" "buffer_ok r3"
    "contents r3 = be_encode 1 (unat w) @ []"
    using readInt_front(3)[OF r2(2,3)] by auto
  obtain r4 where "readInt8 r3 = Inr (w, r4)" "buffer_ok r4" "contents r4 = []"
    using readInt_front(4)[OF r3(2,3)] by blast
  with b1(1) b2(1) b3(1) b4(1) r0(1) r1(1) r2(1) r3(1) show ?thesis by blast
qed

lemma ints_roundtrip_witness:
  "\<exists>b1 b2 b3 b4 r0 r1 r2 r3 r4.
    appendInt64 (- 2) demo_buffer = Inr b1 \<and> appendInt32 7 b1 = Inr b2 \<and>
    appendInt16 65535 b2 = Inr b3 \<and> appendInt8 1 b3 = Inr b4 \<and> retrieve 0 b4 = Inr r0 \<and>
    readInt64 r0 = Inr (- 2, r1) \<and> readInt32 r1 = Inr (7, r2) \<and> readInt16 r2 = Inr (65535, r3) \<and>
    readInt8 r3 = Inr (1, r4) \<and> contents r4 = []"
proof -
  have room: "room demo_buffer 15" by (simp add: demo_buffer_def room_def vec_max_def)
  show ?thesis
    using ints_roundtrip[OF demo_buffer_ok(1) room, of "- 2" 7 65535 1]
    unfolding demo_buffer_ok(2) list.size by blast
qed

text \<open>
  A header of any of the four widths, prepended in front of any contents while the prepend
  area is at least \<open>kCheapPrepend\<close>, is read back and leaves the contents as they were.
\<close>

theorem header_roundtrip:
  assumes ok: "buffer_ok b" and area: "kCheapPrepend \<le> prependableBytes b"
  shows "(\<exists>b1 r. prependInt64 x b = Inr b1 \<and> readInt64 b1 = Inr (x, r) \<and>
      buffer_ok r \<and> contents r = contents b) \<and>
    (\<exists>b1 r. prependInt32 y b = Inr b1 \<and> readInt32 b1 = Inr (y, r) \<and>
      buffer_ok r \<and> contents r = contents b) \<and>
    (\<exists>b1 r. prependInt16 z b = Inr b1 \<and> readInt16 b1 = Inr (z, r) \<and>
      buffer_ok r \<and> contents r = contents b) \<and>
    (\<exists>b1 r. prependInt8 w b = Inr b1 \<and> readInt8 b1 = Inr (w, r) \<and>
      buffer_ok r \<and> contents r = contents b)"
proof -
  have pre: "\<exists>b1. prepend (be_encode k v) b = Inr b1 \<and> buffer_ok b1 \<and>
      contents b1 = be_encode k v @ contents b" if "k \<le> 8" for k v
    using prepend_ok[OF ok, of "be_encode k v"] that area by (simp add: kCheapPrepend_def)
  have "\<exists>b1 r. prependInt64 x b = Inr b1 \<and> readInt64 b1 = Inr (x, r) \<and>
      buffer_ok r \<and> contents r = contents b"
    using pre[of 8 "unat x"] readInt_front(1) unfolding prependInt64_def by fastforce
  moreover have "\<exists>b1 r. prependInt32 y b = Inr b1 \<and> readInt32 b1 = Inr (y, r) \<and>
      buffer_ok r \<and> contents r = contents b"
    using pre[of 4 "unat y"] readInt_front(2) unfolding prependInt32_def by fastforce
  moreover have "\<exists>b1 r. prependInt16 z b = Inr b1 \<and> readInt16 b1 = Inr (z, r) \<and>
      buffer_ok r \<and> contents r = contents b"
    using pre[of 2 "unat z"] readInt_front(3) unfolding prependInt16_def by fastforce
  moreover have "\<exists>b1 r. prependInt8 w b = Inr b1 \<and> readInt8 b1 = Inr (w, r) \<and>
      buffer_ok r \<and> contents r = contents b"
    using pre[of 1 "unat w"] readInt_front(4) unfolding prependInt8_def by fastforce
  ultimately show ?thesis by simp
qed

lemma header_roundtrip_witness:
  "\<exists>b1 r. prependInt32 5 demo_buffer = Inr b1 \<and> readInt32 b1 = Inr (5, r) \<and> contents r = []"
  using header_roundtrip[OF demo_buffer_ok(1), of 0 5 0 0]
  by (auto simp: demo_buffer_ok kCheapPrepend_def)

end
