(* ===== verification/Ev_Channel.thy ===== *)
theory Ev_Channel
  imports Ev_Prelude
begin

text \<open>
  \<^verbatim>\<open>tinyev/Channel.h\<close>, \<^verbatim>\<open>tinyev/Channel.cc\<close> and \<^verbatim>\<open>tinyev/EPoller.cc\<close>: one file descriptor with
  the events it wants, the update that turns a change of the wanted events into an \<open>epoll_ctl\<close>
  call, and the dispatch of the events that \<open>epoll_wait\<close> reported. The owner of a channel supplies
  its callbacks; the locale \<open>channel_owner\<close> is that contract. Every \<open>epoll_ctl\<close> call is recorded,
  and \<open>interest_after\<close> replays the record the way epoll documents it, so that a call the kernel
  would refuse (adding twice, changing or removing what is not there) is visible. \<open>inL\<close> is the
  answer of \<open>isInLoopThread()\<close>.
\<close>

unbundle bit_operations_syntax

section \<open>Event masks\<close>

type_synonym evmask = "32 word"

definition EPOLLIN :: evmask where "EPOLLIN = 1"
definition EPOLLPRI :: evmask where "EPOLLPRI = 2"
definition EPOLLOUT :: evmask where "EPOLLOUT = 4"
definition EPOLLERR :: evmask where "EPOLLERR = 8"
definition EPOLLHUP :: evmask where "EPOLLHUP = 16"
definition EPOLLRDHUP :: evmask where "EPOLLRDHUP = 8192"

definition has :: "evmask \<Rightarrow> evmask \<Rightarrow> bool" where
  "has e m \<longleftrightarrow> e AND m \<noteq> 0"

section \<open>Channels\<close>

record channel =
  polling :: bool
  fd :: int
  tied :: bool
  events :: evmask
  revents :: evmask
  handlingEvents :: bool
  hasRead :: bool
  hasWrite :: bool
  hasClose :: bool
  hasError :: bool

definition channel_new :: "int \<Rightarrow> channel" where
  "channel_new f =
     \<lparr>polling = False, fd = f, tied = False, events = 0, revents = 0, handlingEvents = False,
      hasRead = False, hasWrite = False, hasClose = False, hasError = False\<rparr>"

definition channel_destroy :: "channel \<Rightarrow> error + unit" where
  "channel_destroy ch = assertE (\<not> handlingEvents ch)"

definition isNoneEvents :: "channel \<Rightarrow> bool" where
  "isNoneEvents ch \<longleftrightarrow> events ch = 0"

definition isReading :: "channel \<Rightarrow> bool" where
  "isReading ch \<longleftrightarrow> has (events ch) EPOLLIN"

definition isWriting :: "channel \<Rightarrow> bool" where
  "isWriting ch \<longleftrightarrow> has (events ch) EPOLLOUT"

definition setRevents :: "evmask \<Rightarrow> channel \<Rightarrow> channel" where
  "setRevents r ch = ch\<lparr>revents := r\<rparr>"

definition tie :: "channel \<Rightarrow> channel" where
  "tie ch = ch\<lparr>tied := True\<rparr>"

section \<open>Registration with epoll\<close>

datatype ctl_op = Ctl_Add | Ctl_Mod | Ctl_Del

type_synonym ctl = "ctl_op \<times> int \<times> evmask"

text \<open>\<open>EPoller::updateChannel\<close>: choose the operation, then issue it. Its failure is only logged.\<close>

definition poller_updateChannel :: "bool \<Rightarrow> channel \<Rightarrow> error + (channel \<times> ctl)" where
  "poller_updateChannel inL ch =
     bindE (assertE inL) (\<lambda>_.
     if \<not> polling ch then
       bindE (assertE (\<not> isNoneEvents ch)) (\<lambda>_.
       Inr (ch\<lparr>polling := True\<rparr>, (Ctl_Add, fd ch, events ch)))
     else if \<not> isNoneEvents ch then Inr (ch, (Ctl_Mod, fd ch, events ch))
     else Inr (ch\<lparr>polling := False\<rparr>, (Ctl_Del, fd ch, events ch)))"

definition loop_updateChannel :: "bool \<Rightarrow> channel \<Rightarrow> error + (channel \<times> ctl)" where
  "loop_updateChannel inL ch = bindE (assertE inL) (\<lambda>_. poller_updateChannel inL ch)"

definition enableRead :: "bool \<Rightarrow> channel \<Rightarrow> error + (channel \<times> ctl)" where
  "enableRead inL ch =
     loop_updateChannel inL (ch\<lparr>events := events ch OR (EPOLLIN OR EPOLLPRI)\<rparr>)"

definition enableWrite :: "bool \<Rightarrow> channel \<Rightarrow> error + (channel \<times> ctl)" where
  "enableWrite inL ch = loop_updateChannel inL (ch\<lparr>events := events ch OR EPOLLOUT\<rparr>)"

definition disableRead :: "bool \<Rightarrow> channel \<Rightarrow> error + (channel \<times> ctl)" where
  "disableRead inL ch = loop_updateChannel inL (ch\<lparr>events := events ch AND NOT EPOLLIN\<rparr>)"

definition disableWrite :: "bool \<Rightarrow> channel \<Rightarrow> error + (channel \<times> ctl)" where
  "disableWrite inL ch = loop_updateChannel inL (ch\<lparr>events := events ch AND NOT EPOLLOUT\<rparr>)"

definition disableAll :: "bool \<Rightarrow> channel \<Rightarrow> error + (channel \<times> ctl)" where
  "disableAll inL ch = loop_updateChannel inL (ch\<lparr>events := 0\<rparr>)"

definition loop_removeChannel :: "bool \<Rightarrow> channel \<Rightarrow> error + (channel \<times> ctl)" where
  "loop_removeChannel inL ch = bindE (assertE inL) (\<lambda>_. disableAll inL ch)"

definition channel_remove :: "bool \<Rightarrow> channel \<Rightarrow> error + (channel \<times> ctl)" where
  "channel_remove inL ch = bindE (assertE (polling ch)) (\<lambda>_. loop_removeChannel inL ch)"

section \<open>What the kernel holds\<close>

text \<open>
  epoll's interest list for one descriptor: None when it is not registered. A call that epoll
  documents as failing (EEXIST, ENOENT) makes the replay fail.
\<close>

fun ctl_apply :: "ctl \<Rightarrow> evmask option \<Rightarrow> error + evmask option" where
  "ctl_apply (Ctl_Add, f, e) None = Inr (Some e)"
| "ctl_apply (Ctl_Mod, f, e) (Some _) = Inr (Some e)"
| "ctl_apply (Ctl_Del, f, e) (Some _) = Inr None"
| "ctl_apply _ _ = Inl Syscall_Refused"

definition interest_after :: "ctl list \<Rightarrow> error + evmask option" where
  "interest_after cs = foldE ctl_apply cs None"

definition wanted :: "channel \<Rightarrow> evmask option" where
  "wanted ch = (if polling ch then Some (events ch) else None)"

section \<open>Dispatch\<close>

datatype chan_cb = CloseCb | ErrorCb | ReadCb | WriteCb

definition whenE :: "bool \<Rightarrow> ('s \<Rightarrow> error + 's) \<Rightarrow> 's \<Rightarrow> error + 's" where
  "whenE c f s = (if c then f s else Inr s)"

definition wantsClose :: "channel \<Rightarrow> bool" where
  "wantsClose ch \<longleftrightarrow>
     has (revents ch) EPOLLHUP \<and> \<not> has (revents ch) EPOLLIN \<and> hasClose ch"

definition wantsError :: "channel \<Rightarrow> bool" where
  "wantsError ch \<longleftrightarrow> has (revents ch) EPOLLERR \<and> hasError ch"

definition wantsRead :: "channel \<Rightarrow> bool" where
  "wantsRead ch \<longleftrightarrow> has (revents ch) (EPOLLIN OR EPOLLPRI OR EPOLLRDHUP) \<and> hasRead ch"

definition wantsWrite :: "channel \<Rightarrow> bool" where
  "wantsWrite ch \<longleftrightarrow> has (revents ch) EPOLLOUT \<and> hasWrite ch"

text \<open>
  The owner's state is \<open>'s\<close>; \<open>get\<close> and \<open>upd\<close> reach the channel inside it and \<open>run\<close> is its
  callbacks. Each test reads \<open>revents_\<close> at the moment the code does, after the earlier callbacks.
\<close>

definition handleEventsWithGuard ::
  "('s \<Rightarrow> channel) \<Rightarrow> ((channel \<Rightarrow> channel) \<Rightarrow> 's \<Rightarrow> 's) \<Rightarrow> (chan_cb \<Rightarrow> 's \<Rightarrow> error + 's) \<Rightarrow>
   's \<Rightarrow> error + 's" where
  "handleEventsWithGuard get upd run s =
     (let s0 = upd (\<lambda>c. c\<lparr>handlingEvents := True\<rparr>) s in
      bindE (whenE (wantsClose (get s0)) (run CloseCb) s0) (\<lambda>s1.
      bindE (whenE (wantsError (get s1)) (run ErrorCb) s1) (\<lambda>s2.
      bindE (whenE (wantsRead (get s2)) (run ReadCb) s2) (\<lambda>s3.
      bindE (whenE (wantsWrite (get s3)) (run WriteCb) s3) (\<lambda>s4.
      Inr (upd (\<lambda>c. c\<lparr>handlingEvents := False\<rparr>) s4))))))"

text \<open>\<open>alive\<close>: the tied owner still exists, so \<open>tie_.lock()\<close> is not null.\<close>

definition handleEvents ::
  "('s \<Rightarrow> channel) \<Rightarrow> ((channel \<Rightarrow> channel) \<Rightarrow> 's \<Rightarrow> 's) \<Rightarrow> (chan_cb \<Rightarrow> 's \<Rightarrow> error + 's) \<Rightarrow>
   bool \<Rightarrow> bool \<Rightarrow> 's \<Rightarrow> error + 's" where
  "handleEvents get upd run inL alive s =
     bindE (assertE inL) (\<lambda>_.
     if tied (get s)
     then (if alive then handleEventsWithGuard get upd run s else Inr s)
     else handleEventsWithGuard get upd run s)"

section \<open>Waiting\<close>

datatype wait_result = Wait_Ok "(nat \<times> evmask) list" | Wait_Err nat

text \<open>
  \<open>EPoller::poll\<close> over the channels of the loop, which \<open>data.ptr\<close> names by number: the reported
  events are stored in the channels, the active list is theirs in order, and a full event array
  doubles. An error leaves everything as it was.
\<close>

definition poller_poll ::
  "bool \<Rightarrow> wait_result \<Rightarrow> nat \<Rightarrow> (nat \<Rightarrow> channel) \<Rightarrow> error + (nat list \<times> nat \<times> (nat \<Rightarrow> channel))" where
  "poller_poll inL res sz chans =
     bindE (assertE inL) (\<lambda>_.
     case res of
       Wait_Err e \<Rightarrow> Inr ([], sz, chans)
     | Wait_Ok evs \<Rightarrow>
         Inr (map fst evs, if length evs = sz \<and> evs \<noteq> [] then 2 * sz else sz,
              foldl (\<lambda>m (p, r). m(p := setRevents r (m p))) chans evs))"

section \<open>Event bits\<close>

lemma has_exp: "has e (2 ^ n) \<longleftrightarrow> bit e n"
  by (simp add: has_def and_exp_eq_0_iff_not_bit)

lemma has_bits:
  "has e EPOLLIN \<longleftrightarrow> bit e 0" "has e EPOLLPRI \<longleftrightarrow> bit e 1" "has e EPOLLOUT \<longleftrightarrow> bit e 2"
  "has e EPOLLERR \<longleftrightarrow> bit e 3" "has e EPOLLHUP \<longleftrightarrow> bit e 4" "has e EPOLLRDHUP \<longleftrightarrow> bit e 13"
  using has_exp[of e 0] has_exp[of e 1] has_exp[of e 2] has_exp[of e 3] has_exp[of e 4]
    has_exp[of e 13]
  by (simp_all add: EPOLLIN_def EPOLLPRI_def EPOLLOUT_def EPOLLERR_def EPOLLHUP_def EPOLLRDHUP_def)

lemma has_or: "has e (m OR n) \<longleftrightarrow> has e m \<or> has e n"
  by (simp add: has_def bit.conj_disj_distrib or_eq_0_iff)

lemma bit_masks:
  "bit EPOLLIN n \<longleftrightarrow> n = 0" "bit EPOLLPRI n \<longleftrightarrow> n = 1" "bit EPOLLOUT n \<longleftrightarrow> n = 2"
proof -
  have e: "EPOLLIN = 2 ^ 0" "EPOLLPRI = 2 ^ 1" "EPOLLOUT = 2 ^ 2"
    by (simp_all add: EPOLLIN_def EPOLLPRI_def EPOLLOUT_def)
  show "bit EPOLLIN n \<longleftrightarrow> n = 0" unfolding e bit_exp_iff by auto
  show "bit EPOLLPRI n \<longleftrightarrow> n = 1" unfolding e bit_exp_iff by auto
  show "bit EPOLLOUT n \<longleftrightarrow> n = 2" unfolding e bit_exp_iff by auto
qed

lemmas event_bits = has_bits has_or bit_masks bit_or_iff bit_and_iff bit_not_iff

lemma mask_simps [simp]:
  "has (e OR EPOLLOUT) EPOLLOUT" "has (e OR EPOLLOUT) EPOLLPRI = has e EPOLLPRI"
  "has (e OR EPOLLOUT) EPOLLIN = has e EPOLLIN"
  "has (e OR (EPOLLIN OR EPOLLPRI)) EPOLLPRI" "has (e OR (EPOLLIN OR EPOLLPRI)) EPOLLIN"
  "has (e OR (EPOLLIN OR EPOLLPRI)) EPOLLOUT = has e EPOLLOUT"
  "has (e AND NOT EPOLLIN) EPOLLIN = False" "has (e AND NOT EPOLLIN) EPOLLPRI = has e EPOLLPRI"
  "has (e AND NOT EPOLLIN) EPOLLOUT = has e EPOLLOUT"
  "has (e AND NOT EPOLLOUT) EPOLLOUT = False" "has (e AND NOT EPOLLOUT) EPOLLPRI = has e EPOLLPRI"
  "has (e AND NOT EPOLLOUT) EPOLLIN = has e EPOLLIN" "has 0 m = False"
  by (simp_all add: event_bits) (simp add: has_def)

lemma has_nonzero: "has e m \<Longrightarrow> e \<noteq> 0"
  by (auto simp: has_def)

lemma bit_nonzero: "bit (e::evmask) n \<Longrightarrow> e \<noteq> 0"
  by auto

section \<open>Updates\<close>

text \<open>
  What every change of the wanted events does, in one rule: with the loop's thread and either a
  registered channel or a non-empty wish it succeeds, and exactly the given events are wanted.
\<close>

definition with_events :: "evmask \<Rightarrow> channel \<Rightarrow> channel" where
  "with_events e ch = ch\<lparr>events := e, polling := (e \<noteq> 0)\<rparr>"

lemma loop_update_ok:
  assumes "polling ch \<or> e \<noteq> 0"
  shows "\<exists>c. loop_updateChannel True (ch\<lparr>events := e\<rparr>) = Inr (with_events e ch, c) \<and>
    ctl_apply c (wanted ch) = Inr (wanted (with_events e ch))"
  using assms
  by (cases "polling ch"; cases "e = 0")
     (auto simp: loop_updateChannel_def poller_updateChannel_def isNoneEvents_def with_events_def
        wanted_def)

lemma loop_update_fail:
  "\<not> polling ch \<Longrightarrow> loop_updateChannel True (ch\<lparr>events := 0\<rparr>) = Inl Assert_Failed"
  by (simp add: loop_updateChannel_def poller_updateChannel_def isNoneEvents_def)

lemma loop_update_thread: "loop_updateChannel False ch = Inl Assert_Failed"
  by (simp add: loop_updateChannel_def)

lemma with_events_sel [simp]:
  "events (with_events e ch) = e" "polling (with_events e ch) = (e \<noteq> 0)"
  "fd (with_events e ch) = fd ch" "tied (with_events e ch) = tied ch"
  "revents (with_events e ch) = revents ch" "handlingEvents (with_events e ch) = handlingEvents ch"
  "hasRead (with_events e ch) = hasRead ch" "hasWrite (with_events e ch) = hasWrite ch"
  "hasClose (with_events e ch) = hasClose ch" "hasError (with_events e ch) = hasError ch"
  by (simp_all add: with_events_def)

lemma interest_after_snoc:
  "interest_after cs = Inr w \<Longrightarrow> ctl_apply c w = r \<Longrightarrow> interest_after (cs @ [c]) = r"
  by (cases r) (simp_all add: interest_after_def foldE_append)

text \<open>A channel and the kernel agree: the replayed record is what the channel wants.\<close>

definition registered :: "ctl list \<Rightarrow> channel \<Rightarrow> bool" where
  "registered cs ch \<longleftrightarrow> interest_after cs = Inr (wanted ch)"

lemma registered_new: "registered [] (channel_new f)"
  by (simp add: registered_def interest_after_def wanted_def channel_new_def)

lemma registered_update:
  assumes "registered cs ch" and "polling ch \<or> e \<noteq> 0"
  shows "\<exists>c. loop_updateChannel True (ch\<lparr>events := e\<rparr>) = Inr (with_events e ch, c) \<and>
    registered (cs @ [c]) (with_events e ch)"
proof -
  from loop_update_ok[OF assms(2)] obtain c where
    c: "loop_updateChannel True (ch\<lparr>events := e\<rparr>) = Inr (with_events e ch, c)"
      "ctl_apply c (wanted ch) = Inr (wanted (with_events e ch))" by blast
  moreover from assms(1) c(2) have "registered (cs @ [c]) (with_events e ch)"
    unfolding registered_def by (rule interest_after_snoc)
  ultimately show ?thesis by blast
qed

text \<open>The operations of the class as instances of that rule.\<close>

lemma enable_nonzero: "events ch OR (EPOLLIN OR EPOLLPRI) \<noteq> 0" "events ch OR EPOLLOUT \<noteq> 0"
  by (rule bit_nonzero[of _ 0], simp add: event_bits)
     (rule bit_nonzero[of _ 2], simp add: event_bits)

datatype chan_op = EnableRead | EnableWrite | DisableRead | DisableWrite | DisableAll

fun op_events :: "chan_op \<Rightarrow> evmask \<Rightarrow> evmask" where
  "op_events EnableRead e = e OR (EPOLLIN OR EPOLLPRI)"
| "op_events EnableWrite e = e OR EPOLLOUT"
| "op_events DisableRead e = e AND NOT EPOLLIN"
| "op_events DisableWrite e = e AND NOT EPOLLOUT"
| "op_events DisableAll e = 0"

fun run_op :: "chan_op \<Rightarrow> bool \<Rightarrow> channel \<Rightarrow> error + (channel \<times> ctl)" where
  "run_op EnableRead = enableRead"
| "run_op EnableWrite = enableWrite"
| "run_op DisableRead = disableRead"
| "run_op DisableWrite = disableWrite"
| "run_op DisableAll = disableAll"

lemma run_op_update:
  "run_op x inL ch = loop_updateChannel inL (ch\<lparr>events := op_events x (events ch)\<rparr>)"
  by (cases x) (simp_all add: enableRead_def enableWrite_def disableRead_def disableWrite_def
      disableAll_def)

lemma channel_ops:
  assumes "registered cs ch"
  shows enableRead_ok: "\<exists>c. enableRead True ch = Inr (with_events (op_events EnableRead (events ch)) ch, c) \<and>
      registered (cs @ [c]) (with_events (op_events EnableRead (events ch)) ch)"
    and enableWrite_ok: "\<exists>c. enableWrite True ch = Inr (with_events (op_events EnableWrite (events ch)) ch, c) \<and>
      registered (cs @ [c]) (with_events (op_events EnableWrite (events ch)) ch)"
    and disableRead_ok: "polling ch \<Longrightarrow> \<exists>c. disableRead True ch =
      Inr (with_events (op_events DisableRead (events ch)) ch, c) \<and>
      registered (cs @ [c]) (with_events (op_events DisableRead (events ch)) ch)"
    and disableWrite_ok: "polling ch \<Longrightarrow> \<exists>c. disableWrite True ch =
      Inr (with_events (op_events DisableWrite (events ch)) ch, c) \<and>
      registered (cs @ [c]) (with_events (op_events DisableWrite (events ch)) ch)"
    and removeChannel_ok: "polling ch \<Longrightarrow> \<exists>c. loop_removeChannel True ch = Inr (with_events 0 ch, c) \<and>
      registered (cs @ [c]) (with_events 0 ch)"
  using registered_update[OF assms] enable_nonzero[of ch]
  by (simp_all add: enableRead_def enableWrite_def disableRead_def disableWrite_def
      loop_removeChannel_def disableAll_def)

lemma removeChannel_unpolled: "\<not> polling ch \<Longrightarrow> loop_removeChannel True ch = Inl Assert_Failed"
  by (simp add: loop_removeChannel_def disableAll_def loop_update_fail)

section \<open>The owner's contract\<close>

definition dispatch :: "channel \<Rightarrow> chan_cb list" where
  "dispatch ch = (if wantsClose ch then [CloseCb] else []) @
     (if wantsError ch then [ErrorCb] else []) @
     (if wantsRead ch then [ReadCb] else []) @ (if wantsWrite ch then [WriteCb] else [])"

text \<open>The part of a channel that \<open>handleEventsWithGuard\<close> tests.\<close>

definition dispatch_part :: "channel \<Rightarrow> evmask \<times> bool \<times> bool \<times> bool \<times> bool" where
  "dispatch_part ch = (revents ch, hasRead ch, hasWrite ch, hasClose ch, hasError ch)"

lemma dispatch_part_eq:
  "dispatch_part a = dispatch_part b \<Longrightarrow>
   wantsClose a = wantsClose b \<and> wantsError a = wantsError b \<and> wantsRead a = wantsRead b \<and>
   wantsWrite a = wantsWrite b \<and> dispatch a = dispatch b"
  by (auto simp: dispatch_part_def wantsClose_def wantsError_def wantsRead_def wantsWrite_def
      dispatch_def)

text \<open>
  An owner: an object that holds a channel, whose callbacks leave the reported events alone. For
  such an owner the dispatch is the list of wanted callbacks, run in the order close, error, read,
  write, between raising and lowering \<open>handlingEvents_\<close>.
\<close>

locale channel_owner =
  fixes get :: "'s \<Rightarrow> channel" and upd :: "(channel \<Rightarrow> channel) \<Rightarrow> 's \<Rightarrow> 's"
    and run :: "chan_cb \<Rightarrow> 's \<Rightarrow> error + 's"
  assumes get_upd: "get (upd f s) = f (get s)"
    and run_frame: "run k s = Inr s' \<Longrightarrow> dispatch_part (get s') = dispatch_part (get s)"
begin

lemma whenE_frame:
  "whenE c (run k) s = Inr s' \<Longrightarrow> dispatch_part (get s') = dispatch_part (get s)"
  by (auto simp: whenE_def dest: run_frame split: if_splits)

lemma whenE_step:
  assumes "dispatch_part (get t) = dispatch_part (get s)"
    and "\<And>t'. dispatch_part (get t') = dispatch_part (get s) \<Longrightarrow> f t' = g t'"
  shows "bindE (whenE c (run k) t) f = bindE (whenE c (run k) t) g"
  using assms whenE_frame[of c k t] by (cases "whenE c (run k) t") auto

lemma guard_eq_dispatch:
  "handleEventsWithGuard get upd run s =
   bindE (foldE run (dispatch (get s)) (upd (\<lambda>c. c\<lparr>handlingEvents := True\<rparr>) s))
     (\<lambda>s'. Inr (upd (\<lambda>c. c\<lparr>handlingEvents := False\<rparr>) s'))"
proof -
  let ?s0 = "upd (\<lambda>c. c\<lparr>handlingEvents := True\<rparr>) s"
  let ?off = "\<lambda>s'. Inr (upd (\<lambda>c. c\<lparr>handlingEvents := False\<rparr>) s')"
  let ?G4 = "\<lambda>t. bindE (whenE (wantsWrite (get s)) (run WriteCb) t) ?off"
  let ?G3 = "\<lambda>t. bindE (whenE (wantsRead (get s)) (run ReadCb) t) ?G4"
  let ?G2 = "\<lambda>t. bindE (whenE (wantsError (get s)) (run ErrorCb) t) ?G3"
  let ?F4 = "\<lambda>t. bindE (whenE (wantsWrite (get t)) (run WriteCb) t) ?off"
  let ?F3 = "\<lambda>t. bindE (whenE (wantsRead (get t)) (run ReadCb) t) ?F4"
  let ?F2 = "\<lambda>t. bindE (whenE (wantsError (get t)) (run ErrorCb) t) ?F3"
  have F4: "?F4 t = ?G4 t" if "dispatch_part (get t) = dispatch_part (get s)" for t
    using dispatch_part_eq[OF that] by simp
  have F3: "?F3 t = ?G3 t" if "dispatch_part (get t) = dispatch_part (get s)" for t
    using dispatch_part_eq[OF that] whenE_step[OF that F4] by simp
  have F2: "?F2 t = ?G2 t" if "dispatch_part (get t) = dispatch_part (get s)" for t
    using dispatch_part_eq[OF that] whenE_step[OF that F3] by simp
  have d0: "dispatch_part (get ?s0) = dispatch_part (get s)"
    by (simp add: get_upd dispatch_part_def)
  have "handleEventsWithGuard get upd run s
      = bindE (whenE (wantsClose (get s)) (run CloseCb) ?s0) ?G2"
    unfolding handleEventsWithGuard_def Let_def
    using dispatch_part_eq[OF d0] whenE_step[OF d0 F2] by simp
  also have "\<dots> = bindE (foldE run (dispatch (get s)) ?s0) ?off"
    by (cases "wantsClose (get s)"; cases "wantsError (get s)"; cases "wantsRead (get s)";
        cases "wantsWrite (get s)")
       (simp_all add: dispatch_def whenE_def bindE_assoc)
  finally show ?thesis .
qed

end

section \<open>Properties\<close>

definition chan_step :: "chan_op \<Rightarrow> channel \<times> ctl list \<Rightarrow> error + (channel \<times> ctl list)" where
  "chan_step x st = bindE (run_op x True (fst st)) (\<lambda>(ch, k). Inr (ch, snd st @ [k]))"

text \<open>The invariant of a channel that is only changed through its operations.\<close>

definition chan_inv :: "channel \<times> ctl list \<Rightarrow> bool" where
  "chan_inv st \<longleftrightarrow> registered (snd st) (fst st) \<and> (polling (fst st) \<longleftrightarrow> events (fst st) \<noteq> 0)"

lemma chan_step_cases:
  assumes "chan_inv st"
  shows "if events (fst st) = 0 \<and> op_events x 0 = 0 then chan_step x st = Inl Assert_Failed
    else \<exists>st'. chan_step x st = Inr st' \<and> chan_inv st' \<and>
      fst st' = with_events (op_events x (events (fst st))) (fst st)"
proof (cases "events (fst st) = 0 \<and> op_events x 0 = 0")
  case True
  with assms show ?thesis
    by (auto simp: chan_step_def run_op_update chan_inv_def loop_update_fail)
next
  case False
  have "polling (fst st) \<or> op_events x (events (fst st)) \<noteq> 0"
    using False assms by (auto simp: chan_inv_def)
  with registered_update assms obtain c where
    "run_op x True (fst st) = Inr (with_events (op_events x (events (fst st))) (fst st), c)"
    "registered (snd st @ [c]) (with_events (op_events x (events (fst st))) (fst st))"
    unfolding run_op_update chan_inv_def by blast
  with False show ?thesis by (auto simp: chan_step_def chan_inv_def)
qed

lemma chan_run_inv: "chan_inv st \<Longrightarrow> foldE chan_step xs st = Inr st' \<Longrightarrow> chan_inv st'"
proof (erule (1) foldE_inv[where I = chan_inv, rotated])
  fix x s s'
  assume "chan_inv s" and "chan_step x s = Inr s'"
  then show "chan_inv s'" using chan_step_cases[of s x] by (auto split: if_splits)
qed

lemma chan_inv_new: "chan_inv (channel_new f, [])"
  by (simp add: chan_inv_def registered_new) (simp add: channel_new_def)

text \<open>
  C12: The channel and epoll never disagree. After any run of enable and disable calls on a fresh
  channel, replaying the \<open>epoll_ctl\<close> calls that were issued never hits one the kernel refuses and
  ends with exactly the events the channel wants, registered if and only if there are any; and the
  next call fails its assert precisely when it is a disable on a channel that wants nothing,
  otherwise it succeeds.
\<close>

theorem channel_matches_epoll:
  assumes run: "foldE chan_step xs (channel_new f, []) = Inr (ch, cs)"
  shows "interest_after cs = Inr (if events ch = 0 then None else Some (events ch)) \<and>
    (polling ch \<longleftrightarrow> events ch \<noteq> 0) \<and>
    (chan_step x (ch, cs) = Inl Assert_Failed \<longleftrightarrow>
       isNoneEvents ch \<and> x \<in> {DisableRead, DisableWrite, DisableAll}) \<and>
    (isNoneEvents ch \<and> x \<in> {DisableRead, DisableWrite, DisableAll} \<or>
       (\<exists>ch' cs'. chan_step x (ch, cs) = Inr (ch', cs') \<and> events ch' = op_events x (events ch)))"
proof -
  have inv: "chan_inv (ch, cs)" using chan_run_inv[OF chan_inv_new run] .
  have "op_events x 0 = 0 \<longleftrightarrow> x \<in> {DisableRead, DisableWrite, DisableAll}"
    by (cases x) (auto simp: EPOLLIN_def EPOLLPRI_def EPOLLOUT_def)
  then show ?thesis
    using chan_step_cases[OF inv, of x] inv
    by (auto simp: chan_inv_def registered_def wanted_def isNoneEvents_def split: if_splits)
qed

lemma channel_matches_epoll_witness:
  "\<exists>ch cs. foldE chan_step [EnableRead, EnableWrite, DisableWrite, DisableAll, EnableWrite]
      (channel_new 5, []) = Inr (ch, cs) \<and>
    interest_after cs = Inr (Some EPOLLOUT) \<and> chan_step DisableRead (ch, cs) \<noteq> Inl Assert_Failed"
proof -
  let ?xs = "[EnableRead, EnableWrite, DisableWrite, DisableAll, EnableWrite]"
  obtain ch cs where r: "foldE chan_step ?xs (channel_new 5, []) = Inr (ch, cs)"
    and e: "events ch = EPOLLOUT"
    by (simp add: chan_step_def enableRead_def enableWrite_def disableWrite_def disableAll_def
        loop_updateChannel_def poller_updateChannel_def channel_new_def isNoneEvents_def
        EPOLLIN_def EPOLLPRI_def EPOLLOUT_def)
  have "EPOLLOUT \<noteq> 0" by (simp add: EPOLLOUT_def)
  then show ?thesis using channel_matches_epoll[OF r, of DisableRead] r e
    by (auto simp: isNoneEvents_def)
qed

end
