(* ===== verification/Ev_TcpConnection.thy ===== *)
theory Ev_TcpConnection
  imports Ev_Buffer Ev_Channel
begin

text \<open>
  \<^verbatim>\<open>tinyev/TcpConnection.h\<close> and \<^verbatim>\<open>tinyev/TcpConnection.cc\<close>: one TCP connection, driven by the
  events of its channel, the tasks it queued in its loop, and the calls of user code. A system
  call's outcome is an argument of the operation that makes the call; the closures handed to
  \<open>queueInLoop\<close> are values of \<open>ctask\<close>; what user callbacks do to the connection is a list of calls
  of the public interface. \<open>wire\<close> is what the kernel has taken with \<open>write\<close>, and \<open>taken\<close> is a
  history variable: the bytes of every \<open>sendInLoop\<close> that neither gave up nor met a fatal error.
\<close>

section \<open>State\<close>

datatype cstate = kConnecting | kConnected | kDisconnecting | kDisconnected

text \<open>The enumerators are compared with \<open><=\<close>, in the order they are declared.\<close>

fun rank :: "cstate \<Rightarrow> nat" where
  "rank kConnecting = 0"
| "rank kConnected = 1"
| "rank kDisconnecting = 2"
| "rank kDisconnected = 3"

instantiation cstate :: linorder
begin

definition less_eq_cstate :: "cstate \<Rightarrow> cstate \<Rightarrow> bool" where
  "less_eq_cstate a b \<longleftrightarrow> rank a \<le> rank b"

definition less_cstate :: "cstate \<Rightarrow> cstate \<Rightarrow> bool" where
  "less_cstate a b \<longleftrightarrow> rank a < rank b"

lemma rank_inject: "rank a = rank b \<Longrightarrow> a = b"
  by (cases a; cases b) simp_all

instance
  by standard (auto simp: less_eq_cstate_def less_cstate_def intro: rank_inject)

end

lemma cstate_le [simp]:
  "s \<le> kDisconnecting \<longleftrightarrow> s \<noteq> kDisconnected" "s \<le> kDisconnected" "kConnecting \<le> s"
  "kDisconnected \<le> s \<longleftrightarrow> s = kDisconnected"
  "kDisconnecting \<le> s \<longleftrightarrow> s = kDisconnecting \<or> s = kDisconnected" "kConnected \<le> s \<longleftrightarrow> s \<noteq> kConnecting"
  by (cases s; simp add: less_eq_cstate_def)+

datatype errno = EAGAIN | EPIPE | ECONNRESET | EOTHER nat

datatype write_result = Wrote nat | Write_Err errno

datatype ctask =
    Task_WriteComplete
  | Task_HighWater nat
  | Task_Send string
  | Task_Shutdown
  | Task_ForceClose
  | Task_StopRead
  | Task_StartRead

record conn =
  chan :: channel
  state :: cstate
  inputBuffer :: buffer
  outputBuffer :: buffer
  highWaterMark :: nat
  hasMessageCb :: bool
  hasWriteCompleteCb :: bool
  hasHighWaterCb :: bool
  hasCloseCb :: bool
  pendingTasks :: "ctask list"
  ctls :: "ctl list"
  wire :: string
  wrShut :: bool
  closedCalls :: nat
  taken :: string

definition conn_new :: "int \<Rightarrow> error + conn" where
  "conn_new sockfd =
     bindE (buffer_new kInitialSize) (\<lambda>ib. bindE (buffer_new kInitialSize) (\<lambda>ob.
     Inr \<lparr>chan = (channel_new sockfd)\<lparr>hasRead := True, hasWrite := True, hasClose := True,
                    hasError := True\<rparr>,
          state = kConnecting, inputBuffer = ib, outputBuffer = ob, highWaterMark = 0,
          hasMessageCb = False, hasWriteCompleteCb = False, hasHighWaterCb = False,
          hasCloseCb = False, pendingTasks = [], ctls = [], wire = [], wrShut = False,
          closedCalls = 0, taken = []\<rparr>))"

definition conn_destroy :: "conn \<Rightarrow> error + unit" where
  "conn_destroy c = bindE (assertE (state c = kDisconnected)) (\<lambda>_. channel_destroy (chan c))"

definition connected :: "conn \<Rightarrow> bool" where
  "connected c \<longleftrightarrow> state c = kConnected"

definition disconnected :: "conn \<Rightarrow> bool" where
  "disconnected c \<longleftrightarrow> state c = kDisconnected"

definition setMessageCallback :: "conn \<Rightarrow> conn" where
  "setMessageCallback c = c\<lparr>hasMessageCb := True\<rparr>"

definition setWriteCompleteCallback :: "bool \<Rightarrow> conn \<Rightarrow> conn" where
  "setWriteCompleteCallback present c = c\<lparr>hasWriteCompleteCb := present\<rparr>"

definition setCloseCallBack :: "conn \<Rightarrow> conn" where
  "setCloseCallBack c = c\<lparr>hasCloseCb := True\<rparr>"

definition setHighWaterMarkCallback :: "nat \<Rightarrow> conn \<Rightarrow> conn" where
  "setHighWaterMarkCallback mark c = c\<lparr>hasHighWaterCb := True, highWaterMark := mark\<rparr>"

definition queue_task :: "ctask \<Rightarrow> conn \<Rightarrow> conn" where
  "queue_task t c = c\<lparr>pendingTasks := pendingTasks c @ [t]\<rparr>"

lemma queue_task_sel [simp]:
  "chan (queue_task t c) = chan c" "state (queue_task t c) = state c"
  "inputBuffer (queue_task t c) = inputBuffer c" "outputBuffer (queue_task t c) = outputBuffer c"
  "taken (queue_task t c) = taken c" "wire (queue_task t c) = wire c"
  "wrShut (queue_task t c) = wrShut c" "closedCalls (queue_task t c) = closedCalls c"
  "hasMessageCb (queue_task t c) = hasMessageCb c" "hasCloseCb (queue_task t c) = hasCloseCb c"
  "pendingTasks (queue_task t c) = pendingTasks c @ [t]"
  by (simp_all add: queue_task_def)

text \<open>Applying a channel operation to the connection's channel.\<close>

definition on_chan :: "(channel \<Rightarrow> error + (channel \<times> ctl)) \<Rightarrow> conn \<Rightarrow> error + conn" where
  "on_chan f c = bindE (f (chan c)) (\<lambda>(ch, k). Inr (c\<lparr>chan := ch, ctls := ctls c @ [k]\<rparr>))"

definition connectEstablished :: "bool \<Rightarrow> conn \<Rightarrow> error + conn" where
  "connectEstablished inL c =
     bindE (assertE (state c = kConnecting)) (\<lambda>_.
     on_chan (enableRead inL) (c\<lparr>state := kConnected, chan := tie (chan c)\<rparr>))"

section \<open>Sending\<close>

definition sendInLoop :: "bool \<Rightarrow> write_result \<Rightarrow> string \<Rightarrow> conn \<Rightarrow> error + conn" where
  "sendInLoop inL wr data c =
     bindE (assertE inL) (\<lambda>_.
     if state c = kDisconnected then Inr c
     else
       bindE
         (if \<not> isWriting (chan c) then
            bindE (assertE (readableBytes (outputBuffer c) = 0)) (\<lambda>_.
            case wr of
              Write_Err e \<Rightarrow> Inr (0, length data, e = EPIPE \<or> e = ECONNRESET, c)
            | Wrote n \<Rightarrow>
                let remain = sz_sub (length data) n;
                    c1 = c\<lparr>wire := wire c @ take n data\<rparr>
                in Inr (n, remain, False,
                     if remain = 0 \<and> hasWriteCompleteCb c1 then queue_task Task_WriteComplete c1
                     else c1))
          else Inr (0, length data, False, c))
         (\<lambda>(n, remain, faultError, c1).
          let c2 = (if faultError then c1 else c1\<lparr>taken := taken c1 @ data\<rparr>) in
          if \<not> faultError \<and> 0 < remain then
            let oldLen = readableBytes (outputBuffer c2);
                newLen = sz_add oldLen remain;
                c3 = (if hasHighWaterCb c2 \<and> oldLen < highWaterMark c2 \<and> highWaterMark c2 \<le> newLen
                      then queue_task (Task_HighWater newLen) c2 else c2)
            in bindE (append_buf (take remain (drop n data)) (outputBuffer c3)) (\<lambda>ob.
               on_chan (enableWrite inL) (c3\<lparr>outputBuffer := ob\<rparr>))
          else Inr c2))"

definition send :: "bool \<Rightarrow> write_result \<Rightarrow> string \<Rightarrow> conn \<Rightarrow> error + conn" where
  "send inL wr data c =
     (if state c \<noteq> kConnected then Inr c
      else if inL then sendInLoop inL wr data c
      else Inr (queue_task (Task_Send data) c))"

text \<open>
  \<open>send(Buffer&)\<close>; the argument is the connection's own input buffer, which the message callback
  receives. It is cleared only when the send is not given up.
\<close>

definition sendInput :: "bool \<Rightarrow> write_result \<Rightarrow> conn \<Rightarrow> error + conn" where
  "sendInput inL wr c =
     (if state c \<noteq> kConnected then Inr c
      else if inL then
        let b = inputBuffer c in
        bindE (sendInLoop inL wr (subrange (peek b) (peek b + readableBytes b) (bytes b)) c) (\<lambda>c1.
        Inr (c1\<lparr>inputBuffer := retrieveAll (inputBuffer c1)\<rparr>))
      else
        bindE (retrieveAllAsString (inputBuffer c)) (\<lambda>(str, b).
        Inr (queue_task (Task_Send str) (c\<lparr>inputBuffer := b\<rparr>))))"

section \<open>Closing\<close>

definition stateAtomicGetAndSet :: "cstate \<Rightarrow> conn \<Rightarrow> cstate \<times> conn" where
  "stateAtomicGetAndSet s c = (state c, c\<lparr>state := s\<rparr>)"

definition shutdownInLoop :: "bool \<Rightarrow> conn \<Rightarrow> error + conn" where
  "shutdownInLoop inL c =
     bindE (assertE inL) (\<lambda>_.
     if state c \<noteq> kDisconnected \<and> \<not> isWriting (chan c) then Inr (c\<lparr>wrShut := True\<rparr>) else Inr c)"

definition shutdown :: "bool \<Rightarrow> conn \<Rightarrow> error + conn" where
  "shutdown inL c =
     bindE (assertE (state c \<le> kDisconnecting)) (\<lambda>_.
     let (old, c1) = stateAtomicGetAndSet kDisconnecting c in
     if old = kConnected
     then (if inL then shutdownInLoop inL c1 else Inr (queue_task Task_Shutdown c1))
     else Inr c1)"

definition forceClose :: "conn \<Rightarrow> error + conn" where
  "forceClose c =
     (if state c \<noteq> kDisconnected then
        let (old, c1) = stateAtomicGetAndSet kDisconnecting c in
        if old \<noteq> kDisconnected then Inr (queue_task Task_ForceClose c1) else Inr c1
      else Inr c)"

definition stopReadInLoop :: "conn \<Rightarrow> error + conn" where
  "stopReadInLoop c = (if isReading (chan c) then on_chan (disableRead True) c else Inr c)"

definition startReadInLoop :: "conn \<Rightarrow> error + conn" where
  "startReadInLoop c = (if \<not> isReading (chan c) then on_chan (enableRead True) c else Inr c)"

definition stopRead :: "bool \<Rightarrow> conn \<Rightarrow> error + conn" where
  "stopRead inL c = (if inL then stopReadInLoop c else Inr (queue_task Task_StopRead c))"

definition startRead :: "bool \<Rightarrow> conn \<Rightarrow> error + conn" where
  "startRead inL c = (if inL then startReadInLoop c else Inr (queue_task Task_StartRead c))"

section \<open>User code\<close>

text \<open>
  The calls user code makes on the connection while it runs in the loop's thread. A send carries
  the outcome of the \<open>write\<close> it may lead to. \<open>Api_Retrieve n\<close> is the user taking \<open>n\<close> bytes out of
  the input buffer.
\<close>

datatype api =
    Api_Send write_result string
  | Api_SendInput write_result
  | Api_Retrieve nat
  | Api_RetrieveAll
  | Api_Shutdown
  | Api_ForceClose
  | Api_StopRead
  | Api_StartRead
  | Api_SetHighWater nat

fun run_api :: "api \<Rightarrow> conn \<Rightarrow> error + conn" where
  "run_api (Api_Send wr data) c = send True wr data c"
| "run_api (Api_SendInput wr) c = sendInput True wr c"
| "run_api (Api_Retrieve n) c =
     bindE (retrieve n (inputBuffer c)) (\<lambda>b. Inr (c\<lparr>inputBuffer := b\<rparr>))"
| "run_api Api_RetrieveAll c = Inr (c\<lparr>inputBuffer := retrieveAll (inputBuffer c)\<rparr>)"
| "run_api Api_Shutdown c = shutdown True c"
| "run_api Api_ForceClose c = forceClose c"
| "run_api Api_StopRead c = stopRead True c"
| "run_api Api_StartRead c = startRead True c"
| "run_api (Api_SetHighWater mark) c = Inr (setHighWaterMarkCallback mark c)"

text \<open>A stored \<open>std::function\<close>: calling an empty one throws.\<close>

definition user_cb :: "bool \<Rightarrow> api list \<Rightarrow> conn \<Rightarrow> error + conn" where
  "user_cb present calls c =
     (if present then foldE run_api calls c else Inl Bad_Function_Call)"

definition defaultMessageCallback :: "api list" where
  "defaultMessageCallback = [Api_RetrieveAll]"

section \<open>Event handlers\<close>

text \<open>What the environment contributes to one dispatch: the outcomes of \<open>readv\<close> and of
  \<open>handleWrite\<close>'s \<open>write\<close>, and the calls of the message and of the close callback.\<close>

record io =
  rd :: read_result
  wres :: write_result
  msgCalls :: "api list"
  closeCalls :: "api list"

definition handleClose :: "bool \<Rightarrow> api list \<Rightarrow> conn \<Rightarrow> error + conn" where
  "handleClose inL calls c =
     bindE (assertE inL) (\<lambda>_.
     bindE (assertE (state c = kConnected \<or> state c = kDisconnecting)) (\<lambda>_.
     bindE (on_chan (loop_removeChannel inL) (c\<lparr>state := kDisconnected\<rparr>)) (\<lambda>c1.
     user_cb (hasCloseCb c1) calls (c1\<lparr>closedCalls := Suc (closedCalls c1)\<rparr>))))"

definition handleError :: "conn \<Rightarrow> error + conn" where
  "handleError c = Inr c"

definition handleRead :: "bool \<Rightarrow> io \<Rightarrow> conn \<Rightarrow> error + conn" where
  "handleRead inL i c =
     bindE (assertE inL) (\<lambda>_.
     bindE (assertE (state c \<noteq> kDisconnected)) (\<lambda>_.
     bindE (readFd (rd i) (inputBuffer c)) (\<lambda>(n, savedErrno, b).
     let c1 = c\<lparr>inputBuffer := b\<rparr> in
     if n = -1 then handleError c1
     else if n = 0 then handleClose inL (closeCalls i) c1
     else user_cb (hasMessageCb c1) (msgCalls i) c1)))"

definition handleWrite :: "write_result \<Rightarrow> conn \<Rightarrow> error + conn" where
  "handleWrite wr c =
     (if state c = kDisconnected then Inr c
      else
        bindE (assertE (0 < readableBytes (outputBuffer c))) (\<lambda>_.
        bindE (assertE (isWriting (chan c))) (\<lambda>_.
        case wr of
          Write_Err e \<Rightarrow> Inr c
        | Wrote n \<Rightarrow>
            bindE (retrieve n (outputBuffer c)) (\<lambda>ob.
            let b = outputBuffer c;
                c1 = c\<lparr>wire := wire c @ take n (subrange (peek b) (peek b + readableBytes b) (bytes b)),
                       outputBuffer := ob\<rparr> in
            if readableBytes ob = 0 then
              bindE (on_chan (disableWrite True) c1) (\<lambda>c2.
              bindE (if state c2 = kDisconnecting then shutdownInLoop True c2 else Inr c2) (\<lambda>c3.
              Inr (if hasWriteCompleteCb c3 then queue_task Task_WriteComplete c3 else c3)))
            else Inr c1))))"

fun conn_cb :: "io \<Rightarrow> chan_cb \<Rightarrow> conn \<Rightarrow> error + conn" where
  "conn_cb i CloseCb c = handleClose True (closeCalls i) c"
| "conn_cb i ErrorCb c = handleError c"
| "conn_cb i ReadCb c = handleRead True i c"
| "conn_cb i WriteCb c = handleWrite (wres i) c"

definition upd_chan :: "(channel \<Rightarrow> channel) \<Rightarrow> conn \<Rightarrow> conn" where
  "upd_chan f c = c\<lparr>chan := f (chan c)\<rparr>"

definition conn_handleEvents :: "io \<Rightarrow> evmask \<Rightarrow> conn \<Rightarrow> error + conn" where
  "conn_handleEvents i revs c =
     handleEvents chan upd_chan (conn_cb i) True True (upd_chan (setRevents revs) c)"

section \<open>Queued tasks\<close>

definition forceCloseInLoop :: "bool \<Rightarrow> api list \<Rightarrow> conn \<Rightarrow> error + conn" where
  "forceCloseInLoop inL calls c =
     bindE (assertE inL) (\<lambda>_.
     if state c \<noteq> kDisconnected then handleClose inL calls c else Inr c)"

text \<open>
  Running one closure in the loop's thread; \<open>wr\<close> is the outcome of the \<open>write\<close> it may make and
  \<open>calls\<close> are the calls of the user callback it invokes, if any.
\<close>

fun run_task :: "write_result \<Rightarrow> api list \<Rightarrow> ctask \<Rightarrow> conn \<Rightarrow> error + conn" where
  "run_task wr calls Task_WriteComplete c = foldE run_api calls c"
| "run_task wr calls (Task_HighWater n) c = foldE run_api calls c"
| "run_task wr calls (Task_Send s) c = sendInLoop True wr s c"
| "run_task wr calls Task_Shutdown c = shutdownInLoop True c"
| "run_task wr calls Task_ForceClose c = forceCloseInLoop True calls c"
| "run_task wr calls Task_StopRead c = stopReadInLoop c"
| "run_task wr calls Task_StartRead c = startReadInLoop c"

section \<open>The invariant\<close>

definition live :: "conn \<Rightarrow> bool" where
  "live c \<longleftrightarrow> state c = kConnected \<or> state c = kDisconnecting"

text \<open>
  What holds between any two callbacks: both buffers are well formed, epoll and the channel agree,
  the bytes on the wire followed by the bytes still buffered are the bytes taken for sending, and
  the state decides what is registered. While the connection is live its channel is registered
  and at least EPOLLPRI stays wanted, which is why \<open>disableRead\<close> never unregisters it and the
  removal in \<open>handleClose\<close> finds it registered.
\<close>

definition conn_inv :: "conn \<Rightarrow> bool" where
  "conn_inv c \<longleftrightarrow>
     buffer_ok (inputBuffer c) \<and> buffer_ok (outputBuffer c) \<and>
     registered (ctls c) (chan c) \<and>
     hasRead (chan c) \<and> hasWrite (chan c) \<and> hasClose (chan c) \<and> hasError (chan c) \<and>
     hasMessageCb c \<and> hasCloseCb c \<and>
     wire c @ contents (outputBuffer c) = taken c \<and>
     (wrShut c \<longrightarrow> contents (outputBuffer c) = [] \<and> state c \<noteq> kConnected) \<and>
     closedCalls c = (if state c = kDisconnected then 1 else 0) \<and>
     (live c \<longrightarrow> polling (chan c) \<and> tied (chan c) \<and> has (events (chan c)) EPOLLPRI \<and>
        (isWriting (chan c) \<longleftrightarrow> contents (outputBuffer c) \<noteq> [])) \<and>
     (\<not> live c \<longrightarrow> \<not> polling (chan c) \<and> events (chan c) = 0) \<and>
     (state c = kConnecting \<longrightarrow> contents (outputBuffer c) = [] \<and> \<not> wrShut c) \<and>
     (Task_Shutdown \<in> set (pendingTasks c) \<longrightarrow> kDisconnecting \<le> state c)"

text \<open>The documented outcomes of \<open>write\<close>: at most the bytes offered, and EPIPE once the sending
  side has been shut down (the library ignores SIGPIPE).\<close>

definition wr_ok :: "conn \<Rightarrow> nat \<Rightarrow> write_result \<Rightarrow> bool" where
  "wr_ok c len wr =
     (case wr of Wrote n \<Rightarrow> n \<le> len \<and> \<not> wrShut c | Write_Err e \<Rightarrow> wrShut c \<longrightarrow> e = EPIPE)"

text \<open>What a send takes responsibility for.\<close>

definition accepted :: "write_result \<Rightarrow> string \<Rightarrow> conn \<Rightarrow> string" where
  "accepted wr data c =
     (if state c = kDisconnected then []
      else if \<not> isWriting (chan c) \<and> wr \<in> {Write_Err EPIPE, Write_Err ECONNRESET} then []
      else data)"

text \<open>What no operation on an established connection touches.\<close>

definition same_frame :: "conn \<Rightarrow> conn \<Rightarrow> bool" where
  "same_frame c c' \<longleftrightarrow> dispatch_part (chan c') = dispatch_part (chan c) \<and>
     handlingEvents (chan c') = handlingEvents (chan c) \<and> fd (chan c') = fd (chan c) \<and>
     hasMessageCb c' = hasMessageCb c \<and> hasCloseCb c' = hasCloseCb c"

text \<open>What a send leaves alone besides: it never stops writing and never unwrites.\<close>

definition kept :: "conn \<Rightarrow> conn \<Rightarrow> bool" where
  "kept c c' \<longleftrightarrow> state c' = state c \<and> inputBuffer c' = inputBuffer c \<and> wrShut c' = wrShut c \<and>
     same_frame c c' \<and> (isWriting (chan c) \<longrightarrow> isWriting (chan c')) \<and> prefix (wire c) (wire c')"

lemma same_frame_refl [simp]: "same_frame c c"
  by (simp add: same_frame_def)

lemma kept_refl [simp]: "kept c c"
  by (simp add: kept_def)

lemma kept_trans: "kept a b \<Longrightarrow> kept b c \<Longrightarrow> kept a c"
  by (auto simp: kept_def same_frame_def)

lemma kept_updates [simp]:
  "kept c (queue_task t c)" "kept c (c\<lparr>taken := x\<rparr>)" "kept c (c\<lparr>wire := wire c @ y\<rparr>)"
  "kept (c\<lparr>taken := x\<rparr>) c' = kept c c'"
  by (simp_all add: kept_def same_frame_def queue_task_def)

lemma same_frame_trans: "same_frame a b \<Longrightarrow> same_frame b c \<Longrightarrow> same_frame a c"
  by (simp add: same_frame_def)

lemma dispatch_part_with_events [simp]: "dispatch_part (with_events e ch) = dispatch_part ch"
  by (simp add: dispatch_part_def)

lemmas inv_defs = conn_inv_def live_def isWriting_def

lemma conn_invD:
  assumes "conn_inv c"
  shows "buffer_ok (inputBuffer c)" "buffer_ok (outputBuffer c)" "registered (ctls c) (chan c)"
    "wire c @ contents (outputBuffer c) = taken c" "hasMessageCb c" "hasCloseCb c"
    "live c \<Longrightarrow> polling (chan c)" "live c \<Longrightarrow> has (events (chan c)) EPOLLPRI"
    "live c \<Longrightarrow> isWriting (chan c) \<longleftrightarrow> contents (outputBuffer c) \<noteq> []"
    "wrShut c \<Longrightarrow> contents (outputBuffer c) = [] \<and> state c \<noteq> kConnected"
    "closedCalls c = (if state c = kDisconnected then 1 else 0)"
  using assms by (simp_all add: conn_inv_def)

lemma conn_inv_queue:
  "conn_inv c \<Longrightarrow> t \<noteq> Task_Shutdown \<or> kDisconnecting \<le> state c \<Longrightarrow> conn_inv (queue_task t c)"
  by (auto simp: inv_defs queue_task_def)

lemma conn_inv_input: "conn_inv c \<Longrightarrow> buffer_ok b \<Longrightarrow> conn_inv (c\<lparr>inputBuffer := b\<rparr>)"
  by (simp add: inv_defs)

section \<open>Sending keeps the stream\<close>

text \<open>The tail of \<open>sendInLoop\<close>: what could not be written is buffered and EPOLLOUT is wanted.\<close>

lemma buffer_rest:
  assumes inv: "buffer_ok (outputBuffer c)" "registered (ctls c) (chan c)"
    and len: "length d \<le> vec_max"
  shows "okE (\<lambda>c'. \<exists>ob k. c' = c\<lparr>outputBuffer := ob,
        chan := with_events (events (chan c) OR EPOLLOUT) (chan c), ctls := ctls c @ [k]\<rparr> \<and>
      buffer_ok ob \<and> contents ob = contents (outputBuffer c) @ d \<and>
      registered (ctls c @ [k]) (with_events (events (chan c) OR EPOLLOUT) (chan c)))
    (bindE (append_buf d (outputBuffer c)) (\<lambda>ob.
       on_chan (enableWrite True) (c\<lparr>outputBuffer := ob\<rparr>)))"
  using buffer_fifo.put_cases[OF inv(1) len]
proof
  assume "append_buf d (outputBuffer c) = Inl Length_Error"
  then show ?thesis by simp
next
  assume "\<exists>b'. append_buf d (outputBuffer c) = Inr b' \<and> buffer_ok b' \<and>
    contents b' = contents (outputBuffer c) @ d"
  then obtain ob where ob: "append_buf d (outputBuffer c) = Inr ob" "buffer_ok ob"
    "contents ob = contents (outputBuffer c) @ d" by blast
  obtain k where "enableWrite True (chan c) =
      Inr (with_events (events (chan c) OR EPOLLOUT) (chan c), k)"
    "registered (ctls c @ [k]) (with_events (events (chan c) OR EPOLLOUT) (chan c))"
    using enableWrite_ok[OF inv(2)] by auto
  note k = this
  have eq: "bindE (append_buf d (outputBuffer c)) (\<lambda>ob.
       on_chan (enableWrite True) (c\<lparr>outputBuffer := ob\<rparr>)) = Inr (c\<lparr>outputBuffer := ob,
        chan := with_events (events (chan c) OR EPOLLOUT) (chan c), ctls := ctls c @ [k]\<rparr>)"
    by (simp add: ob k on_chan_def)
  show ?thesis unfolding eq okE_simps using ob k by blast
qed

text \<open>
  The state in the middle of \<open>sendInLoop\<close>: \<open>rest\<close> is the part of the message that is counted as
  taken but neither written nor buffered yet.
\<close>

definition mid_inv :: "string \<Rightarrow> conn \<Rightarrow> bool" where
  "mid_inv rest c \<longleftrightarrow> live c \<and> (rest \<noteq> [] \<longrightarrow> \<not> wrShut c) \<and>
     taken c = wire c @ contents (outputBuffer c) @ rest \<and>
     conn_inv (c\<lparr>taken := wire c @ contents (outputBuffer c)\<rparr>)"

lemma mid_inv_rest:
  assumes mid: "mid_inv rest c" and ne: "rest \<noteq> []" and len: "length rest \<le> vec_max"
  shows "okE (\<lambda>c'. conn_inv c' \<and> taken c' = taken c \<and> kept c c')
    (bindE (append_buf rest (outputBuffer c)) (\<lambda>ob.
       on_chan (enableWrite True) (c\<lparr>outputBuffer := ob\<rparr>)))"
proof -
  have ok: "buffer_ok (outputBuffer c)" "registered (ctls c) (chan c)"
    using mid by (simp_all add: mid_inv_def conn_inv_def)
  have lv: "live c" "\<not> wrShut c" and c0: "conn_inv (c\<lparr>taken := wire c @ contents (outputBuffer c)\<rparr>)"
    and t: "taken c = wire c @ contents (outputBuffer c) @ rest"
    using mid ne by (simp_all add: mid_inv_def)
  have nz: "events (chan c) OR EPOLLOUT \<noteq> 0" by (rule enable_nonzero)
  show ?thesis
  proof (rule okE_weaken[OF buffer_rest[OF ok len]], elim exE conjE)
    fix c' ob k
    assume c': "c' = c\<lparr>outputBuffer := ob,
        chan := with_events (events (chan c) OR EPOLLOUT) (chan c), ctls := ctls c @ [k]\<rparr>"
      and ob: "buffer_ok ob" "contents ob = contents (outputBuffer c) @ rest"
      and reg: "registered (ctls c @ [k]) (with_events (events (chan c) OR EPOLLOUT) (chan c))"
    have "conn_inv c'"
      using c0 lv ne t nz ob reg unfolding c' conn_inv_def live_def isWriting_def by auto
    then show "conn_inv c' \<and> taken c' = taken c \<and> kept c c'"
      by (simp add: c' kept_def same_frame_def isWriting_def)
  qed
qed

text \<open>The part of \<open>sendInLoop\<close> after the write attempt, named to state what it does.\<close>

definition send_rest :: "string \<Rightarrow> nat \<times> nat \<times> bool \<times> conn \<Rightarrow> error + conn" where
  "send_rest data = (\<lambda>(n, remain, faultError, c1).
     let c2 = (if faultError then c1 else c1\<lparr>taken := taken c1 @ data\<rparr>) in
     if \<not> faultError \<and> 0 < remain then
       let oldLen = readableBytes (outputBuffer c2);
           newLen = sz_add oldLen remain;
           c3 = (if hasHighWaterCb c2 \<and> oldLen < highWaterMark c2 \<and> highWaterMark c2 \<le> newLen
                 then queue_task (Task_HighWater newLen) c2 else c2)
       in bindE (append_buf (take remain (drop n data)) (outputBuffer c3)) (\<lambda>ob.
          on_chan (enableWrite True) (c3\<lparr>outputBuffer := ob\<rparr>))
     else Inr c2)"

lemma send_rest_ok:
  assumes mid: "mid_inv (drop n data) (c\<lparr>taken := taken c @ data\<rparr>)"
    and n: "n \<le> length data" and len: "length data \<le> vec_max"
  shows "okE (\<lambda>c'. conn_inv c' \<and> taken c' = taken c @ data \<and> kept c c')
    (send_rest data (n, length data - n, False, c))"
proof (cases "n < length data")
  case False
  with n have "drop n data = []" by simp
  with mid have "conn_inv (c\<lparr>taken := taken c @ data\<rparr>)" by (simp add: mid_inv_def)
  with False show ?thesis by (simp add: send_rest_def)
next
  case True
  let ?c = "c\<lparr>taken := taken c @ data\<rparr>"
  have mq: "mid_inv (drop n data) (queue_task (Task_HighWater m) ?c)" for m
    using mid by (auto simp: mid_inv_def queue_task_def inv_defs)
  have ne: "drop n data \<noteq> []" "length (drop n data) \<le> vec_max" using True len by auto
  have tk: "take (length data - n) (drop n data) = drop n data" by simp
  have kq: "kept c c'" if "kept (queue_task t ?c) c'" for t c'
    using kept_trans[OF _ that, of c] kept_trans[of c ?c "queue_task t ?c"] by simp
  have tq: "taken (queue_task t ?c) = taken ?c" for t by (simp add: queue_task_def)
  have q: "okE (\<lambda>c'. conn_inv c' \<and> taken c' = taken c @ data \<and> kept c c')
      (bindE (append_buf (drop n data) (outputBuffer (queue_task t ?c)))
        (\<lambda>ob. on_chan (enableWrite True) (queue_task t ?c\<lparr>outputBuffer := ob\<rparr>)))" if "t = Task_HighWater m" for t m
    unfolding that
    by (rule okE_weaken[OF mid_inv_rest[OF mq ne]]) (auto intro: kq simp: tq)
  show ?thesis
    unfolding send_rest_def using mid_inv_rest[OF mid ne] q True by (simp add: Let_def tk)
qed

lemma sendInLoop_ok:
  assumes inv: "conn_inv c" and est: "state c \<noteq> kConnecting"
    and len: "length data \<le> vec_max" and wr: "wr_ok c (length data) wr"
  shows "okE (\<lambda>c'. conn_inv c' \<and> taken c' = taken c @ accepted wr data c \<and> kept c c')
    (sendInLoop True wr data c)"
proof (cases "state c = kDisconnected")
  case True
  then show ?thesis using inv by (simp add: sendInLoop_def accepted_def)
next
  case False
  with est have lv: "live c" by (cases "state c") (auto simp: live_def)
  note D = conn_invD[OF inv]
  have c0: "conn_inv (c\<lparr>taken := taken c\<rparr>)" using inv by simp
  show ?thesis
  proof (cases "isWriting (chan c)")
    case True
    then have ns: "\<not> wrShut c" using D(9,10) lv by auto
    have "mid_inv (drop 0 data) (c\<lparr>taken := taken c @ data\<rparr>)"
      using lv ns inv by (simp add: mid_inv_def D(4)) (simp add: live_def)
    from send_rest_ok[OF this _ len] True False show ?thesis
      by (simp add: sendInLoop_def send_rest_def accepted_def)
  next
    case nw: False
    then have empty: "contents (outputBuffer c) = []" using D(9) lv by simp
    then have rb: "readableBytes (outputBuffer c) = 0"
      using length_contents[OF D(2)] by simp
    show ?thesis
    proof (cases wr)
      case (Write_Err e)
      show ?thesis
      proof (cases "e = EPIPE \<or> e = ECONNRESET")
        case True
        with Write_Err nw rb False inv show ?thesis
          by (auto simp: sendInLoop_def accepted_def)
      next
        case nf: False
        with wr Write_Err have ns: "\<not> wrShut c" by (auto simp: wr_ok_def)
        have "mid_inv (drop 0 data) (c\<lparr>taken := taken c @ data\<rparr>)"
          using lv ns inv by (simp add: mid_inv_def D(4)) (simp add: live_def)
        from send_rest_ok[OF this _ len] nf nw rb False Write_Err show ?thesis
          by (auto simp: sendInLoop_def send_rest_def accepted_def)
      qed
    next
      case (Wrote n)
      with wr have n: "n \<le> length data" and ns: "\<not> wrShut c" by (auto simp: wr_ok_def)
      have "length data < 2 ^ 64" using len vec_max_lt by simp
      then have sub: "sz_sub (length data) n = length data - n" using n by (simp add: sz_sub_small)
      let ?c1 = "c\<lparr>wire := wire c @ take n data\<rparr>"
      let ?c2 = "if length data - n = 0 \<and> hasWriteCompleteCb ?c1
        then queue_task Task_WriteComplete ?c1 else ?c1"
      have "mid_inv (drop n data) (?c2\<lparr>taken := taken ?c2 @ data\<rparr>)"
        using lv ns inv empty D(4)
        by (auto simp: mid_inv_def queue_task_def live_def inv_defs)
      note rest = send_rest_ok[OF this n len]
      have k: "kept c ?c2" by (auto intro: kept_trans[of c ?c1])
      have t: "taken ?c2 = taken c" by (simp add: queue_task_def)
      have eq: "sendInLoop True wr data c = send_rest data (n, length data - n, False, ?c2)"
        using nw rb False Wrote sub by (simp add: sendInLoop_def send_rest_def Let_def)
      have "accepted wr data c = data" using False nw Wrote by (simp add: accepted_def)
      then show ?thesis unfolding eq by (intro okE_weaken[OF rest]) (auto simp: t intro: kept_trans[OF k])
    qed
  qed
qed

section \<open>User calls\<close>

text \<open>What the public calls may change, in the loop's thread, on an established connection.\<close>

definition evolved :: "conn \<Rightarrow> conn \<Rightarrow> bool" where
  "evolved c c' \<longleftrightarrow> (state c' = state c \<or> state c = kConnected \<and> state c' = kDisconnecting) \<and>
     same_frame c c' \<and> (isWriting (chan c) \<longrightarrow> isWriting (chan c')) \<and>
     prefix (wire c) (wire c') \<and> prefix (taken c) (taken c') \<and> (wrShut c \<longrightarrow> wrShut c')"

lemma evolved_refl [simp]: "evolved c c"
  by (simp add: evolved_def)

lemma evolved_trans: "evolved a b \<Longrightarrow> evolved b c \<Longrightarrow> evolved a c"
  unfolding evolved_def by (metis same_frame_trans prefix_order.trans)

lemma kept_evolved: "kept c c' \<Longrightarrow> prefix (taken c) (taken c') \<Longrightarrow> evolved c c'"
  by (simp add: kept_def evolved_def)

lemma evolved_updates [simp]:
  "evolved c (queue_task t c)" "evolved c (c\<lparr>inputBuffer := b\<rparr>)"
  "evolved c (setHighWaterMarkCallback n c)"
  by (simp_all add: evolved_def same_frame_def setHighWaterMarkCallback_def)

lemma evolved_closed: "evolved c c' \<Longrightarrow> state c = kDisconnected \<Longrightarrow> state c' = kDisconnected"
  by (auto simp: evolved_def)

lemma evolved_live: "evolved c c' \<Longrightarrow> live c' = live c"
  by (auto simp: evolved_def live_def)

lemma evolved_est: "evolved c c' \<Longrightarrow> state c \<noteq> kConnecting \<Longrightarrow> state c' \<noteq> kConnecting"
  by (auto simp: evolved_def)

text \<open>
  What the library asks of its user and of the kernel for one call: a message shorter than
  \<open>PTRDIFF_MAX\<close>, no more bytes retrieved than there are, a documented outcome of \<open>write\<close>, and
  neither \<open>shutdown\<close> nor \<open>startRead\<close> once the connection is down (the former is asserted by the
  code, the latter is not).
\<close>

fun legal :: "api \<Rightarrow> conn \<Rightarrow> bool" where
  "legal (Api_Send wr data) c = (length data \<le> vec_max \<and> wr_ok c (length data) wr)"
| "legal (Api_SendInput wr) c = wr_ok c (length (contents (inputBuffer c))) wr"
| "legal (Api_Retrieve n) c = (n \<le> length (contents (inputBuffer c)))"
| "legal Api_Shutdown c = (state c \<noteq> kDisconnected)"
| "legal Api_StartRead c = (state c \<noteq> kDisconnected)"
| "legal a c = True"

abbreviation legal_calls :: "api list \<Rightarrow> conn \<Rightarrow> bool" where
  "legal_calls \<equiv> legal_fold legal run_api"

lemma buffer_contents_bound: "buffer_ok b \<Longrightarrow> length (contents b) \<le> vec_max"
  by (auto simp: contents_def subrange_def buffer_ok_def)

lemma send_ok:
  assumes "conn_inv c" and "state c \<noteq> kConnecting" and "legal (Api_Send wr data) c"
  shows "okE (\<lambda>c'. conn_inv c' \<and> evolved c c') (send True wr data c)"
proof (cases "state c = kConnected")
  case False
  then show ?thesis using assms(1) by (simp add: send_def)
next
  case True
  have "okE (\<lambda>c'. conn_inv c' \<and> taken c' = taken c @ accepted wr data c \<and> kept c c')
      (sendInLoop True wr data c)"
    using assms by (intro sendInLoop_ok) auto
  then show ?thesis
    using True by (auto simp: send_def elim!: okE_weaken intro: kept_evolved)
qed

lemma contents_peek:
  "buffer_ok b \<Longrightarrow> subrange (peek b) (peek b + readableBytes b) (bytes b) = contents b"
  using buffer_okD[of b] by (simp add: contents_def peek_def buf_simps)

lemma sendInput_ok:
  assumes inv: "conn_inv c" and "state c \<noteq> kConnecting" and "legal (Api_SendInput wr) c"
  shows "okE (\<lambda>c'. conn_inv c' \<and> evolved c c') (sendInput True wr c)"
proof (cases "state c = kConnected")
  case False
  then show ?thesis using assms(1) by (simp add: sendInput_def)
next
  case True
  let ?d = "contents (inputBuffer c)"
  have b: "buffer_ok (inputBuffer c)" using inv by (rule conn_invD)
  have "okE (\<lambda>c'. conn_inv c' \<and> taken c' = taken c @ accepted wr ?d c \<and> kept c c')
      (sendInLoop True wr ?d c)"
    using assms buffer_contents_bound[OF b] by (intro sendInLoop_ok) auto
  then have "okE (\<lambda>c'. conn_inv c' \<and> evolved c c')
      (bindE (sendInLoop True wr ?d c) (\<lambda>c1. Inr (c1\<lparr>inputBuffer := retrieveAll (inputBuffer c1)\<rparr>)))"
    by (rule okE_bind)
       (auto intro!: conn_inv_input retrieveAll_ok conn_invD intro: evolved_trans[OF kept_evolved])
  then show ?thesis using True by (simp add: sendInput_def Let_def contents_peek[OF b])
qed

lemma stopReadInLoop_ok:
  assumes inv: "conn_inv c" and est: "state c \<noteq> kConnecting"
  shows "\<exists>c'. stopReadInLoop c = Inr c' \<and> conn_inv c' \<and> evolved c c' \<and> state c' = state c"
proof (cases "isReading (chan c)")
  case False
  then show ?thesis using inv by (auto simp: stopReadInLoop_def)
next
  case True
  then have lv: "live c" using inv by (auto simp: conn_inv_def isReading_def)
  note D = conn_invD[OF inv]
  have nz: "events (chan c) AND NOT EPOLLIN \<noteq> 0"
    by (rule has_nonzero[of _ EPOLLPRI]) (simp add: D(8)[OF lv])
  obtain k where "disableRead True (chan c) =
      Inr (with_events (events (chan c) AND NOT EPOLLIN) (chan c), k)"
    "registered (ctls c @ [k]) (with_events (events (chan c) AND NOT EPOLLIN) (chan c))"
    using disableRead_ok[OF D(3) D(7)[OF lv]] by auto
  note k = this
  then show ?thesis using True inv lv nz
    by (auto simp: stopReadInLoop_def on_chan_def evolved_def same_frame_def inv_defs)
qed

lemma startReadInLoop_ok:
  assumes inv: "conn_inv c" and lv: "live c"
  shows "\<exists>c'. startReadInLoop c = Inr c' \<and> conn_inv c' \<and> evolved c c' \<and> state c' = state c"
proof (cases "isReading (chan c)")
  case True
  then show ?thesis using inv by (auto simp: startReadInLoop_def)
next
  case False
  note D = conn_invD[OF inv]
  have nz: "events (chan c) OR (EPOLLIN OR EPOLLPRI) \<noteq> 0" by (rule enable_nonzero)
  obtain k where "enableRead True (chan c) =
      Inr (with_events (events (chan c) OR (EPOLLIN OR EPOLLPRI)) (chan c), k)"
    "registered (ctls c @ [k]) (with_events (events (chan c) OR (EPOLLIN OR EPOLLPRI)) (chan c))"
    using enableRead_ok[OF D(3)] by auto
  note k = this
  then show ?thesis using False inv lv nz
    by (auto simp: startReadInLoop_def on_chan_def evolved_def same_frame_def inv_defs)
qed

lemma shutdownInLoop_ok:
  assumes "conn_inv c" and "state c \<noteq> kConnecting" and "state c \<noteq> kConnected"
  shows "\<exists>c'. shutdownInLoop True c = Inr c' \<and> conn_inv c' \<and> evolved c c' \<and> state c' = state c \<and>
    (live c \<and> contents (outputBuffer c) = [] \<longrightarrow> wrShut c')"
  using assms
  by (cases "state c") (auto simp: shutdownInLoop_def evolved_def same_frame_def inv_defs)

lemma conn_inv_disconnecting:
  "conn_inv c \<Longrightarrow> live c \<Longrightarrow> conn_inv (c\<lparr>state := kDisconnecting\<rparr>)"
  by (auto simp: inv_defs)

lemma evolved_disconnecting: "live c \<Longrightarrow> evolved c (c\<lparr>state := kDisconnecting\<rparr>)"
  by (auto simp: live_def evolved_def same_frame_def)

lemma est_live: "state c \<noteq> kConnecting \<Longrightarrow> state c \<noteq> kDisconnected \<Longrightarrow> live c"
  by (cases "state c") (auto simp: live_def)

lemma shutdown_ok:
  assumes inv: "conn_inv c" and lv: "live c"
  shows "\<exists>c'. shutdown True c = Inr c' \<and> conn_inv c' \<and> evolved c c' \<and> state c' = kDisconnecting \<and>
    (state c = kConnected \<and> contents (outputBuffer c) = [] \<longrightarrow> wrShut c')"
proof -
  let ?c = "c\<lparr>state := kDisconnecting\<rparr>"
  have c1: "conn_inv ?c" "evolved c ?c"
    using conn_inv_disconnecting[OF inv lv] evolved_disconnecting[OF lv] by auto
  obtain c' where "shutdownInLoop True ?c = Inr c'" "conn_inv c'" "evolved ?c c'"
    "state c' = kDisconnecting" "contents (outputBuffer c) = [] \<longrightarrow> wrShut c'"
    using shutdownInLoop_ok[OF c1(1)] by (auto simp: live_def)
  moreover from this c1 have "evolved c c'" by (blast intro: evolved_trans)
  ultimately show ?thesis
    using lv c1 by (auto simp: shutdown_def stateAtomicGetAndSet_def live_def)
qed

lemma forceClose_ok:
  assumes inv: "conn_inv c" and est: "state c \<noteq> kConnecting"
  shows "\<exists>c'. forceClose c = Inr c' \<and> conn_inv c' \<and> evolved c c'"
proof (cases "state c = kDisconnected")
  case True
  then show ?thesis using inv by (simp add: forceClose_def)
next
  case False
  with est have lv: "live c" by (rule est_live)
  have c1: "conn_inv (c\<lparr>state := kDisconnecting\<rparr>)" "evolved c (c\<lparr>state := kDisconnecting\<rparr>)"
    using conn_inv_disconnecting[OF inv lv] evolved_disconnecting[OF lv] by auto
  show ?thesis using False conn_inv_queue[OF c1(1)] evolved_trans[OF c1(2)]
    by (auto simp: forceClose_def stateAtomicGetAndSet_def)
qed

text \<open>Every legal call keeps the invariant and fails no assert.\<close>

lemma run_api_ok:
  assumes inv: "conn_inv c" and est: "state c \<noteq> kConnecting" and leg: "legal a c"
  shows "okE (\<lambda>c'. conn_inv c' \<and> evolved c c') (run_api a c)"
proof (cases a)
  case (Api_Send wr data)
  then show ?thesis using send_ok[OF inv est] leg by simp
next
  case (Api_SendInput wr)
  then show ?thesis using sendInput_ok[OF inv est] leg by simp
next
  case (Api_Retrieve n)
  then obtain b where "retrieve n (inputBuffer c) = Inr b" "buffer_ok b"
    using retrieve_ok[OF conn_invD(1)[OF inv], of n] leg by auto
  with Api_Retrieve show ?thesis using conn_inv_input[OF inv] by simp
next
  case Api_RetrieveAll
  then show ?thesis
    using conn_inv_input[OF inv retrieveAll_ok[OF conn_invD(1)[OF inv]]] by simp
next
  case Api_Shutdown
  then show ?thesis using shutdown_ok[OF inv] est_live[OF est] leg by auto
next
  case Api_ForceClose
  then show ?thesis using forceClose_ok[OF inv est] by auto
next
  case Api_StopRead
  then show ?thesis using stopReadInLoop_ok[OF inv est] by (auto simp: stopRead_def)
next
  case Api_StartRead
  then show ?thesis using startReadInLoop_ok[OF inv] est_live[OF est] leg
    by (auto simp: startRead_def)
next
  case (Api_SetHighWater m)
  then show ?thesis using inv by (simp add: setHighWaterMarkCallback_def inv_defs)
      (simp add: evolved_def same_frame_def)
qed

interpretation api: safe_steps run_api legal "\<lambda>c. conn_inv c \<and> state c \<noteq> kConnecting" evolved
proof unfold_locales
  fix s a
  assume s: "conn_inv s \<and> state s \<noteq> kConnecting" and "legal a s"
  then have "okE (\<lambda>s'. conn_inv s' \<and> evolved s s') (run_api a s)" using run_api_ok by blast
  then show "okE (\<lambda>s'. (conn_inv s' \<and> state s' \<noteq> kConnecting) \<and> evolved s s') (run_api a s)"
    by (rule okE_weaken) (use s evolved_est in blast)
qed (auto intro: evolved_trans)

lemma run_calls_ok:
  assumes "conn_inv c" and "state c \<noteq> kConnecting" and "legal_calls as c"
  shows "okE (\<lambda>c'. conn_inv c' \<and> evolved c c') (foldE run_api as c)"
  by (rule okE_weaken[OF api.run_ok]) (use assms in auto)

section \<open>Event handlers\<close>

text \<open>What handlers may change besides: the state only moves on, and may reach the end.\<close>

definition advanced :: "conn \<Rightarrow> conn \<Rightarrow> bool" where
  "advanced c c' \<longleftrightarrow> state c \<le> state c' \<and> same_frame c c' \<and> prefix (wire c) (wire c') \<and>
     prefix (taken c) (taken c') \<and> (wrShut c \<longrightarrow> wrShut c')"

lemma advanced_refl [simp]: "advanced c c"
  by (simp add: advanced_def)

lemma advanced_trans: "advanced a b \<Longrightarrow> advanced b c \<Longrightarrow> advanced a c"
  unfolding advanced_def by (metis same_frame_trans prefix_order.trans order_trans)

lemma evolved_advanced: "evolved c c' \<Longrightarrow> advanced c c'"
  by (auto simp: evolved_def advanced_def)

text \<open>\<open>handleClose\<close> up to the callback.\<close>

definition closing :: "conn \<Rightarrow> error + conn" where
  "closing c = bindE (on_chan (loop_removeChannel True) (c\<lparr>state := kDisconnected\<rparr>))
     (\<lambda>c1. Inr (c1\<lparr>closedCalls := Suc (closedCalls c1)\<rparr>))"

definition legal_close :: "api list \<Rightarrow> conn \<Rightarrow> bool" where
  "legal_close calls c = thenP (closing c) (legal_calls calls)"

lemma closing_ok:
  assumes inv: "conn_inv c" and lv: "live c"
  shows "\<exists>c'. closing c = Inr c' \<and> conn_inv c' \<and> advanced c c' \<and> state c' = kDisconnected"
proof -
  note D = conn_invD[OF inv]
  obtain k where "loop_removeChannel True (chan c) = Inr (with_events 0 (chan c), k)"
    "registered (ctls c @ [k]) (with_events 0 (chan c))"
    using removeChannel_ok[OF D(3) D(7)[OF lv]] by auto
  note k = this
  have eq: "closing c = Inr (c\<lparr>state := kDisconnected, chan := with_events 0 (chan c),
      ctls := ctls c @ [k], closedCalls := Suc (closedCalls c)\<rparr>)" (is "_ = Inr ?c'")
    by (simp add: closing_def on_chan_def k)
  have "conn_inv ?c'" using inv lv k(2) by (auto simp: inv_defs)
  moreover have "advanced c ?c'" by (simp add: advanced_def same_frame_def)
  ultimately show ?thesis using eq by simp
qed

lemma handleClose_ok:
  assumes inv: "conn_inv c" and lv: "live c" and leg: "legal_close calls c"
  shows "okE (\<lambda>c'. conn_inv c' \<and> advanced c c' \<and> state c' = kDisconnected) (handleClose True calls c)"
proof -
  obtain c1 where c1: "closing c = Inr c1" "conn_inv c1" "advanced c c1" "state c1 = kDisconnected"
    using closing_ok[OF inv lv] by blast
  have "handleClose True calls c = bindE (closing c) (user_cb (hasCloseCb c) calls)"
    using lv by (auto simp: handleClose_def closing_def on_chan_def bindE_def live_def
        split: sum.splits prod.splits)
  also have "\<dots> = foldE run_api calls c1"
    using c1(1) conn_invD(6)[OF inv] by (simp add: user_cb_def)
  finally have eq: "handleClose True calls c = foldE run_api calls c1" .
  have "okE (\<lambda>c'. conn_inv c' \<and> evolved c1 c') (foldE run_api calls c1)"
    using leg c1 by (intro run_calls_ok) (auto simp: legal_close_def)
  then show ?thesis unfolding eq
    by (rule okE_weaken) (use c1 advanced_trans evolved_advanced evolved_closed in blast)
qed

text \<open>
  What one callback of the channel asks of its environment: documented outcomes of the system
  calls, and legal calls from the user's callback in the state it runs in.
\<close>

definition legal_read :: "io \<Rightarrow> conn \<Rightarrow> bool" where
  "legal_read i c =
     ((case rd i of Read_Ok ds \<Rightarrow> length ds \<le> readv_limit (inputBuffer c) | Read_Err e \<Rightarrow> True) \<and>
      thenP (readFd (rd i) (inputBuffer c)) (\<lambda>(n, e, b).
        if n = -1 then True
        else if n = 0 then legal_close (closeCalls i) (c\<lparr>inputBuffer := b\<rparr>)
        else legal_calls (msgCalls i) (c\<lparr>inputBuffer := b\<rparr>)))"

fun legal_cb :: "io \<Rightarrow> chan_cb \<Rightarrow> conn \<Rightarrow> bool" where
  "legal_cb i CloseCb c = legal_close (closeCalls i) c"
| "legal_cb i ErrorCb c = True"
| "legal_cb i ReadCb c = legal_read i c"
| "legal_cb i WriteCb c =
     (state c = kDisconnected \<or> wr_ok c (length (contents (outputBuffer c))) (wres i))"

lemma handleRead_ok:
  assumes inv: "conn_inv c" and lv: "live c" and leg: "legal_read i c"
  shows "okE (\<lambda>c'. conn_inv c' \<and> advanced c c' \<and>
      (live c' \<longrightarrow> isWriting (chan c) \<longrightarrow> isWriting (chan c'))) (handleRead True i c)"
proof (cases "rd i")
  case (Read_Err e)
  then show ?thesis using inv lv by (auto simp: handleRead_def readFd_def handleError_def live_def)
next
  case (Read_Ok ds)
  note D = conn_invD[OF inv]
  have nd: "state c \<noteq> kDisconnected" using lv by (auto simp: live_def)
  have lim: "length ds \<le> readv_limit (inputBuffer c)" using leg Read_Ok by (simp add: legal_read_def)
  show ?thesis
  proof (cases "readFd (rd i) (inputBuffer c)")
    case (Inl e)
    then show ?thesis using readFd_cases[OF D(1) lim] Read_Ok nd by (auto simp: handleRead_def)
  next
    case (Inr r)
    then obtain b where b: "readFd (rd i) (inputBuffer c) = Inr (int (length ds), None, b)"
      "buffer_ok b" using readFd_cases[OF D(1) lim] Read_Ok by auto
    let ?c = "c\<lparr>inputBuffer := b\<rparr>"
    have c: "conn_inv ?c" "live ?c" "evolved c ?c"
      using conn_inv_input[OF inv b(2)] lv by (simp_all add: live_def)
    show ?thesis
    proof (cases "ds = []")
      case True
      have "okE (\<lambda>c'. conn_inv c' \<and> advanced ?c c' \<and> state c' = kDisconnected)
          (handleClose True (closeCalls i) ?c)"
        using leg b(1) True by (intro handleClose_ok c(1,2)) (simp add: legal_read_def)
      then show ?thesis
        using b(1) nd True evolved_advanced[OF c(3)]
        by (auto simp: handleRead_def live_def elim!: okE_weaken intro: advanced_trans)
    next
      case False
      have "okE (\<lambda>c'. conn_inv c' \<and> evolved ?c c') (foldE run_api (msgCalls i) ?c)"
        using leg b(1) False c(2)
        by (intro run_calls_ok c(1)) (auto simp: legal_read_def live_def)
      then have "okE (\<lambda>c'. conn_inv c' \<and> evolved c c') (foldE run_api (msgCalls i) ?c)"
        by (rule okE_weaken) (use c(3) evolved_trans in blast)
      then show ?thesis
        using b(1) nd False D(5)
        by (auto simp: handleRead_def user_cb_def elim!: okE_weaken intro: evolved_advanced)
           (simp add: evolved_def)
    qed
  qed
qed

text \<open>
  \<open>handleWrite\<close> moves the front of the output buffer onto the wire. When the buffer runs empty it
  stops wanting EPOLLOUT, and a shutdown that was waiting for that takes effect.
\<close>

lemma handleWrite_ok:
  assumes inv: "conn_inv c" and lv: "live c" and w: "isWriting (chan c)"
    and wr: "wr_ok c (length (contents (outputBuffer c))) wr"
  shows "\<exists>c'. handleWrite wr c = Inr c' \<and> conn_inv c' \<and> advanced c c' \<and> state c' = state c \<and>
    taken c' = taken c \<and> (case wr of Write_Err e \<Rightarrow> c' = c | Wrote n \<Rightarrow>
      wire c' = wire c @ take n (contents (outputBuffer c)) \<and>
      contents (outputBuffer c') = drop n (contents (outputBuffer c)) \<and>
      (n = length (contents (outputBuffer c)) \<and> state c = kDisconnecting \<longrightarrow> wrShut c'))"
proof -
  note D = conn_invD[OF inv]
  have ne: "contents (outputBuffer c) \<noteq> []" using D(9)[OF lv] w by simp
  then have rb: "0 < readableBytes (outputBuffer c)"
    using length_contents[OF D(2)] by (metis length_greater_0_conv)
  have nd: "state c \<noteq> kDisconnected" using lv by (auto simp: live_def)
  show ?thesis
  proof (cases wr)
    case (Write_Err e)
    then show ?thesis using nd rb w inv by (simp add: handleWrite_def)
  next
    case (Wrote n)
    with wr have n: "n \<le> length (contents (outputBuffer c))" and ns: "\<not> wrShut c"
      by (auto simp: wr_ok_def)
    obtain ob where ob: "retrieve n (outputBuffer c) = Inr ob" "buffer_ok ob"
      "contents ob = drop n (contents (outputBuffer c))" using retrieve_ok[OF D(2) n] by blast
    let ?c1 = "c\<lparr>wire := wire c @ take n (contents (outputBuffer c)), outputBuffer := ob\<rparr>"
    show ?thesis
    proof (cases "n = length (contents (outputBuffer c))")
      case False
      then have "contents ob \<noteq> []" using ob(3) n by simp
      moreover from this have "readableBytes ob \<noteq> 0"
        using length_contents[OF ob(2)] by (metis length_0_conv)
      moreover have "conn_inv ?c1" using inv lv ob calculation(1) w ns by (auto simp: inv_defs)
      ultimately show ?thesis
        using nd rb w ob(1,3) Wrote False n contents_peek[OF D(2)]
        by (simp add: handleWrite_def advanced_def same_frame_def)
    next
      case True
      then have e: "contents ob = []" "readableBytes ob = 0"
        using ob(3) length_contents[OF ob(2)] by simp_all
      have nz: "events (chan c) AND NOT EPOLLOUT \<noteq> 0"
        by (rule has_nonzero[of _ EPOLLPRI]) (simp add: D(8)[OF lv])
      obtain k where k: "disableWrite True (chan c) =
          Inr (with_events (events (chan c) AND NOT EPOLLOUT) (chan c), k)"
        "registered (ctls c @ [k]) (with_events (events (chan c) AND NOT EPOLLOUT) (chan c))"
        using disableWrite_ok[OF D(3) D(7)[OF lv]] by auto
      let ?c2 = "?c1\<lparr>chan := with_events (events (chan c) AND NOT EPOLLOUT) (chan c),
          ctls := ctls c @ [k]\<rparr>"
      have c2: "conn_inv ?c2" using inv lv ob e w ns k nz True by (auto simp: inv_defs)
      have adv: "advanced c ?c2" by (simp add: advanced_def same_frame_def)
      obtain c3 where c3: "(if state c = kDisconnecting then shutdownInLoop True ?c2 else Inr ?c2) = Inr c3"
        "conn_inv c3" "evolved ?c2 c3" "state c3 = state c" "taken c3 = taken c" "wire c3 = wire ?c2"
        "outputBuffer c3 = ob" "state c = kDisconnecting \<longrightarrow> wrShut c3"
        using shutdownInLoop_ok[OF c2] c2 e lv
        by (auto simp: live_def shutdownInLoop_def isWriting_def)
      have "advanced c c3" using advanced_trans[OF adv evolved_advanced[OF c3(3)]] .
      then have fin: "advanced c (queue_task t c3)" for t
        by (simp add: advanced_def same_frame_def)
      let ?c4 = "if hasWriteCompleteCb c3 then queue_task Task_WriteComplete c3 else c3"
      have "handleWrite wr c = Inr ?c4"
        using nd rb w ob(1) e(2) Wrote contents_peek[OF D(2)] k(1) c3(1,4)
        by (cases "state c = kDisconnecting") (simp_all add: handleWrite_def on_chan_def Let_def)
      then show ?thesis
        using c3 fin conn_inv_queue[OF c3(2)] Wrote True e(1) \<open>advanced c c3\<close> by auto
    qed
  qed
qed

section \<open>Dispatching events to a connection\<close>

text \<open>No callback touches what the dispatch reads, whatever it is given.\<close>

lemma op_frame:
  assumes "run_op x inL ch = Inr (ch', k)"
  shows "dispatch_part ch' = dispatch_part ch"
  using assms
  by (auto simp: run_op_update loop_updateChannel_def poller_updateChannel_def bindE_eq_Inr
      dispatch_part_def assertE_def split: if_splits)

lemma op_frames:
  "enableRead inL ch = Inr (ch', k) \<Longrightarrow> dispatch_part ch' = dispatch_part ch"
  "enableWrite inL ch = Inr (ch', k) \<Longrightarrow> dispatch_part ch' = dispatch_part ch"
  "disableRead inL ch = Inr (ch', k) \<Longrightarrow> dispatch_part ch' = dispatch_part ch"
  "disableWrite inL ch = Inr (ch', k) \<Longrightarrow> dispatch_part ch' = dispatch_part ch"
  "loop_removeChannel inL ch = Inr (ch', k) \<Longrightarrow> dispatch_part ch' = dispatch_part ch"
  using op_frame[of EnableRead inL ch ch' k] op_frame[of EnableWrite inL ch ch' k]
    op_frame[of DisableRead inL ch ch' k] op_frame[of DisableWrite inL ch ch' k]
    op_frame[of DisableAll inL ch ch' k]
  by (auto simp: loop_removeChannel_def bindE_eq_Inr)

lemma chan_frames:
  "on_chan (enableRead inL) c = Inr c' \<Longrightarrow> dispatch_part (chan c') = dispatch_part (chan c)"
  "on_chan (enableWrite inL) c = Inr c' \<Longrightarrow> dispatch_part (chan c') = dispatch_part (chan c)"
  "on_chan (disableRead inL) c = Inr c' \<Longrightarrow> dispatch_part (chan c') = dispatch_part (chan c)"
  "on_chan (disableWrite inL) c = Inr c' \<Longrightarrow> dispatch_part (chan c') = dispatch_part (chan c)"
  "on_chan (loop_removeChannel inL) c = Inr c' \<Longrightarrow> dispatch_part (chan c') = dispatch_part (chan c)"
  by (auto simp: on_chan_def bindE_eq_Inr dest: op_frames)

lemma sendInLoop_frame:
  "sendInLoop inL wr data c = Inr c' \<Longrightarrow> dispatch_part (chan c') = dispatch_part (chan c)"
  by (auto simp: sendInLoop_def bindE_eq_Inr Let_def dest!: chan_frames
      split: if_splits write_result.splits)

lemma shutdownInLoop_frame:
  "shutdownInLoop inL c = Inr c' \<Longrightarrow> chan c' = chan c"
  by (auto simp: shutdownInLoop_def bindE_eq_Inr split: if_splits)

lemma closing_frames:
  "shutdown inL c = Inr c' \<Longrightarrow> chan c' = chan c" "forceClose c = Inr c' \<Longrightarrow> chan c' = chan c"
  by (auto simp: shutdown_def forceClose_def stateAtomicGetAndSet_def bindE_eq_Inr
      dest!: shutdownInLoop_frame split: if_splits)

lemma run_api_frame:
  assumes "run_api a c = Inr c'"
  shows "dispatch_part (chan c') = dispatch_part (chan c)"
proof (cases a)
  case (Api_Send wr data)
  then show ?thesis using assms by (auto simp: send_def dest: sendInLoop_frame split: if_splits)
next
  case (Api_SendInput wr)
  then show ?thesis using assms
    by (auto simp: sendInput_def bindE_eq_Inr Let_def dest!: sendInLoop_frame split: if_splits)
next
  case Api_StopRead
  then show ?thesis using assms
    by (auto simp: stopRead_def stopReadInLoop_def dest: chan_frames split: if_splits)
next
  case Api_StartRead
  then show ?thesis using assms
    by (auto simp: startRead_def startReadInLoop_def dest: chan_frames split: if_splits)
qed (use assms closing_frames in \<open>auto simp: bindE_eq_Inr setHighWaterMarkCallback_def\<close>)

lemma run_calls_frame:
  assumes "foldE run_api as c = Inr c'"
  shows "dispatch_part (chan c') = dispatch_part (chan c)"
  by (rule foldE_inv[where I = "\<lambda>x. dispatch_part (chan x) = dispatch_part (chan c)", OF _ _ assms])
     (auto dest: run_api_frame)

lemma handleClose_frame:
  "handleClose inL calls c = Inr c' \<Longrightarrow> dispatch_part (chan c') = dispatch_part (chan c)"
  by (auto simp: handleClose_def user_cb_def bindE_eq_Inr dest!: chan_frames run_calls_frame
      split: if_splits)

lemma handleRead_frame:
  "handleRead inL i c = Inr c' \<Longrightarrow> dispatch_part (chan c') = dispatch_part (chan c)"
  by (auto simp: handleRead_def user_cb_def bindE_eq_Inr Let_def handleError_def
      dest!: handleClose_frame run_calls_frame split: if_splits)

lemma maybe_shutdown_frame:
  "(if b then shutdownInLoop True c else Inr c) = Inr c' \<Longrightarrow> chan c' = chan c"
  by (cases b) (auto dest: shutdownInLoop_frame)

lemma handleWrite_frame:
  assumes "handleWrite wr c = Inr c'"
  shows "dispatch_part (chan c') = dispatch_part (chan c)"
proof (cases "state c = kDisconnected \<or> (\<exists>e. wr = Write_Err e)")
  case True
  then show ?thesis using assms by (auto simp: handleWrite_def bindE_eq_Inr split: if_splits)
next
  case False
  then obtain n where n: "wr = Wrote n" by (cases wr) auto
  with False assms obtain ob where ob: "retrieve n (outputBuffer c) = Inr ob"
    by (auto simp: handleWrite_def bindE_eq_Inr)
  show ?thesis
  proof (cases "readableBytes ob = 0")
    case True
    then show ?thesis using False assms n ob
      by (auto simp: handleWrite_def bindE_eq_Inr Let_def dest!: chan_frames(4) maybe_shutdown_frame)
  next
    case nz: False
    then show ?thesis using False assms n ob by (auto simp: handleWrite_def bindE_eq_Inr Let_def)
  qed
qed

lemma conn_cb_frame:
  "conn_cb i k c = Inr c' \<Longrightarrow> dispatch_part (chan c') = dispatch_part (chan c)"
  by (cases k) (auto simp: handleError_def dest: handleClose_frame handleRead_frame handleWrite_frame)

interpretation conn_owner: channel_owner chan upd_chan "conn_cb i"
  for i
  by unfold_locales (auto simp: upd_chan_def dest: conn_cb_frame)

text \<open>
  What epoll reports to a live connection: EPOLLOUT only while it is wanted, and a hang-up without
  EPOLLIN comes without EPOLLPRI and EPOLLRDHUP. Nothing is asked of EPOLLIN itself, which may have
  been switched off since by another connection's callback of the same turn of the loop.
\<close>

definition reported_ok :: "evmask \<Rightarrow> conn \<Rightarrow> bool" where
  "reported_ok revs c \<longleftrightarrow> (has revs EPOLLOUT \<longrightarrow> isWriting (chan c)) \<and>
     \<not> (has revs EPOLLHUP \<and> \<not> has revs EPOLLIN \<and> (has revs EPOLLPRI \<or> has revs EPOLLRDHUP))"

abbreviation legal_run :: "io \<Rightarrow> chan_cb list \<Rightarrow> conn \<Rightarrow> bool" where
  "legal_run i \<equiv> legal_fold (legal_cb i) (conn_cb i)"

definition legal_event :: "io \<Rightarrow> evmask \<Rightarrow> conn \<Rightarrow> bool" where
  "legal_event i revs c =
     (reported_ok revs c \<and>
      (let c0 = upd_chan (setRevents revs) c in
       legal_run i (dispatch (chan c0)) (upd_chan (\<lambda>ch. ch\<lparr>handlingEvents := True\<rparr>) c0)))"

text \<open>Lists of callbacks in which at most one can find the connection closed, and write is last.\<close>

fun proper :: "chan_cb list \<Rightarrow> bool" where
  "proper [] = True"
| "proper (k # ks) = ((k = CloseCb \<or> k = ReadCb \<longrightarrow> CloseCb \<notin> set ks \<and> ReadCb \<notin> set ks) \<and>
     (k = WriteCb \<longrightarrow> ks = []) \<and> proper ks)"

definition ready :: "chan_cb list \<Rightarrow> conn \<Rightarrow> bool" where
  "ready ks c \<longleftrightarrow> conn_inv c \<and> (CloseCb \<in> set ks \<or> ReadCb \<in> set ks \<longrightarrow> live c) \<and>
     (WriteCb \<in> set ks \<longrightarrow> live c \<longrightarrow> isWriting (chan c)) \<and> state c \<noteq> kConnecting"

lemma advanced_est: "advanced c c' \<Longrightarrow> state c \<noteq> kConnecting \<Longrightarrow> state c' \<noteq> kConnecting"
  by (cases "state c"; cases "state c'") (auto simp: advanced_def less_eq_cstate_def)

lemma conn_cb_ok:
  assumes r: "ready (k # ks) c" and p: "proper (k # ks)" and leg: "legal_cb i k c"
  shows "okE (\<lambda>c'. ready ks c' \<and> advanced c c') (conn_cb i k c)"
proof (cases k)
  case CloseCb
  then have "okE (\<lambda>c'. conn_inv c' \<and> advanced c c' \<and> state c' = kDisconnected) (conn_cb i k c)"
    using handleClose_ok r leg by (auto simp: ready_def)
  then show ?thesis by (rule okE_weaken) (use p CloseCb in \<open>auto simp: ready_def live_def\<close>)
next
  case ErrorCb
  then show ?thesis using r by (auto simp: ready_def handleError_def)
next
  case ReadCb
  then have "okE (\<lambda>c'. conn_inv c' \<and> advanced c c' \<and>
      (live c' \<longrightarrow> isWriting (chan c) \<longrightarrow> isWriting (chan c'))) (conn_cb i k c)"
    using handleRead_ok r leg by (auto simp: ready_def)
  then show ?thesis
    by (rule okE_weaken)
       (use p r ReadCb in \<open>auto simp: ready_def live_def dest: advanced_est\<close>)
next
  case WriteCb
  show ?thesis
  proof (cases "state c = kDisconnected")
    case True
    then show ?thesis using WriteCb p r by (auto simp: handleWrite_def ready_def)
  next
    case False
    then have "live c" "isWriting (chan c)" "conn_inv c" using r WriteCb est_live
      by (auto simp: ready_def)
    then show ?thesis
      using handleWrite_ok[of c "wres i"] leg WriteCb False p
      by (auto simp: ready_def live_def)
  qed
qed

lemma conn_cbs_ok:
  assumes "ready ks c" and "proper ks" and "legal_run i ks c"
  shows "okE (\<lambda>c'. conn_inv c' \<and> advanced c c') (foldE (conn_cb i) ks c)"
  using assms
proof (induction ks arbitrary: c)
  case Nil
  then show ?case by (simp add: ready_def)
next
  case (Cons k ks)
  have step: "okE (\<lambda>c1. (ready ks c1 \<and> advanced c c1) \<and> legal_run i ks c1) (conn_cb i k c)"
    using okE_then[OF conn_cb_ok[OF Cons.prems(1,2)], of i "legal_run i ks"] Cons.prems(3) by simp
  have "okE (\<lambda>c'. conn_inv c' \<and> advanced c c') (bindE (conn_cb i k c) (foldE (conn_cb i) ks))"
  proof (rule okE_bind[OF step])
    fix c1
    assume c1: "(ready ks c1 \<and> advanced c c1) \<and> legal_run i ks c1"
    then have "okE (\<lambda>c'. conn_inv c' \<and> advanced c1 c') (foldE (conn_cb i) ks c1)"
      using Cons.IH Cons.prems(2) by simp
    then show "okE (\<lambda>c'. conn_inv c' \<and> advanced c c') (foldE (conn_cb i) ks c1)"
      by (rule okE_weaken) (use c1 advanced_trans in blast)
  qed
  then show ?case by simp
qed

lemma dispatch_proper:
  assumes "reported_ok revs c"
  shows "proper (dispatch (setRevents revs (chan c)))"
  using assms
  by (auto simp: dispatch_def wantsClose_def wantsRead_def setRevents_def reported_ok_def has_or)

lemma conn_inv_upd:
  "conn_inv (upd_chan (\<lambda>ch. ch\<lparr>handlingEvents := x\<rparr>) c) = conn_inv c"
  "conn_inv (upd_chan (setRevents r) c) = conn_inv c"
  by (simp_all add: inv_defs upd_chan_def setRevents_def registered_def wanted_def)

text \<open>Progress seen from outside: what an event or a task never takes back.\<close>

definition progress :: "conn \<Rightarrow> conn \<Rightarrow> bool" where
  "progress c c' \<longleftrightarrow> state c \<le> state c' \<and> prefix (wire c) (wire c') \<and>
     prefix (taken c) (taken c') \<and> (wrShut c \<longrightarrow> wrShut c')"

lemma advanced_progress: "advanced c c' \<Longrightarrow> progress c c'"
  by (simp add: advanced_def progress_def)

lemma progress_trans: "progress a b \<Longrightarrow> progress b c \<Longrightarrow> progress a c"
  unfolding progress_def by (metis prefix_order.trans order_trans)

text \<open>How an event is dispatched to a live connection.\<close>

lemma conn_event_callbacks:
  assumes inv: "conn_inv c" and lv: "live c" and leg: "legal_event i revs c"
  defines "c1 \<equiv> upd_chan (\<lambda>ch. ch\<lparr>handlingEvents := True\<rparr>) (upd_chan (setRevents revs) c)"
    and "ks \<equiv> dispatch (setRevents revs (chan c))"
  shows "conn_handleEvents i revs c = bindE (foldE (conn_cb i) ks c1)
      (\<lambda>c'. Inr (upd_chan (\<lambda>ch. ch\<lparr>handlingEvents := False\<rparr>) c'))"
    and "ready ks c1" and "proper ks" and "legal_run i ks c1"
proof -
  have rep: "reported_ok revs c" using leg by (simp add: legal_event_def Let_def)
  have ks: "ks = dispatch (chan (upd_chan (setRevents revs) c))" by (simp add: ks_def upd_chan_def)
  show "proper ks" unfolding ks_def by (rule dispatch_proper[OF rep])
  show "legal_run i ks c1" using leg by (simp add: legal_event_def Let_def c1_def ks)
  have "tied (chan c)" using inv lv by (simp add: conn_inv_def)
  then show "conn_handleEvents i revs c = bindE (foldE (conn_cb i) ks c1)
      (\<lambda>c'. Inr (upd_chan (\<lambda>ch. ch\<lparr>handlingEvents := False\<rparr>) c'))"
    unfolding c1_def ks
    by (simp add: conn_handleEvents_def handleEvents_def conn_owner.guard_eq_dispatch upd_chan_def setRevents_def)
  have "WriteCb \<in> set ks \<Longrightarrow> isWriting (chan c)"
    using rep by (auto simp: ks_def dispatch_def wantsWrite_def reported_ok_def setRevents_def)
  then show "ready ks c1"
    using inv lv by (auto simp: ready_def c1_def conn_inv_upd) (auto simp: upd_chan_def live_def setRevents_def isWriting_def)
qed

lemma conn_handleEvents_ok:
  assumes inv: "conn_inv c" and lv: "live c" and leg: "legal_event i revs c"
  shows "okE (\<lambda>c'. conn_inv c' \<and> progress c c' \<and> \<not> handlingEvents (chan c'))
    (conn_handleEvents i revs c)"
proof -
  let ?c1 = "upd_chan (\<lambda>ch. ch\<lparr>handlingEvents := True\<rparr>) (upd_chan (setRevents revs) c)"
  note E = conn_event_callbacks[OF assms]
  have "okE (\<lambda>c'. conn_inv c' \<and> advanced ?c1 c') (foldE (conn_cb i) (dispatch (setRevents revs (chan c))) ?c1)"
    by (intro conn_cbs_ok E(2-4))
  then show ?thesis unfolding E(1)
    by (rule okE_bind)
       (auto simp: conn_inv_upd, auto simp: advanced_def progress_def upd_chan_def)
qed

section \<open>Whole runs\<close>

text \<open>
  Everything that happens to a connection after it is established, one step at a time: events of
  its channel, the oldest queued task, calls from code running in the loop's thread, and calls from
  other threads, whose effect on the connection is the state they set and the task they queue.
\<close>

datatype fcall = F_Send string | F_Shutdown | F_ForceClose | F_StopRead | F_StartRead

fun run_foreign :: "fcall \<Rightarrow> conn \<Rightarrow> error + conn" where
  "run_foreign (F_Send s) c = send False (Write_Err EAGAIN) s c"
| "run_foreign F_Shutdown c = shutdown False c"
| "run_foreign F_ForceClose c = forceClose c"
| "run_foreign F_StopRead c = stopRead False c"
| "run_foreign F_StartRead c = startRead False c"

datatype label =
    L_Event io evmask
  | L_Task write_result "api list"
  | L_Call api
  | L_Foreign fcall

fun exec :: "label \<Rightarrow> conn \<Rightarrow> error + conn" where
  "exec (L_Event i revs) c = conn_handleEvents i revs c"
| "exec (L_Task wr calls) c =
     (case pendingTasks c of [] \<Rightarrow> Inr c | t # ts \<Rightarrow> run_task wr calls t (c\<lparr>pendingTasks := ts\<rparr>))"
| "exec (L_Call a) c = run_api a c"
| "exec (L_Foreign f) c = run_foreign f c"

text \<open>
  What a step asks of its environment: epoll reports registered descriptors only, system calls
  behave as documented, user code makes legal calls.
\<close>

fun legal_task :: "write_result \<Rightarrow> api list \<Rightarrow> ctask \<Rightarrow> conn \<Rightarrow> bool" where
  "legal_task wr calls (Task_Send s) c = (length s \<le> vec_max \<and> wr_ok c (length s) wr)"
| "legal_task wr calls Task_ForceClose c = (state c = kDisconnected \<or> legal_close calls c)"
| "legal_task wr calls Task_StartRead c = (state c \<noteq> kDisconnected)"
| "legal_task wr calls Task_WriteComplete c = legal_calls calls c"
| "legal_task wr calls (Task_HighWater n) c = legal_calls calls c"
| "legal_task wr calls t c = True"

fun legal_label :: "label \<Rightarrow> conn \<Rightarrow> bool" where
  "legal_label (L_Event i revs) c = (polling (chan c) \<and> legal_event i revs c)"
| "legal_label (L_Task wr calls) c =
     (case pendingTasks c of [] \<Rightarrow> True | t # ts \<Rightarrow> legal_task wr calls t (c\<lparr>pendingTasks := ts\<rparr>))"
| "legal_label (L_Call a) c = legal a c"
| "legal_label (L_Foreign f) c = (f = F_Shutdown \<longrightarrow> state c \<noteq> kDisconnected)"

abbreviation legal_trace :: "label list \<Rightarrow> conn \<Rightarrow> bool" where
  "legal_trace \<equiv> legal_fold legal_label exec"

text \<open>A connection as its server sets it up.\<close>

definition conn_start :: "int \<Rightarrow> bool \<Rightarrow> error + conn" where
  "conn_start sockfd writeComplete =
     bindE (conn_new sockfd) (\<lambda>c. connectEstablished True
       (setCloseCallBack (setWriteCompleteCallback writeComplete (setMessageCallback c))))"

lemma conn_start_ok:
  "\<exists>c. conn_start f w = Inr c \<and> conn_inv c \<and> state c = kConnected \<and> taken c = [] \<and>
    wire c = [] \<and> pendingTasks c = [] \<and> \<not> handlingEvents (chan c)"
proof -
  obtain b where b: "buffer_new kInitialSize = Inr b" "buffer_ok b" "contents b = []"
    using contents_buffer_new[of kInitialSize] by (auto simp: kInitialSize_def vec_max_def kCheapPrepend_def)
  let ?ch = "tie ((channel_new f)\<lparr>hasRead := True, hasWrite := True, hasClose := True, hasError := True\<rparr>)"
  have reg: "registered [] ?ch"
    by (simp add: registered_def interest_after_def wanted_def channel_new_def tie_def)
  obtain k where k: "enableRead True ?ch = Inr (with_events (EPOLLIN OR EPOLLPRI) ?ch, k)"
    "registered ([] @ [k]) (with_events (EPOLLIN OR EPOLLPRI) ?ch)"
    using enableRead_ok[OF reg] by (auto simp: channel_new_def tie_def)
  have e: "EPOLLIN OR EPOLLPRI \<noteq> 0" "has (EPOLLIN OR EPOLLPRI) EPOLLPRI"
    "\<not> has (EPOLLIN OR EPOLLPRI) EPOLLOUT"
    by (simp_all add: EPOLLIN_def EPOLLPRI_def EPOLLOUT_def has_def)
  show ?thesis
    using b k e
    by (simp add: conn_start_def conn_new_def connectEstablished_def setMessageCallback_def
        setWriteCompleteCallback_def setCloseCallBack_def on_chan_def
        inv_defs) (simp add: tie_def channel_new_def)
qed

lemma run_foreign_ok:
  assumes inv: "conn_inv c" and est: "state c \<noteq> kConnecting"
    and leg: "legal_label (L_Foreign f) c"
  shows "\<exists>c'. run_foreign f c = Inr c' \<and> conn_inv c' \<and> evolved c c'"
proof (cases f)
  case (F_Send s)
  then show ?thesis using inv conn_inv_queue[OF inv, of "Task_Send s"] by (simp add: send_def)
next
  case F_Shutdown
  then have lv: "live c" using est_live[OF est] leg by simp
  have c1: "conn_inv (c\<lparr>state := kDisconnecting\<rparr>)" "evolved c (c\<lparr>state := kDisconnecting\<rparr>)"
    using conn_inv_disconnecting[OF inv lv] evolved_disconnecting[OF lv] by auto
  show ?thesis
    using F_Shutdown lv conn_inv_queue[OF c1(1), of Task_Shutdown] c1 evolved_trans[OF c1(2)]
    by (auto simp: shutdown_def stateAtomicGetAndSet_def live_def)
next
  case F_ForceClose
  then show ?thesis using forceClose_ok[OF inv est] by simp
next
  case F_StopRead
  then show ?thesis using conn_inv_queue[OF inv] by (simp add: stopRead_def)
next
  case F_StartRead
  then show ?thesis using conn_inv_queue[OF inv] by (simp add: startRead_def)
qed

lemma run_task_ok:
  assumes inv: "conn_inv c" and est: "state c \<noteq> kConnecting"
    and sh: "t = Task_Shutdown \<Longrightarrow> state c \<noteq> kConnected" and leg: "legal_task wr calls t c"
  shows "okE (\<lambda>c'. conn_inv c' \<and> advanced c c') (run_task wr calls t c)"
proof (cases t)
  case Task_WriteComplete
  then have "okE (\<lambda>c'. conn_inv c' \<and> evolved c c') (run_task wr calls t c)"
    using run_calls_ok[OF inv est] leg by simp
  then show ?thesis by (rule okE_weaken) (auto intro: evolved_advanced)
next
  case (Task_HighWater n)
  then have "okE (\<lambda>c'. conn_inv c' \<and> evolved c c') (run_task wr calls t c)"
    using run_calls_ok[OF inv est] leg by simp
  then show ?thesis by (rule okE_weaken) (auto intro: evolved_advanced)
next
  case (Task_Send s)
  then have "okE (\<lambda>c'. conn_inv c' \<and> taken c' = taken c @ accepted wr s c \<and> kept c c')
      (run_task wr calls t c)"
    using sendInLoop_ok[OF inv est] leg by simp
  then show ?thesis by (rule okE_weaken) (auto intro!: evolved_advanced kept_evolved)
next
  case Task_Shutdown
  then show ?thesis using shutdownInLoop_ok[OF inv est] sh by (auto intro: evolved_advanced)
next
  case Task_ForceClose
  show ?thesis
  proof (cases "state c = kDisconnected")
    case True
    then show ?thesis using Task_ForceClose inv by (simp add: forceCloseInLoop_def)
  next
    case False
    then have "okE (\<lambda>c'. conn_inv c' \<and> advanced c c' \<and> state c' = kDisconnected)
        (run_task wr calls t c)"
      using Task_ForceClose leg handleClose_ok[OF inv est_live[OF est]]
      by (simp add: forceCloseInLoop_def)
    then show ?thesis by (rule okE_weaken) auto
  qed
next
  case Task_StopRead
  then show ?thesis using stopReadInLoop_ok[OF inv est] by (auto intro: evolved_advanced)
next
  case Task_StartRead
  then show ?thesis using startReadInLoop_ok[OF inv] est_live[OF est] leg
    by (auto intro: evolved_advanced)
qed

lemma conn_inv_pop:
  "conn_inv c \<Longrightarrow> pendingTasks c = t # ts \<Longrightarrow> conn_inv (c\<lparr>pendingTasks := ts\<rparr>)"
  by (auto simp: inv_defs)

text \<open>The invariant of a whole run.\<close>

definition run_inv :: "conn \<Rightarrow> bool" where
  "run_inv c \<longleftrightarrow> conn_inv c \<and> state c \<noteq> kConnecting \<and> \<not> handlingEvents (chan c)"

lemma run_inv_live: "run_inv c \<Longrightarrow> live c \<longleftrightarrow> polling (chan c)"
  by (auto simp: run_inv_def inv_defs)

lemma progress_est: "progress c c' \<Longrightarrow> state c \<noteq> kConnecting \<Longrightarrow> state c' \<noteq> kConnecting"
  by (cases "state c"; cases "state c'") (auto simp: progress_def less_eq_cstate_def)

lemma exec_ok:
  assumes r: "run_inv c" and leg: "legal_label l c"
  shows "okE (\<lambda>c'. run_inv c' \<and> progress c c') (exec l c)"
proof -
  have inv: "conn_inv c" and est: "state c \<noteq> kConnecting" and nh: "\<not> handlingEvents (chan c)"
    using r by (simp_all add: run_inv_def)
  have fin: "run_inv c' \<and> progress c c'" if "conn_inv c' \<and> advanced c c'" for c'
    using that est nh advanced_est[of c c'] advanced_progress[of c c']
    by (auto simp: run_inv_def) (simp add: advanced_def same_frame_def)
  show ?thesis
  proof (cases l)
    case (L_Event i revs)
    then have "live c" "legal_event i revs c" using leg run_inv_live[OF r] by auto
    from conn_handleEvents_ok[OF inv this] L_Event est show ?thesis
      by (auto simp: run_inv_def elim!: okE_weaken dest: progress_est)
  next
    case (L_Task wr calls)
    show ?thesis
    proof (cases "pendingTasks c")
      case Nil
      then show ?thesis using L_Task r by (simp add: progress_def)
    next
      case (Cons t ts)
      let ?c = "c\<lparr>pendingTasks := ts\<rparr>"
      have c: "conn_inv ?c" by (rule conn_inv_pop[OF inv Cons])
      have "t = Task_Shutdown \<Longrightarrow> state c \<noteq> kConnected" using inv Cons by (auto simp: conn_inv_def)
      then have "okE (\<lambda>c'. conn_inv c' \<and> advanced ?c c') (run_task wr calls t ?c)"
        using run_task_ok[OF c, of t wr calls] est leg L_Task Cons by simp
      moreover have "advanced ?c c' \<Longrightarrow> advanced c c'" for c'
        by (simp add: advanced_def same_frame_def)
      ultimately show ?thesis using L_Task Cons fin by (auto elim!: okE_weaken)
    qed
  next
    case (L_Call a)
    then have "okE (\<lambda>c'. conn_inv c' \<and> evolved c c') (exec l c)"
      using run_api_ok[OF inv est] leg by simp
    then show ?thesis by (rule okE_weaken) (use fin evolved_advanced in blast)
  next
    case (L_Foreign f)
    then obtain c' where "exec l c = Inr c'" "conn_inv c'" "evolved c c'"
      using run_foreign_ok[OF inv est] leg by auto
    then show ?thesis using fin evolved_advanced by simp
  qed
qed

lemma progress_refl: "progress c c"
  by (simp add: progress_def)

interpretation run: safe_steps exec legal_label run_inv progress
  by unfold_locales (auto intro: exec_ok progress_refl progress_trans)

section \<open>Properties\<close>


text \<open>
  The definitions a concrete run unfolds. In \<open>demo_trace\<close> a message is written whole, the user shuts down, a queued write-complete task runs with an empty
  callback, and the peer closes.
\<close>

lemmas conn_eval =
  conn_start_def conn_new_def buffer_new_def vec_resize_def vec_max_def connectEstablished_def
  setMessageCallback_def setWriteCompleteCallback_def setCloseCallBack_def on_chan_def enableRead_def enableWrite_def disableRead_def disableWrite_def
  disableAll_def loop_removeChannel_def loop_updateChannel_def poller_updateChannel_def
  channel_new_def tie_def isNoneEvents_def isWriting_def isReading_def has_def setRevents_def
  upd_chan_def EPOLLIN_def EPOLLPRI_def EPOLLOUT_def EPOLLERR_def EPOLLHUP_def EPOLLRDHUP_def
  kCheapPrepend_def kInitialSize_def readableBytes_def writableBytes_def prependableBytes_def
  sz_add_def sz_sub_def send_def sendInLoop_def queue_task_def shutdown_def shutdownInLoop_def
  stateAtomicGetAndSet_def wr_ok_def legal_event_def reported_ok_def dispatch_def wantsClose_def
  wantsError_def wantsRead_def wantsWrite_def conn_handleEvents_def handleEvents_def
  handleEventsWithGuard_def whenE_def handleRead_def handleWrite_def handleClose_def user_cb_def
  legal_read_def legal_close_def closing_def readFd_def readv_limit_def extrabuf_size_def
  vec_copy_def disconnected_def connected_def Let_def

definition demo_io :: io where
  "demo_io = \<lparr>rd = Read_Ok [], wres = Write_Err EAGAIN, msgCalls = [], closeCalls = []\<rparr>"

definition demo_trace :: "label list" where
  "demo_trace = [L_Call (Api_Send (Wrote 2) ''hi''), L_Call Api_Shutdown,
     L_Task (Write_Err EAGAIN) [], L_Event demo_io EPOLLIN]"




text \<open>The two parts of a message: what the first \<open>write\<close> takes and what is buffered.\<close>

definition sent_now :: "conn \<Rightarrow> write_result \<Rightarrow> string \<Rightarrow> string" where
  "sent_now c wr data =
     (if isWriting (chan c) then [] else case wr of Wrote n \<Rightarrow> take n data | Write_Err e \<Rightarrow> [])"

definition left_over :: "conn \<Rightarrow> write_result \<Rightarrow> string \<Rightarrow> string" where
  "left_over c wr data =
     (if isWriting (chan c) then data
      else case wr of
        Wrote n \<Rightarrow> drop n data
      | Write_Err e \<Rightarrow> if e = EPIPE \<or> e = ECONNRESET then [] else data)"

definition expected_tasks :: "conn \<Rightarrow> write_result \<Rightarrow> string \<Rightarrow> ctask list" where
  "expected_tasks c wr data =
     (let old = length (contents (outputBuffer c)); new = old + length (left_over c wr data) in
      (if \<not> isWriting (chan c) \<and> wr = Wrote (length data) \<and> hasWriteCompleteCb c
       then [Task_WriteComplete] else []) @
      (if hasHighWaterCb c \<and> old < highWaterMark c \<and> highWaterMark c \<le> new
       then [Task_HighWater new] else []))"

text \<open>The part of \<open>sendInLoop\<close> after the write, for a message that is not given up.\<close>

lemma send_rest_outcome:
  assumes inv: "buffer_ok (outputBuffer c)" "registered (ctls c) (chan c)"
    and n: "n \<le> length data" and len: "length data \<le> vec_max"
  shows "okE (\<lambda>c'. wire c' = wire c \<and> contents (outputBuffer c') = contents (outputBuffer c) @ drop n data \<and>
      pendingTasks c' = pendingTasks c @
        (let old = length (contents (outputBuffer c)); new = old + (length data - n) in
         if n < length data \<and> hasHighWaterCb c \<and> old < highWaterMark c \<and> highWaterMark c \<le> new
         then [Task_HighWater new] else []))
    (send_rest data (n, length data - n, False, c))"
proof (cases "n < length data")
  case False
  then show ?thesis using n by (simp add: send_rest_def Let_def)
next
  case True
  let ?c2 = "c\<lparr>taken := taken c @ data\<rparr>"
  let ?old = "length (contents (outputBuffer c))" let ?new = "?old + (length data - n)"
  have len': "length (drop n data) \<le> vec_max" using len by simp
  have tk: "take (length data - n) (drop n data) = drop n data" by simp
  have "?old + (length data - n) < 2 ^ 64"
    using buffer_contents_bound[OF inv(1)] len vec_max_lt by simp
  then have new: "sz_add (readableBytes (outputBuffer c)) (length data - n) = ?new"
    using length_contents[OF inv(1)] by (simp add: sz_add_small)
  let ?c3 = "if hasHighWaterCb c \<and> ?old < highWaterMark c \<and> highWaterMark c \<le> ?new
    then queue_task (Task_HighWater ?new) ?c2 else ?c2"
  have eq: "send_rest data (n, length data - n, False, c) =
      bindE (append_buf (drop n data) (outputBuffer ?c3)) (\<lambda>ob.
        on_chan (enableWrite True) (?c3\<lparr>outputBuffer := ob\<rparr>))"
    using True length_contents[OF inv(1)] by (simp add: send_rest_def Let_def new tk)
  have "buffer_ok (outputBuffer ?c3)" "registered (ctls ?c3) (chan ?c3)"
    using inv by (simp_all add: queue_task_def)
  from buffer_rest[OF this len'] show ?thesis
    unfolding eq by (rule okE_weaken) (use True in \<open>auto simp: queue_task_def Let_def\<close>)
qed

text \<open>The same for all of \<open>sendInLoop\<close>: first when nothing is written, then after a write.\<close>

definition send_parts :: "conn \<Rightarrow> write_result \<Rightarrow> string \<Rightarrow> conn \<Rightarrow> bool" where
  "send_parts c wr data c' \<longleftrightarrow> wire c' = wire c @ sent_now c wr data \<and>
     contents (outputBuffer c') = contents (outputBuffer c) @ left_over c wr data \<and>
     pendingTasks c' = pendingTasks c @ expected_tasks c wr data"

lemma send_unwritten:
  assumes inv: "conn_inv c" and lv: "live c" and len: "length data \<le> vec_max"
    and w: "isWriting (chan c) \<or> (\<exists>e. wr = Write_Err e \<and> e \<noteq> EPIPE \<and> e \<noteq> ECONNRESET)"
  shows "okE (send_parts c wr data) (sendInLoop True wr data c)"
proof -
  note D = conn_invD[OF inv]
  have nd: "state c \<noteq> kDisconnected" using lv by (auto simp: live_def)
  have "\<not> isWriting (chan c) \<Longrightarrow> readableBytes (outputBuffer c) = 0"
    using D(9)[OF lv] length_contents[OF D(2)] by simp
  then have "sendInLoop True wr data c = send_rest data (0, length data - 0, False, c)"
    using nd w by (auto simp: sendInLoop_def send_rest_def)
  with send_rest_outcome[OF D(2,3) _ len, of 0] w show ?thesis
    by (auto simp: send_parts_def sent_now_def left_over_def expected_tasks_def Let_def elim!: okE_weaken)
qed

lemma send_written:
  assumes inv: "conn_inv c" and lv: "live c" and len: "length data \<le> vec_max"
    and nw: "\<not> isWriting (chan c)" and n: "n \<le> length data"
  shows "okE (send_parts c (Wrote n) data) (sendInLoop True (Wrote n) data c)"
proof -
  note D = conn_invD[OF inv]
  have nd: "state c \<noteq> kDisconnected" using lv by (auto simp: live_def)
  have e: "contents (outputBuffer c) = []" using D(9)[OF lv] nw by simp
  then have rb: "readableBytes (outputBuffer c) = 0" using length_contents[OF D(2)] by simp
  have sub: "sz_sub (length data) n = length data - n" using len vec_max_lt n by (simp add: sz_sub_small)
  let ?c1 = "c\<lparr>wire := wire c @ take n data\<rparr>"
  let ?c2 = "if length data - n = 0 \<and> hasWriteCompleteCb ?c1 then queue_task Task_WriteComplete ?c1 else ?c1"
  have eq: "sendInLoop True (Wrote n) data c = send_rest data (n, length data - n, False, ?c2)"
    using nw rb nd sub by (simp add: sendInLoop_def send_rest_def Let_def)
  have "buffer_ok (outputBuffer ?c2)" "registered (ctls ?c2) (chan ?c2)"
    using D(2,3) by (simp_all add: queue_task_def)
  from send_rest_outcome[OF this n len] show ?thesis
    unfolding eq
    by (rule okE_weaken)
       (use n nw e in \<open>auto simp: send_parts_def sent_now_def left_over_def expected_tasks_def Let_def queue_task_def\<close>)
qed

lemma send_parts_ok:
  assumes inv: "conn_inv c" and lv: "live c" and len: "length data \<le> vec_max" and wr: "wr_ok c (length data) wr"
  shows "okE (send_parts c wr data) (sendInLoop True wr data c)"
proof (cases "isWriting (chan c)")
  case True
  then show ?thesis using send_unwritten[OF inv lv len] by simp
next
  case nw: False
  show ?thesis
  proof (cases wr)
    case (Wrote n)
    then show ?thesis using send_written[OF inv lv len nw, of n] wr by (simp add: wr_ok_def)
  next
    case (Write_Err er)
    note D = conn_invD[OF inv]
    have "readableBytes (outputBuffer c) = 0" using D(9)[OF lv] nw length_contents[OF D(2)] by simp
    then show ?thesis
      using send_unwritten[OF inv lv len, of wr] Write_Err nw lv
      by (cases "er = EPIPE \<or> er = ECONNRESET")
         (auto simp: sendInLoop_def send_parts_def sent_now_def left_over_def expected_tasks_def live_def Let_def)
  qed
qed

text \<open>
  C11: What a send does, on every branch. On an established connection \<open>sendInLoop\<close> writes
  directly only when nothing is waiting; what the kernel did not take is appended to the output
  buffer; a fatal error drops the message; a message written whole queues the write-complete
  callback; and the high-water callback is queued exactly when this send makes the buffer cross the
  mark from below, with the new size.
\<close>

theorem sendInLoop_outcome:
  assumes inv: "conn_inv c" and lv: "live c"
    and len: "length data \<le> vec_max" and wr: "wr_ok c (length data) wr"
  shows "sendInLoop True wr data c = Inl Length_Error \<or>
    (\<exists>c'. sendInLoop True wr data c = Inr c' \<and>
      wire c' = wire c @ sent_now c wr data \<and>
      contents (outputBuffer c') = contents (outputBuffer c) @ left_over c wr data \<and>
      pendingTasks c' = pendingTasks c @ expected_tasks c wr data \<and> state c' = state c \<and>
      (isWriting (chan c') \<longleftrightarrow> contents (outputBuffer c') \<noteq> []))"
proof -
  have nd: "state c \<noteq> kConnecting" using lv by (auto simp: live_def)
  have I: "okE (\<lambda>c'. conn_inv c' \<and> taken c' = taken c @ accepted wr data c \<and> kept c c')
      (sendInLoop True wr data c)" by (rule sendInLoop_ok[OF inv nd len wr])
  have "conn_inv c' \<and> kept c c' \<Longrightarrow> state c' = state c \<and>
      (isWriting (chan c') \<longleftrightarrow> contents (outputBuffer c') \<noteq> [])" for c'
    using lv conn_invD(9)[of c'] by (auto simp: kept_def live_def)
  then show ?thesis using send_parts_ok[OF inv lv len wr] I unfolding okE_iff by (auto simp: send_parts_def)
qed

lemma conn_inv_highwater: "conn_inv c \<Longrightarrow> conn_inv (setHighWaterMarkCallback m c)"
  by (simp add: inv_defs setHighWaterMarkCallback_def)

lemma sendInLoop_outcome_witness:
  "\<exists>c c'. sendInLoop True (Wrote 1) ''hello'' c = Inr c' \<and> wire c' = ''h'' \<and>
    contents (outputBuffer c') = ''ello'' \<and> pendingTasks c' = [Task_HighWater 4] \<and>
    isWriting (chan c')"
proof -
  obtain c0 where c0: "conn_start 7 True = Inr c0" "conn_inv c0" "state c0 = kConnected"
    using conn_start_ok by blast
  let ?c = "setHighWaterMarkCallback 3 c0"
  have ob: "outputBuffer c0 = \<lparr>bytes = replicate 1032 (CHR 0x00), readerIndex = 8, writerIndex = 8\<rparr>"
    and w: "\<not> isWriting (chan c0)" "wire c0 = []" "pendingTasks c0 = []" "\<not> wrShut c0"
    using c0(1) by (auto simp: conn_eval)
  note D = conn_invD[OF c0(2)]
  have e: "contents (outputBuffer c0) = []" "readableBytes (outputBuffer c0) = 0"
    using D(9) length_contents[OF D(2)] c0(3) w(1) by (simp_all add: live_def)
  have "room (outputBuffer c0) (length ''ello'')"
    by (simp add: room_def ob vec_max_def)
  then obtain b where b: "append_buf ''ello'' (outputBuffer c0) = Inr b"
    using append_fits[OF D(2)] by blast
  obtain ch k where k: "enableWrite True (chan c0) = Inr (ch, k)"
    using enableWrite_ok[OF D(3)] by auto
  have "sendInLoop True (Wrote 1) ''hello'' ?c \<noteq> Inl Length_Error"
    using b k w e(2) c0(3)
    by (simp add: sendInLoop_def setHighWaterMarkCallback_def Let_def queue_task_def on_chan_def
        sz_sub_def)
  then have r: "wire ?c = []" "pendingTasks ?c = []" "\<not> isWriting (chan ?c)" "hasHighWaterCb ?c"
      "highWaterMark ?c = 3" "wr_ok ?c (length ''hello'') (Wrote 1)" "contents (outputBuffer ?c) = []"
      "sendInLoop True (Wrote 1) ''hello'' ?c \<noteq> Inl Length_Error"
    using w e(1) by (simp_all add: setHighWaterMarkCallback_def wr_ok_def)
  have lv: "live ?c" "length ''hello'' \<le> vec_max" "wr_ok ?c (length ''hello'') (Wrote 1)"
    using c0(3) r(6) by (simp_all add: live_def setHighWaterMarkCallback_def vec_max_def)
  show ?thesis
    using sendInLoop_outcome[OF conn_inv_highwater[OF c0(2)] lv] r
    by (auto simp: sent_now_def left_over_def expected_tasks_def eval_nat_numeral)
qed

text \<open>One EPOLLOUT of a connection that has something to write.\<close>

lemma drain_step:
  assumes "conn_inv c" and "live c" and "\<not> wrShut c" and "contents (outputBuffer c) \<noteq> []"
    and "n \<le> length (contents (outputBuffer c))"
  obtains c1 where "handleWrite (Wrote n) c = Inr c1" "conn_inv c1" "live c1" "state c1 = state c"
    "wire c1 = wire c @ take n (contents (outputBuffer c))" "contents (outputBuffer c1) = drop n (contents (outputBuffer c))"
    "n = length (contents (outputBuffer c)) \<and> state c = kDisconnecting \<longrightarrow> wrShut c1"
    "isWriting (chan c1) \<longleftrightarrow> contents (outputBuffer c1) \<noteq> []"
proof -
  have w: "isWriting (chan c)" using conn_invD(9)[OF assms(1,2)] assms(4) by simp
  have "wr_ok c (length (contents (outputBuffer c))) (Wrote n)" using assms(3,5) by (simp add: wr_ok_def)
  from handleWrite_ok[OF assms(1,2) w this] obtain c1 where
    c1: "handleWrite (Wrote n) c = Inr c1" "conn_inv c1" "state c1 = state c"
      "wire c1 = wire c @ take n (contents (outputBuffer c))" "contents (outputBuffer c1) = drop n (contents (outputBuffer c))"
      "n = length (contents (outputBuffer c)) \<and> state c = kDisconnecting \<longrightarrow> wrShut c1" by auto
  have lv: "live c1" using c1(3) assms(2) by (simp add: live_def)
  then show thesis using that c1 conn_invD(9)[OF c1(2) lv] by blast
qed

lemma last_nonzero_sum: "ns \<noteq> [] \<Longrightarrow> last ns \<noteq> 0 \<Longrightarrow> sum_list ns \<noteq> (0 :: nat)"
  by (metis last_in_set sum_list_eq_0_iff)

text \<open>
  C7: A buffered output drains and then the shutdown happens. Whatever positive or zero amounts the
  kernel takes at each EPOLLOUT, once they add up to what was waiting, a live connection has put
  exactly those bytes on the wire in order, its output buffer is empty, it no longer asks for
  EPOLLOUT, and, if it is disconnecting, it has shut down its sending side.
\<close>

theorem output_drains:
  assumes "conn_inv c" and "live c" and "\<not> wrShut c" and "ns \<noteq> []"
    and "sum_list ns = length (contents (outputBuffer c))"
    and "last ns \<noteq> 0"
  shows "\<exists>c'. foldE handleWrite (map Wrote ns) c = Inr c' \<and>
    wire c' = wire c @ contents (outputBuffer c) \<and> contents (outputBuffer c') = [] \<and>
    \<not> isWriting (chan c') \<and> state c' = state c \<and> (state c = kDisconnecting \<longrightarrow> wrShut c')"
  using assms
proof (induction ns arbitrary: c)
  case Nil
  then show ?case by simp
next
  case (Cons n ns)
  let ?out = "contents (outputBuffer c)"
  have n: "n \<le> length ?out" using Cons.prems(5) by simp
  have ne: "?out \<noteq> []" using Cons.prems(5) last_nonzero_sum[OF Cons.prems(4,6)] by auto
  obtain c1 where c1: "handleWrite (Wrote n) c = Inr c1" "conn_inv c1" "live c1" "state c1 = state c"
      "wire c1 = wire c @ take n ?out" "contents (outputBuffer c1) = drop n ?out"
      "n = length ?out \<and> state c = kDisconnecting \<longrightarrow> wrShut c1"
      "isWriting (chan c1) \<longleftrightarrow> contents (outputBuffer c1) \<noteq> []"
    using drain_step[OF Cons.prems(1-3) ne n] by blast
  show ?case
  proof (cases "ns = []")
    case True
    then have "n = length ?out" using Cons.prems(5) by simp
    then show ?thesis using c1 True by simp
  next
    case False
    have s: "sum_list ns = length (contents (outputBuffer c1))" using c1(6) n Cons.prems(5) by simp
    have l: "last ns \<noteq> 0" using Cons.prems(6) False by simp
    have "\<not> wrShut c1" using s conn_invD(10)[OF c1(2)] last_nonzero_sum[OF False l] by auto
    then show ?thesis using Cons.IH[OF c1(2,3) _ False s l] c1 by auto
  qed
qed

text \<open>A connection that has two bytes to write and is closing.\<close>

lemma waiting_conn:
  "\<exists>c. conn_inv c \<and> state c = kDisconnecting \<and> \<not> wrShut c \<and> contents (outputBuffer c) = ''hi'' \<and>
    wire c = []"
proof -
  obtain c0 where c0: "conn_start 7 True = Inr c0" "conn_inv c0" "state c0 = kConnected"
    "wire c0 = []" "taken c0 = []" using conn_start_ok by blast
  have w: "\<not> wrShut c0" using conn_invD(10)[OF c0(2)] c0(3) by auto
  obtain b where b: "outputBuffer c0 = b" "room b (length ''hi'')" "\<not> hasHighWaterCb c0" using c0(1)
    by (auto simp: conn_eval room_def)
  have e: "contents (outputBuffer c0) = []" using conn_invD(4)[OF c0(2)] c0(4,5) by simp
  have "readableBytes (outputBuffer c0) = 0"
    using length_contents[OF conn_invD(2)[OF c0(2)]] e by simp
  obtain b' where b': "append_buf ''hi'' b = Inr b'" "contents b' = ''hi''"
    using append_fits[OF conn_invD(2)[OF c0(2)], of "''hi''"] b e by auto
  have nw: "\<not> isWriting (chan c0)" using conn_invD(9)[OF c0(2)] e c0(3) by (simp add: live_def)
  have wr: "wr_ok c0 (length ''hi'') (Write_Err EAGAIN)" using w by (simp add: wr_ok_def)
  have len: "length ''hi'' \<le> vec_max" by (simp add: vec_max_def)
  obtain k where k: "enableWrite True (chan c0) = Inr (with_events (events (chan c0) OR EPOLLOUT) (chan c0), k)"
    using enableWrite_ok[OF conn_invD(3)[OF c0(2)]] by auto
  obtain c1 where c1: "sendInLoop True (Write_Err EAGAIN) ''hi'' c0 = Inr c1"
    "outputBuffer c1 = b'" "wire c1 = []"
    using nw \<open>readableBytes (outputBuffer c0) = 0\<close> c0(3,4) b b' k
    by (simp add: sendInLoop_def Let_def on_chan_def)
  have "conn_inv c1 \<and> kept c0 c1"
    using okE_Inr[OF sendInLoop_ok[OF c0(2) _ len wr] c1(1)] c0(3) by simp
  then have i: "conn_inv c1" "live c1" "\<not> wrShut c1" using c0(3) w by (auto simp: kept_def live_def)
  show ?thesis
    using conn_inv_disconnecting[OF i(1,2)] i c1 b' by (intro exI[of _ "c1\<lparr>state := kDisconnecting\<rparr>"]) simp
qed

lemma output_drains_witness:
  "\<exists>c c'. contents (outputBuffer c) = ''hi'' \<and> state c = kDisconnecting \<and>
    foldE handleWrite [Wrote 0, Wrote 1, Wrote 1] c = Inr c' \<and> wire c' = ''hi'' \<and> wrShut c'"
proof -
  obtain c where c: "conn_inv c" "state c = kDisconnecting" "\<not> wrShut c"
    "contents (outputBuffer c) = ''hi''" "wire c = []" using waiting_conn by blast
  have "live c" using c(2) by (simp add: live_def)
  from output_drains[OF c(1) this c(3), of "[0, 1, 1]"] c show ?thesis by auto
qed

text \<open>
  Resuming reads on a closed connection revives its channel. After \<open>handleClose\<close> has
  unregistered the descriptor, \<open>startRead\<close> registers it again, since it looks at the wanted events
  and not at the state; the next readable event then fails the assert of \<open>handleRead\<close>, whatever the
  kernel and the user do. (A server that resumes reading when a slow peer has caught up reaches
  this, the queued write-complete callback running after the close.)
\<close>

theorem startRead_after_close:
  assumes "conn_inv c" and "disconnected c"
  shows "\<exists>c'. startRead True c = Inr c' \<and>
    interest_after (ctls c') = Inr (Some (EPOLLIN OR EPOLLPRI)) \<and> disconnected c' \<and>
    conn_handleEvents i EPOLLIN c' = Inl Assert_Failed"
proof -
  have nl: "\<not> live c" using assms(2) by (simp add: live_def disconnected_def)
  then have ev: "events (chan c) = 0" "hasRead (chan c)" using assms(1) by (simp_all add: conn_inv_def)
  then have nr: "\<not> isReading (chan c)" by (simp add: isReading_def)
  have nz: "EPOLLIN OR EPOLLPRI \<noteq> 0" by (simp add: EPOLLIN_def EPOLLPRI_def)
  obtain k where k: "enableRead True (chan c) = Inr (with_events (EPOLLIN OR EPOLLPRI) (chan c), k)"
    "registered (ctls c @ [k]) (with_events (EPOLLIN OR EPOLLPRI) (chan c))"
    using enableRead_ok[OF conn_invD(3)[OF assms(1)]] ev by auto
  let ?c = "c\<lparr>chan := with_events (EPOLLIN OR EPOLLPRI) (chan c), ctls := ctls c @ [k]\<rparr>"
  have s: "startRead True c = Inr ?c" using nr k(1) by (simp add: startRead_def startReadInLoop_def on_chan_def)
  have d: "dispatch (chan (upd_chan (setRevents EPOLLIN) ?c)) = [ReadCb]"
    using ev(2) by (simp add: dispatch_def wantsClose_def wantsError_def wantsRead_def wantsWrite_def
        upd_chan_def setRevents_def has_def EPOLLIN_def EPOLLPRI_def EPOLLOUT_def EPOLLERR_def
        EPOLLHUP_def EPOLLRDHUP_def)
  have "conn_handleEvents i EPOLLIN ?c = Inl Assert_Failed"
    using assms(2) d
    by (simp add: conn_handleEvents_def handleEvents_def conn_owner.guard_eq_dispatch)
       (simp add: handleRead_def upd_chan_def disconnected_def)
  then show ?thesis
    using s k(2) nz assms(2)
    by (intro exI[of _ ?c]) (simp add: registered_def wanted_def disconnected_def)
qed

lemma startRead_after_close_witness:
  "\<exists>c0 c c'. conn_start 7 True = Inr c0 \<and> foldE exec demo_trace c0 = Inr c \<and>
    startRead True c = Inr c' \<and> conn_handleEvents demo_io EPOLLIN c' = Inl Assert_Failed"
proof -
  obtain c0 where c0: "conn_start 7 True = Inr c0" "run_inv c0"
    using conn_start_ok[of 7 True] by (auto simp: run_inv_def)
  then obtain c where r: "foldE exec demo_trace c0 = Inr c" "legal_trace demo_trace c0" "disconnected c"
    by (auto simp: conn_eval demo_trace_def demo_io_def)
  have "conn_inv c" using okE_Inr[OF run.run_ok[OF c0(2) r(2)] r(1)] by (simp add: run_inv_def)
  from startRead_after_close[OF this r(3), of demo_io] c0(1) r(1) show ?thesis by blast
qed

text \<open>A closed connection allocates nothing.\<close>

lemma run_api_closed:
  assumes "state c = kDisconnected"
  shows "run_api a c \<noteq> Inl Length_Error \<and> (run_api a c = Inr c' \<longrightarrow> state c' = kDisconnected)"
  using assms
  by (cases a)
     (auto simp: send_def sendInput_def retrieve_def shutdown_def forceClose_def stopRead_def
       startRead_def stopReadInLoop_def startReadInLoop_def setHighWaterMarkCallback_def on_chan_def
       enableRead_def disableRead_def loop_updateChannel_def poller_updateChannel_def assertE_def
       bindE_eq_Inr)

lemma run_calls_closed:
  "state c = kDisconnected \<Longrightarrow> foldE run_api as c \<noteq> Inl Length_Error"
proof (induction as arbitrary: c)
  case Nil
  then show ?case by simp
next
  case (Cons a as)
  then show ?case using run_api_closed[of c a] by (cases "run_api a c") auto
qed

lemma handleClose_no_length: "handleClose True calls c \<noteq> Inl Length_Error"
  using run_calls_closed
  by (auto simp: handleClose_def assertE_def user_cb_def on_chan_def loop_removeChannel_def
      disableAll_def loop_updateChannel_def poller_updateChannel_def)

text \<open>
  A hang-up with urgent data and reading switched off fails an assert. \<open>disableRead\<close> leaves
  EPOLLPRI wanted, so a report of EPOLLHUP and EPOLLPRI without EPOLLIN is possible; the dispatch then
  runs the close callback and, testing EPOLLPRI next, the read callback, on a connection that
  \<open>handleClose\<close> has just put down.
\<close>

theorem hangup_with_urgent_data:
  assumes "conn_inv c" and "live c" and "legal_close (closeCalls i) (upd_chan (\<lambda>ch. ch\<lparr>handlingEvents := True\<rparr>)
      (upd_chan (setRevents (EPOLLHUP OR EPOLLPRI)) c))"
  shows "conn_handleEvents i (EPOLLHUP OR EPOLLPRI) c = Inl Assert_Failed"
proof -
  let ?c0 = "upd_chan (setRevents (EPOLLHUP OR EPOLLPRI)) c"
  let ?c1 = "upd_chan (\<lambda>ch. ch\<lparr>handlingEvents := True\<rparr>) ?c0"
  have h: "hasRead (chan c)" "hasClose (chan c)" "tied (chan c)"
    using assms(1,2) by (simp_all add: conn_inv_def)
  have d: "dispatch (chan ?c0) = [CloseCb, ReadCb]"
    using h by (simp add: dispatch_def wantsClose_def wantsError_def wantsRead_def wantsWrite_def
        upd_chan_def setRevents_def has_def EPOLLIN_def EPOLLPRI_def EPOLLOUT_def EPOLLERR_def
        EPOLLHUP_def EPOLLRDHUP_def)
  have eq: "conn_handleEvents i (EPOLLHUP OR EPOLLPRI) c =
      bindE (bindE (handleClose True (closeCalls i) ?c1) (\<lambda>c2. bindE (handleRead True i c2) Inr))
        (\<lambda>c'. Inr (upd_chan (\<lambda>ch. ch\<lparr>handlingEvents := False\<rparr>) c'))"
    using d h(3)
    by (simp add: conn_handleEvents_def handleEvents_def conn_owner.guard_eq_dispatch)
       (simp add: upd_chan_def setRevents_def bindE_def cong: sum.case_cong)
  have "okE (\<lambda>c'. conn_inv c' \<and> advanced ?c1 c' \<and> state c' = kDisconnected)
      (handleClose True (closeCalls i) ?c1)"
    using assms by (intro handleClose_ok) (simp_all add: conn_inv_upd, simp add: live_def upd_chan_def)
  moreover have "handleClose True (closeCalls i) ?c1 \<noteq> Inl Length_Error"
    using handleClose_no_length[of "closeCalls i" ?c1] .
  ultimately show ?thesis
    unfolding eq by (cases "handleClose True (closeCalls i) ?c1") (auto simp: handleRead_def)
qed

lemma hangup_with_urgent_data_witness:
  "\<exists>c0 c. conn_start 7 True = Inr c0 \<and> stopRead True c0 = Inr c \<and>
    interest_after (ctls c) = Inr (Some EPOLLPRI) \<and>
    conn_handleEvents demo_io (EPOLLHUP OR EPOLLPRI) c = Inl Assert_Failed"
proof -
  obtain c0 where c0: "conn_start 7 True = Inr c0" "conn_inv c0" "state c0 = kConnected"
    using conn_start_ok by blast
  obtain c where c: "stopRead True c0 = Inr c" "conn_inv c" "state c = state c0"
    using stopReadInLoop_ok[OF c0(2)] c0(3) by (auto simp: stopRead_def)
  have ev: "events (chan c) = EPOLLPRI" using c0(1) c(1)
    by (auto simp: conn_eval stopRead_def stopReadInLoop_def)
  have "live c" using c(3) c0(3) by (simp add: live_def)
  then have "interest_after (ctls c) = Inr (Some EPOLLPRI)"
    using c(2) ev by (simp add: conn_inv_def registered_def wanted_def)
  moreover have "legal_close (closeCalls demo_io) (upd_chan (\<lambda>ch. ch\<lparr>handlingEvents := True\<rparr>)
      (upd_chan (setRevents (EPOLLHUP OR EPOLLPRI)) c))"
    by (simp add: legal_close_def demo_io_def thenP_def split: sum.split)
  ultimately show ?thesis
    using hangup_with_urgent_data[OF c(2) \<open>live c\<close>, of demo_io] c0(1) c(1) by blast
qed

end
