(* ===== verification/Ev_TimerQueue.thy ===== *)
theory Ev_TimerQueue
  imports Ev_Prelude "HOL-Library.Product_Lexorder" "HOL-Library.Multiset"
begin

text \<open>
  \<^verbatim>\<open>tinyev/Timer.h\<close>, \<^verbatim>\<open>tinyev/TimerQueue.h\<close> and \<^verbatim>\<open>tinyev/TimerQueue.cc\<close>: timers live on the heap
  and are known by their address, which is what \<open>addTimer\<close> returns and \<open>cancelTimer\<close> takes. The
  \<open>std::set\<close> of (deadline, address) pairs is a sorted list, the heap a map from addresses to timers, so a
  use after \<open>delete\<close> is visible. Times are nanoseconds; a sum or difference that leaves the range of
  \<open>int64_t\<close> is the error \<open>Signed_Overflow\<close>. What a timer's callback does to the queue is a list of
  \<open>tcall\<close>s; \<open>fired\<close> is a history variable, the timers run so far with the time of the check.
\<close>

section \<open>Timers\<close>

record 'cb timer =
  tm_callback :: "'cb option"
  tm_when :: int
  tm_interval :: int
  tm_repeat :: bool
  tm_canceled :: bool

definition ns_ok :: "int \<Rightarrow> bool" where
  "ns_ok x \<longleftrightarrow> - (2 ^ 63) \<le> x \<and> x < 2 ^ 63"

definition ns_add :: "int \<Rightarrow> int \<Rightarrow> error + int" where
  "ns_add a b = (if ns_ok (a + b) then Inr (a + b) else Inl Signed_Overflow)"

definition ns_sub :: "int \<Rightarrow> int \<Rightarrow> error + int" where
  "ns_sub a b = (if ns_ok (a - b) then Inr (a - b) else Inl Signed_Overflow)"

definition timer_new :: "'cb option \<Rightarrow> int \<Rightarrow> int \<Rightarrow> 'cb timer" where
  "timer_new callback when interval =
     \<lparr>tm_callback = callback, tm_when = when, tm_interval = interval, tm_repeat = (0 < interval),
      tm_canceled = False\<rparr>"

definition timer_expired :: "int \<Rightarrow> 'cb timer \<Rightarrow> bool" where
  "timer_expired now t \<longleftrightarrow> tm_when t \<le> now"

definition timer_restart :: "'cb timer \<Rightarrow> error + 'cb timer" where
  "timer_restart t =
     bindE (assertE (tm_repeat t)) (\<lambda>_.
     bindE (ns_add (tm_when t) (tm_interval t)) (\<lambda>w. Inr (t\<lparr>tm_when := w\<rparr>)))"

definition timer_cancel :: "'cb timer \<Rightarrow> error + 'cb timer" where
  "timer_cancel t = bindE (assertE (\<not> tm_canceled t)) (\<lambda>_. Inr (t\<lparr>tm_canceled := True\<rparr>))"

section \<open>The kernel's timer\<close>

text \<open>
  \<open>durationFromNow\<close> as (\<open>tv_sec\<close>, \<open>tv_nsec\<close>); \<open>now\<close> is its reading of the clock. The division and the
  remainder truncate, and the value is positive.
\<close>

definition durationFromNow :: "int \<Rightarrow> int \<Rightarrow> error + (int \<times> int)" where
  "durationFromNow now when =
     bindE (ns_sub when now) (\<lambda>d.
     let ns = (if d < 1000000 then 1000000 else d) in Inr (ns div 1000000000, ns mod 1000000000))"

section \<open>The queue\<close>

type_synonym entry = "int \<times> nat"

record 'cb timerqueue =
  heap :: "nat \<rightharpoonup> 'cb timer"
  timers :: "entry list"
  armed :: "int option"
  fired :: "(nat \<times> int) list"

definition tq_new :: "'cb timerqueue" where
  "tq_new = \<lparr>heap = Map.empty, timers = [], armed = None, fired = []\<rparr>"

text \<open>Reading and deleting through a pointer; 0 is the null pointer.\<close>

definition deref :: "nat \<Rightarrow> 'cb timerqueue \<Rightarrow> error + 'cb timer" where
  "deref a q =
     (case heap q a of
        Some t \<Rightarrow> Inr t
      | None \<Rightarrow> Inl (if a = 0 then Null_Pointer else Use_After_Free))"

definition tq_delete :: "nat \<Rightarrow> 'cb timerqueue \<Rightarrow> error + 'cb timerqueue" where
  "tq_delete a q =
     (if a = 0 then Inr q
      else case heap q a of
        Some t \<Rightarrow> Inr (q\<lparr>heap := (heap q)(a := None)\<rparr>)
      | None \<Rightarrow> Inl Use_After_Free)"

text \<open>\<open>std::set\<close>: insertion tells whether the element is new; the order is that of pairs.\<close>

definition set_insert :: "entry \<Rightarrow> entry list \<Rightarrow> bool \<times> entry list" where
  "set_insert e l = (if e \<in> set l then (False, l) else (True, insort e l))"

definition set_erase :: "entry \<Rightarrow> entry list \<Rightarrow> entry list" where
  "set_erase e l = remove1 e l"

text \<open>
  \<open>timerfd_settime\<close> is relative; \<open>armed\<close> is the time, on the clock of the queue, at which the
  descriptor becomes readable.
\<close>

definition timerfdSet :: "int \<Rightarrow> int \<Rightarrow> 'cb timerqueue \<Rightarrow> error + 'cb timerqueue" where
  "timerfdSet now when q =
     bindE (durationFromNow now when) (\<lambda>(sec, nsec).
     Inr (q\<lparr>armed := Some (now + (sec * 1000000000 + nsec))\<rparr>))"

definition timerfdRead :: "int \<Rightarrow> 'cb timerqueue \<Rightarrow> 'cb timerqueue" where
  "timerfdRead now q =
     (case armed q of Some d \<Rightarrow> if d \<le> now then q\<lparr>armed := None\<rparr> else q | None \<Rightarrow> q)"

text \<open>
  \<open>addTimer\<close> allocates at once and links the timer in the loop's thread (\<open>addTimerInLoop\<close>); \<open>addr\<close> is
  the address \<open>new\<close> returns. \<open>cancelTimer\<close> does all its work in the loop's thread.
\<close>

definition addTimerAlloc ::
  "nat \<Rightarrow> 'cb option \<Rightarrow> int \<Rightarrow> int \<Rightarrow> 'cb timerqueue \<Rightarrow> 'cb timerqueue" where
  "addTimerAlloc addr cb when interval q =
     q\<lparr>heap := (heap q)(addr \<mapsto> timer_new cb when interval)\<rparr>"

definition addTimerInLoop :: "int \<Rightarrow> int \<Rightarrow> nat \<Rightarrow> 'cb timerqueue \<Rightarrow> error + 'cb timerqueue" where
  "addTimerInLoop now when addr q =
     (let (new, l) = set_insert (when, addr) (timers q) in
      bindE (assertE new) (\<lambda>_.
      let q1 = q\<lparr>timers := l\<rparr> in
      if hd l = (when, addr) then timerfdSet now when q1 else Inr q1))"

definition addTimer ::
  "int \<Rightarrow> nat \<Rightarrow> 'cb option \<Rightarrow> int \<Rightarrow> int \<Rightarrow> 'cb timerqueue \<Rightarrow> error + 'cb timerqueue" where
  "addTimer now addr cb when interval q =
     addTimerInLoop now when addr (addTimerAlloc addr cb when interval q)"

definition cancelTimer :: "nat \<Rightarrow> 'cb timerqueue \<Rightarrow> error + 'cb timerqueue" where
  "cancelTimer addr q =
     bindE (deref addr q) (\<lambda>t.
     bindE (timer_cancel t) (\<lambda>t'.
     let q1 = q\<lparr>heap := (heap q)(addr \<mapsto> t'), timers := set_erase (tm_when t', addr) (timers q)\<rparr> in
     tq_delete addr q1))"

section \<open>The loop's interface\<close>

text \<open>\<open>runAt\<close>, \<open>runAfter\<close> and \<open>runEvery\<close>; \<open>now\<close> is the reading of the clock.\<close>

definition runAt :: "int \<Rightarrow> nat \<Rightarrow> int \<Rightarrow> 'cb option \<Rightarrow> 'cb timerqueue \<Rightarrow> error + 'cb timerqueue" where
  "runAt now addr when cb q = addTimer now addr cb when 0 q"

definition runAfter :: "int \<Rightarrow> nat \<Rightarrow> int \<Rightarrow> 'cb option \<Rightarrow> 'cb timerqueue \<Rightarrow> error + 'cb timerqueue" where
  "runAfter now addr interval cb q =
     bindE (ns_add now interval) (\<lambda>when. runAt now addr when cb q)"

definition runEvery :: "int \<Rightarrow> nat \<Rightarrow> int \<Rightarrow> 'cb option \<Rightarrow> 'cb timerqueue \<Rightarrow> error + 'cb timerqueue" where
  "runEvery now addr interval cb q =
     bindE (ns_add now interval) (\<lambda>when. addTimer now addr cb when interval q)"

text \<open>What a timer's callback may do with the queue.\<close>

datatype 'cb tcall =
    T_RunAt int nat int "'cb option"
  | T_RunAfter int nat int "'cb option"
  | T_RunEvery int nat int "'cb option"
  | T_Cancel nat

fun run_tcall :: "'cb tcall \<Rightarrow> 'cb timerqueue \<Rightarrow> error + 'cb timerqueue" where
  "run_tcall (T_RunAt now addr when cb) q = runAt now addr when cb q"
| "run_tcall (T_RunAfter now addr interval cb) q = runAfter now addr interval cb q"
| "run_tcall (T_RunEvery now addr interval cb) q = runEvery now addr interval cb q"
| "run_tcall (T_Cancel addr) q = cancelTimer addr q"

section \<open>Expiry\<close>

text \<open>The entries below \<open>(now + 1ns, nullptr)\<close>, which leave the set.\<close>

definition getExpired :: "int \<Rightarrow> 'cb timerqueue \<Rightarrow> error + (entry list \<times> 'cb timerqueue)" where
  "getExpired now q =
     bindE (ns_add now 1) (\<lambda>n1.
     let en = (n1, 0) in
     Inr (takeWhile (\<lambda>e. e < en) (timers q),
          q\<lparr>timers := dropWhile (\<lambda>e. e < en) (timers q)\<rparr>))"

text \<open>\<open>acts a\<close> is what the callback of the timer at address \<open>a\<close> does when it runs.\<close>

definition timer_run :: "(nat \<Rightarrow> 'cb tcall list) \<Rightarrow> int \<Rightarrow> nat \<Rightarrow> 'cb timer \<Rightarrow> 'cb timerqueue \<Rightarrow> error + 'cb timerqueue" where
  "timer_run acts now a t q =
     (let q1 = q\<lparr>fired := fired q @ [(a, now)]\<rparr> in
      if tm_callback t \<noteq> None then foldE run_tcall (acts a) q1 else Inr q1)"

text \<open>The body of the loop over the expired entries.\<close>

definition fire_entry :: "(nat \<Rightarrow> 'cb tcall list) \<Rightarrow> int \<Rightarrow> entry \<Rightarrow> 'cb timerqueue \<Rightarrow> error + 'cb timerqueue" where
  "fire_entry acts now e q =
     (let a = snd e in
      bindE (deref a q) (\<lambda>t.
      bindE (assertE (timer_expired now t)) (\<lambda>_.
      bindE (if \<not> tm_canceled t then timer_run acts now a t q else Inr q) (\<lambda>q1.
      bindE (deref a q1) (\<lambda>t1.
      if \<not> tm_canceled t1 \<and> tm_repeat t1 then
        bindE (timer_restart t1) (\<lambda>t2.
        Inr (q1\<lparr>heap := (heap q1)(a \<mapsto> t2),
                timers := snd (set_insert (tm_when t2, a) (timers q1))\<rparr>))
      else tq_delete a q1)))))"

text \<open>\<open>now\<close> and \<open>now2\<close> are the readings of the clock at the start and in the final re-arming.\<close>

definition tq_handleRead ::
  "bool \<Rightarrow> (nat \<Rightarrow> 'cb tcall list) \<Rightarrow> int \<Rightarrow> int \<Rightarrow> 'cb timerqueue \<Rightarrow> error + 'cb timerqueue" where
  "tq_handleRead inL acts now now2 q =
     bindE (assertE inL) (\<lambda>_.
     bindE (getExpired now (timerfdRead now q)) (\<lambda>(es, q1).
     bindE (foldE (fire_entry acts now) es q1) (\<lambda>q2.
     if timers q2 \<noteq> [] then timerfdSet now2 (fst (hd (timers q2))) q2 else Inr q2)))"

definition tq_destroy :: "'cb timerqueue \<Rightarrow> error + 'cb timerqueue" where
  "tq_destroy q = foldE (\<lambda>e. tq_delete (snd e)) (timers q) q"

section \<open>Invariant\<close>

text \<open>
  \<open>rest\<close> are the expired entries that \<open>handleRead\<close> has taken out of the set and not processed yet.
  Every address occurs once, in the set or in \<open>rest\<close>; exactly those addresses are allocated; and the
  key under which a timer is filed is its deadline. Times are in the range of dates up to 2116, so
  their differences do not overflow.
\<close>

definition time_ok :: "int \<Rightarrow> bool" where
  "time_ok x \<longleftrightarrow> 0 \<le> x \<and> x < 2 ^ 62"

definition filed :: "'cb timerqueue \<Rightarrow> entry \<Rightarrow> bool" where
  "filed q e \<longleftrightarrow> time_ok (fst e) \<and> snd e \<noteq> 0 \<and>
     (case heap q (snd e) of None \<Rightarrow> False
      | Some t \<Rightarrow> tm_when t = fst e \<and> \<not> tm_canceled t \<and> tm_repeat t = (0 < tm_interval t))"

definition tq_core :: "entry list \<Rightarrow> 'cb timerqueue \<Rightarrow> bool" where
  "tq_core rest q \<longleftrightarrow> sorted (timers q) \<and> distinct (map snd (timers q @ rest)) \<and>
     (\<forall>e\<in>set (timers q @ rest). filed q e) \<and> dom (heap q) = snd ` set (timers q @ rest)"

text \<open>\<open>T\<close> bounds all readings of the clock so far.\<close>

definition tq_armed :: "int \<Rightarrow> 'cb timerqueue \<Rightarrow> bool" where
  "tq_armed T q \<longleftrightarrow>
     (case timers q of [] \<Rightarrow> True
      | e # es \<Rightarrow> (case armed q of None \<Rightarrow> False | Some d \<Rightarrow> d \<le> max (fst e) (T + 1000000)))"

definition tq_inv :: "int \<Rightarrow> 'cb timerqueue \<Rightarrow> bool" where
  "tq_inv T q \<longleftrightarrow> tq_core [] q \<and> tq_armed T q"

fun legal_tcall :: "int \<Rightarrow> 'cb tcall \<Rightarrow> 'cb timerqueue \<Rightarrow> bool" where
  "legal_tcall T (T_RunAt now a when cb) q =
     (heap q a = None \<and> a \<noteq> 0 \<and> time_ok now \<and> now \<le> T \<and> time_ok when)"
| "legal_tcall T (T_RunAfter now a i cb) q =
     (heap q a = None \<and> a \<noteq> 0 \<and> time_ok now \<and> now \<le> T \<and> time_ok (now + i))"
| "legal_tcall T (T_RunEvery now a i cb) q =
     (heap q a = None \<and> a \<noteq> 0 \<and> time_ok now \<and> now \<le> T \<and> time_ok (now + i))"
| "legal_tcall T (T_Cancel a) q = (a \<in> snd ` set (timers q))"

section \<open>The kernel's timer is set to the deadline\<close>

lemma time_ok_ns: "time_ok x \<Longrightarrow> ns_ok x"
  by (simp add: time_ok_def ns_ok_def)

lemma ns_sub_ok: "time_ok a \<Longrightarrow> time_ok b \<Longrightarrow> ns_sub a b = Inr (a - b)"
  by (simp add: ns_sub_def ns_ok_def time_ok_def)

lemma durationFromNow_ok:
  assumes "time_ok now" and "time_ok when"
  shows "\<exists>sec nsec. durationFromNow now when = Inr (sec, nsec) \<and> 0 \<le> sec \<and> 0 \<le> nsec \<and>
    nsec < 1000000000 \<and> (sec, nsec) \<noteq> (0, 0) \<and> now + (sec * 1000000000 + nsec) = max when (now + 1000000)"
proof -
  define ns where "ns = (if when - now < 1000000 then 1000000 else when - now)"
  have p: "0 < ns" "now + ns = max when (now + 1000000)" by (auto simp: ns_def)
  have d: "ns div 1000000000 * 1000000000 + ns mod 1000000000 = ns" by (rule div_mult_mod_eq)
  have "0 \<le> ns div 1000000000" using p(1) by (simp add: pos_imp_zdiv_nonneg_iff)
  moreover have "0 \<le> ns mod 1000000000" "ns mod 1000000000 < 1000000000" by simp_all
  moreover have "(ns div 1000000000, ns mod 1000000000) \<noteq> (0, 0)" using d p(1) by auto
  moreover have "durationFromNow now when = Inr (ns div 1000000000, ns mod 1000000000)"
    using assms by (simp add: durationFromNow_def ns_sub_ok ns_def Let_def)
  ultimately show ?thesis using p(2) d by auto
qed

lemma timerfdSet_ok:
  assumes "time_ok now" and "time_ok when"
  shows "timerfdSet now when q = Inr (q\<lparr>armed := Some (max when (now + 1000000))\<rparr>)"
  using durationFromNow_ok[OF assms] by (auto simp: timerfdSet_def)

section \<open>Operations keep the invariant\<close>

text \<open>What an operation leaves alone while a batch is being processed.\<close>

definition tq_frame :: "entry list \<Rightarrow> 'cb timerqueue \<Rightarrow> 'cb timerqueue \<Rightarrow> bool" where
  "tq_frame rest q q' \<longleftrightarrow> fired q' = fired q \<and> (\<forall>e\<in>set rest. heap q' (snd e) = heap q (snd e))"

lemma insort_hd: "hd (insort e l) = e \<or> (l \<noteq> [] \<and> hd (insort e l) = hd l \<and> hd l \<le> e)"
  by (cases l) auto

lemma distinct_insort_map: "distinct (map f (insort x l)) \<longleftrightarrow> distinct (map f (x # l))"
proof (rule mset_eq_imp_distinct_iff)
  show "mset (map f (insort x l)) = mset (map f (x # l))" by simp
qed

text \<open>Filing a new entry, or one of the batch again.\<close>

lemma core_insort:
  assumes core: "tq_core rest q" and a: "a \<notin> snd ` set (timers q @ rest)"
    and f: "filed q' (w, a)" and other: "\<And>b. b \<noteq> a \<Longrightarrow> heap q' b = heap q b"
    and tm: "timers q' = insort (w, a) (timers q)"
  shows "tq_core rest q'"
proof -
  have "filed q' e" if "e \<in> set (timers q @ rest)" for e
  proof -
    have "snd e \<noteq> a" using a that by force
    moreover have "filed q e" using core that by (simp add: tq_core_def)
    ultimately show ?thesis using other by (simp add: filed_def)
  qed
  moreover have "dom (heap q') = insert a (snd ` set (timers q @ rest))"
  proof -
    have "heap q' a \<noteq> None" using f by (auto simp: filed_def split: option.splits)
    then have "b \<in> dom (heap q') \<longleftrightarrow> b \<in> insert a (dom (heap q))" for b
      using other[of b] by (cases "b = a") (simp_all add: domIff)
    then show ?thesis using core by (auto simp only: tq_core_def)
  qed
  ultimately show ?thesis
    using core a f
    by (auto simp: tq_core_def tm set_insort_key sorted_insort distinct_insort_map)
qed

lemma core_fresh: "tq_core rest q \<Longrightarrow> heap q a = None \<longleftrightarrow> a \<notin> snd ` set (timers q @ rest)"
  by (metis domIff tq_core_def)

lemma addTimer_ok:
  assumes core: "tq_core rest q" and a: "heap q a = None" "a \<noteq> 0"
    and t: "time_ok now" "now \<le> T" "time_ok when"
  shows "\<exists>q'. addTimer now a cb when i q = Inr q' \<and> tq_core rest q' \<and> tq_frame rest q q' \<and>
    (tq_armed T q \<longrightarrow> tq_armed T q') \<and> timers q' = insort (when, a) (timers q)"
proof -
  let ?l = "insort (when, a) (timers q)"
  let ?q = "q\<lparr>heap := (heap q)(a \<mapsto> timer_new cb when i), timers := ?l\<rparr>"
  let ?q' = "if hd ?l = (when, a) then ?q\<lparr>armed := Some (max when (now + 1000000))\<rparr> else ?q"
  have fresh: "a \<notin> snd ` set (timers q @ rest)" using core_fresh[OF core] a(1) by blast
  then have new: "(when, a) \<notin> set (timers q)" by force
  then have eq: "addTimer now a cb when i q = Inr ?q'"
    using t by (simp add: addTimer_def addTimerInLoop_def addTimerAlloc_def set_insert_def
        timerfdSet_ok)
  have "tq_core rest ?q'"
    by (rule core_insort[OF core fresh, where w = "when"])
       (use t(3) a(2) in \<open>simp_all add: filed_def timer_new_def\<close>)
  moreover have "tq_frame rest q ?q'" using fresh by (auto simp: tq_frame_def)
  moreover have "tq_armed T ?q'" if "tq_armed T q"
  proof (cases "hd ?l = (when, a)")
    case True
    then show ?thesis using t(2) by (cases ?l) (auto simp: tq_armed_def)
  next
    case False
    then show ?thesis using insort_hd[of "(when, a)" "timers q"] that
      by (cases ?l; cases "timers q") (auto simp: tq_armed_def)
  qed
  ultimately show ?thesis using eq by auto
qed

lemma sorted_hd_le: "sorted (l :: entry list) \<Longrightarrow> x \<in> set l \<Longrightarrow> fst (hd l) \<le> fst x"
  by (cases l) (auto simp: less_eq_prod_def)

lemma core_inj: "tq_core rest q \<Longrightarrow> inj_on snd (set (timers q @ rest))"
  by (simp only: tq_core_def distinct_map)

lemma core_distinct: "tq_core rest q \<Longrightarrow> distinct (timers q @ rest)"
  by (simp only: tq_core_def distinct_map)

text \<open>Taking an entry out and freeing its timer.\<close>

lemma core_remove:
  assumes core: "tq_core rest q" and e: "(w, a) \<in> set (timers q)"
    and other: "\<And>b. heap q' b = (if b = a then None else heap q b)"
    and tm: "timers q' = remove1 (w, a) (timers q)"
  shows "tq_core rest q'"
proof -
  have d: "distinct (timers q)" using core_distinct[OF core] by simp
  have uniq: "e' = (w, a)" if "e' \<in> set (timers q @ rest)" "snd e' = a" for e'
    using inj_onD[OF core_inj[OF core], of e' "(w, a)"] that e by simp
  have nr: "(w, a) \<notin> set rest" using core_distinct[OF core] e by auto
  have set': "set (timers q' @ rest) = set (timers q @ rest) - {(w, a)}"
    using d nr by (simp add: tm) blast
  have "filed q' e'" if "e' \<in> set (timers q' @ rest)" for e'
  proof -
    have m: "e' \<in> set (timers q @ rest)" "e' \<noteq> (w, a)" using that set' by auto
    then have "snd e' \<noteq> a" using uniq by blast
    moreover have "filed q e'" using core m(1) by (simp only: tq_core_def)
    ultimately show ?thesis by (simp add: filed_def other)
  qed
  moreover have "dom (heap q') = snd ` set (timers q' @ rest)"
  proof -
    have "dom (heap q') = dom (heap q) - {a}" by (auto simp: other split: if_splits)
    also have "\<dots> = snd ` set (timers q @ rest) - {a}" using core by (simp only: tq_core_def)
    also have "\<dots> = snd ` (set (timers q @ rest) - {(w, a)})"
      using inj_on_image_set_diff[OF core_inj[OF core], of "set (timers q @ rest)" "{(w, a)}"] e
      by simp
    finally show ?thesis by (simp only: set')
  qed
  moreover have "sorted (timers q')" using core by (simp add: tq_core_def tm sorted_remove1)
  moreover have "distinct (map snd (timers q' @ rest))"
    using core_distinct[OF core] core_inj[OF core] set'
    by (simp only: distinct_map) (auto simp: tm intro: inj_on_subset)
  ultimately show ?thesis by (simp only: tq_core_def) blast
qed

lemma cancelTimer_ok:
  assumes core: "tq_core rest q" and e: "(w, a) \<in> set (timers q)"
  shows "\<exists>q'. cancelTimer a q = Inr q' \<and> tq_core rest q' \<and> tq_frame rest q q' \<and>
    (tq_armed T q \<longrightarrow> tq_armed T q') \<and> timers q' = remove1 (w, a) (timers q) \<and> heap q' a = None"
proof -
  have "filed q (w, a)" using core e by (simp add: tq_core_def)
  then obtain t where t: "heap q a = Some t" "tm_when t = w" "\<not> tm_canceled t" "a \<noteq> 0"
    by (auto simp: filed_def split: option.splits)
  let ?q = "q\<lparr>heap := (heap q)(a := None), timers := remove1 (w, a) (timers q)\<rparr>"
  have eq: "cancelTimer a q = Inr ?q"
    using t by (simp add: cancelTimer_def deref_def timer_cancel_def set_erase_def tq_delete_def)
  have "tq_core rest ?q" by (rule core_remove[OF core e]) simp_all
  moreover have "tq_frame rest q ?q"
  proof -
    have "snd e' \<noteq> a" if "e' \<in> set rest" for e'
      using inj_onD[OF core_inj[OF core], of e' "(w, a)"] that e core_distinct[OF core] by auto
    then show ?thesis by (simp add: tq_frame_def)
  qed
  moreover have "tq_armed T ?q" if "tq_armed T q"
  proof (cases "remove1 (w, a) (timers q)")
    case Nil
    then show ?thesis by (simp add: tq_armed_def)
  next
    case (Cons e' es)
    then have "e' \<in> set (timers q)" by (metis list.set_intros(1) notin_set_remove1)
    then have "fst (hd (timers q)) \<le> fst e'" "timers q \<noteq> []"
      using core by (auto simp: tq_core_def dest: sorted_hd_le)
    then show ?thesis using that Cons
      by (cases "timers q") (auto simp: tq_armed_def split: option.splits)
  qed
  ultimately show ?thesis using eq by simp
qed

lemma run_tcall_ok:
  assumes core: "tq_core rest q" and leg: "legal_tcall T c q"
  shows "\<exists>q'. run_tcall c q = Inr q' \<and> tq_core rest q' \<and> tq_frame rest q q' \<and>
    (tq_armed T q \<longrightarrow> tq_armed T q')"
proof (cases c)
  case (T_RunAt now a w cb)
  then show ?thesis
    using addTimer_ok[OF core, of a now T w cb 0] leg by (auto simp: runAt_def)
next
  case (T_RunAfter now a i cb)
  then have "ns_add now i = Inr (now + i)" using leg time_ok_ns by (simp add: ns_add_def)
  then show ?thesis
    using addTimer_ok[OF core, of a now T "now + i" cb 0] leg T_RunAfter
    by (auto simp: runAfter_def runAt_def)
next
  case (T_RunEvery now a i cb)
  then have "ns_add now i = Inr (now + i)" using leg time_ok_ns by (simp add: ns_add_def)
  then show ?thesis
    using addTimer_ok[OF core, of a now T "now + i" cb i] leg T_RunEvery
    by (auto simp: runEvery_def)
next
  case (T_Cancel a)
  then obtain w where "(w, a) \<in> set (timers q)" using leg by auto
  from cancelTimer_ok[OF core this] T_Cancel show ?thesis by auto
qed

interpretation tcalls: total_steps run_tcall "legal_tcall T" "tq_core rest" "tq_frame rest"
  for T rest
proof unfold_locales
  show "\<exists>s'. run_tcall x s = Inr s' \<and> tq_core rest s' \<and> tq_frame rest s s'"
    if "tq_core rest s" "legal_tcall T x s" for s x
    using run_tcall_ok[OF that] by blast
qed (simp_all add: tq_frame_def)

section \<open>Processing the expired timers\<close>

lemma core_drop:
  assumes core: "tq_core (e # rest) q"
    and other: "\<And>b. heap q' b = (if b = snd e then None else heap q b)"
    and tm: "timers q' = timers q"
  shows "tq_core rest q'"
proof -
  have na: "snd e \<notin> snd ` set (timers q @ rest)" using core by (auto simp: tq_core_def)
  have "filed q' x" if "x \<in> set (timers q @ rest)" for x
  proof -
    have "snd x \<noteq> snd e" using na that by (metis image_eqI)
    moreover have "filed q x" using core that by (auto simp: tq_core_def)
    ultimately show ?thesis by (simp add: filed_def other)
  qed
  moreover have "dom (heap q') = snd ` set (timers q @ rest)"
  proof -
    have "dom (heap q') = dom (heap q) - {snd e}" by (auto simp: other split: if_splits)
    also have "dom (heap q) = insert (snd e) (snd ` set (timers q @ rest))"
      using core by (simp add: tq_core_def)
    finally show ?thesis using na by simp
  qed
  ultimately show ?thesis using core by (simp add: tq_core_def tm)
qed

definition legal_fire :: "int \<Rightarrow> (nat \<Rightarrow> 'cb tcall list) \<Rightarrow> int \<Rightarrow> entry \<Rightarrow> 'cb timerqueue \<Rightarrow> bool" where
  "legal_fire T acts now e q =
     (legal_fold (legal_tcall T) run_tcall (acts (snd e)) (q\<lparr>fired := fired q @ [(snd e, now)]\<rparr>) \<and>
      (case heap q (snd e) of
         Some t \<Rightarrow> tm_repeat t \<longrightarrow> time_ok (tm_when t + tm_interval t)
       | None \<Rightarrow> True))"

lemma core_fired [simp]:
  "tq_core rest (q\<lparr>fired := x\<rparr>) = tq_core rest q"
  by (simp add: tq_core_def filed_def)

lemma fire_entry_ok:
  assumes core: "tq_core ((w, a) # rest) q" and now: "w \<le> now"
    and leg: "legal_fire T acts now (w, a) q"
  shows "\<exists>q'. fire_entry acts now (w, a) q = Inr q' \<and> tq_core rest q' \<and>
    fired q' = fired q @ [(a, now)] \<and>
    (case heap q a of None \<Rightarrow> False
     | Some t \<Rightarrow> if tm_repeat t then (w + tm_interval t, a) \<in> set (timers q') else heap q' a = None)"
proof -
  have f: "filed q (w, a)" using core by (simp add: tq_core_def)
  then obtain t where t: "heap q a = Some t" "tm_when t = w" "\<not> tm_canceled t" "a \<noteq> 0"
    "tm_repeat t = (0 < tm_interval t)"
    by (auto simp: filed_def split: option.splits)
  let ?q0 = "q\<lparr>fired := fired q @ [(a, now)]\<rparr>"
  have "\<exists>q1. timer_run acts now a t q = Inr q1 \<and> tq_core ((w, a) # rest) q1 \<and>
      tq_frame ((w, a) # rest) ?q0 q1"
  proof (cases "tm_callback t = None")
    case True
    then show ?thesis using core by (simp add: timer_run_def tq_frame_def)
  next
    case False
    then show ?thesis using tcalls.run_total[of "(w, a) # rest" ?q0 T "acts a"] core leg
      by (simp add: timer_run_def legal_fire_def)
  qed
  then obtain q1 where q1: "timer_run acts now a t q = Inr q1" "tq_core ((w, a) # rest) q1"
    "fired q1 = fired q @ [(a, now)]" "heap q1 a = Some t"
    using t(1) by (auto simp: tq_frame_def)
  let ?q2 = "q1\<lparr>heap := (heap q1)(a := None)\<rparr>"
  have drop: "tq_core rest ?q2" by (rule core_drop[OF q1(2)]) simp_all
  have fresh: "a \<notin> snd ` set (timers ?q2 @ rest)" using q1(2) by (auto simp: tq_core_def)
  show ?thesis
  proof (cases "tm_repeat t")
    case False
    then have "fire_entry acts now (w, a) q = Inr ?q2"
      using t q1 now by (simp add: fire_entry_def deref_def timer_expired_def tq_delete_def)
    then show ?thesis using drop q1(3) False t(1) by simp
  next
    case True
    let ?w = "w + tm_interval t"
    have ok: "time_ok ?w" using leg True t by (simp add: legal_fire_def)
    let ?q3 = "q1\<lparr>heap := (heap q1)(a \<mapsto> t\<lparr>tm_when := ?w\<rparr>), timers := insort (?w, a) (timers q1)\<rparr>"
    have "(?w, a) \<notin> set (timers q1)" using fresh by force
    then have eq: "fire_entry acts now (w, a) q = Inr ?q3"
      using t q1 now True ok time_ok_ns[OF ok]
      by (simp add: fire_entry_def deref_def timer_expired_def timer_restart_def ns_add_def
          set_insert_def)
    have "tq_core rest ?q3"
      by (rule core_insort[OF drop fresh, where w = ?w])
         (use ok t True in \<open>simp_all add: filed_def\<close>)
    then show ?thesis using eq q1(3) True t(1) by (simp add: set_insort_key)
  qed
qed

lemma fire_all_ok:
  assumes "tq_core es q" and "\<forall>e\<in>set es. fst e \<le> now"
    and "legal_fold (legal_fire T acts now) (fire_entry acts now) es q"
  shows "\<exists>q'. foldE (fire_entry acts now) es q = Inr q' \<and> tq_core [] q' \<and>
    fired q' = fired q @ map (\<lambda>e. (snd e, now)) es"
  using assms
proof (induction es arbitrary: q)
  case Nil
  then show ?case by simp
next
  case (Cons e es)
  obtain w a where e: "e = (w, a)" by (cases e)
  obtain q1 where q1: "fire_entry acts now e q = Inr q1" "tq_core es q1"
    "fired q1 = fired q @ [(a, now)]"
    using fire_entry_ok[of w a es q now T acts] Cons.prems e by auto
  with Cons.IH[of q1] Cons.prems show ?case by (auto simp: e)
qed

text \<open>The entries that \<open>getExpired\<close> takes are those whose deadline has come.\<close>

lemma below_limit: "e < (now + 1, 0) \<longleftrightarrow> fst (e :: entry) \<le> now"
  by (cases e) (auto simp: less_prod_def)

lemma sorted_takeWhile:
  "sorted (l :: entry list) \<Longrightarrow> takeWhile (\<lambda>e. fst e \<le> now) l = filter (\<lambda>e. fst e \<le> now) l \<and>
   dropWhile (\<lambda>e. fst e \<le> now) l = filter (\<lambda>e. now < fst e) l"
proof (induction l)
  case Nil
  then show ?case by simp
next
  case (Cons x l)
  show ?case
  proof (cases "fst x \<le> now")
    case True
    with Cons show ?thesis by auto
  next
    case False
    then have "\<forall>e\<in>set (x # l). now < fst e" using Cons.prems by (auto simp: less_eq_prod_def)
    then have "filter (\<lambda>e. fst e \<le> now) (x # l) = []" "filter (\<lambda>e. now < fst e) (x # l) = x # l"
      by (auto simp: filter_empty_conv filter_id_conv simp del: filter.simps)
    with False show ?thesis by simp
  qed
qed

lemma mset_split:
  "mset (filter (\<lambda>e. now < fst e) l @ filter (\<lambda>e. fst (e :: entry) \<le> now) l) = mset l"
  by (induction l) auto

definition due :: "int \<Rightarrow> 'cb timerqueue \<Rightarrow> entry list" where
  "due now q = filter (\<lambda>e. fst e \<le> now) (timers q)"

lemma getExpired_ok:
  assumes core: "tq_core [] q" and now: "time_ok now"
  shows "\<exists>q'. getExpired now q = Inr (due now q, q') \<and> tq_core (due now q) q' \<and>
    timers q' = filter (\<lambda>e. now < fst e) (timers q) \<and> fired q' = fired q \<and> heap q' = heap q"
proof -
  have s: "sorted (timers q)" using core by (simp add: tq_core_def)
  let ?q = "q\<lparr>timers := filter (\<lambda>e. now < fst e) (timers q)\<rparr>"
  have n: "ns_add now 1 = Inr (now + 1)" using now by (simp add: ns_add_def ns_ok_def time_ok_def)
  have eq: "getExpired now q = Inr (due now q, ?q)"
    using sorted_takeWhile[OF s, of now] by (simp add: getExpired_def n below_limit due_def)
  have st: "set (timers ?q @ due now q) = set (timers q)" by (auto simp: due_def)
  have "mset (timers ?q @ due now q) = mset (timers q)" using mset_split[of now "timers q"] by (simp add: due_def)
  then have "mset (map snd (timers ?q @ due now q)) = mset (map snd (timers q))"
    by (simp only: mset_map)
  then have "distinct (map snd (timers ?q @ due now q)) = distinct (map snd (timers q))"
    by (rule mset_eq_imp_distinct_iff)
  then have "tq_core (due now q) ?q"
    using core st by (simp add: tq_core_def filed_def sorted_filter[of id, simplified])
  then show ?thesis using eq by simp
qed

section \<open>Whole runs\<close>

datatype 'cb tstep = S_Call "'cb tcall" | S_Expire "nat \<Rightarrow> 'cb tcall list" int int

fun tq_step :: "'cb tstep \<Rightarrow> 'cb timerqueue \<Rightarrow> error + 'cb timerqueue" where
  "tq_step (S_Call c) q = run_tcall c q"
| "tq_step (S_Expire acts now now2) q = tq_handleRead True acts now now2 q"

definition legal_expire ::
  "int \<Rightarrow> (nat \<Rightarrow> 'cb tcall list) \<Rightarrow> int \<Rightarrow> int \<Rightarrow> 'cb timerqueue \<Rightarrow> bool" where
  "legal_expire T acts now now2 q =
     (time_ok now \<and> now \<le> T \<and> time_ok now2 \<and> now2 \<le> T \<and>
      thenP (getExpired now (timerfdRead now q)) (\<lambda>(es, q1).
        legal_fold (legal_fire T acts now) (fire_entry acts now) es q1))"

fun legal_tstep :: "int \<Rightarrow> 'cb tstep \<Rightarrow> 'cb timerqueue \<Rightarrow> bool" where
  "legal_tstep T (S_Call c) q = legal_tcall T c q"
| "legal_tstep T (S_Expire acts now now2) q = legal_expire T acts now now2 q"

lemma timerfdRead_sel [simp]:
  "timers (timerfdRead now q) = timers q" "heap (timerfdRead now q) = heap q"
  "fired (timerfdRead now q) = fired q" "due n (timerfdRead now q) = due n q"
  "tq_core rest (timerfdRead now q) = tq_core rest q"
  by (simp_all add: timerfdRead_def tq_core_def filed_def due_def split: option.split)

lemma core_armed [simp]: "tq_core rest (q\<lparr>armed := d\<rparr>) = tq_core rest q"
  by (simp add: tq_core_def filed_def)

lemma rearm_ok:
  assumes core: "tq_core [] q" and t: "time_ok now" "now \<le> T"
  shows "\<exists>q'. (if timers q \<noteq> [] then timerfdSet now (fst (hd (timers q))) q else Inr q) = Inr q' \<and>
    tq_inv T q' \<and> fired q' = fired q \<and> timers q' = timers q \<and> heap q' = heap q"
proof (cases "timers q")
  case Nil
  then show ?thesis using core by (simp add: tq_inv_def tq_armed_def)
next
  case (Cons e es)
  then have "time_ok (fst e)" using core by (simp add: tq_core_def filed_def)
  then show ?thesis using Cons core t by (simp add: timerfdSet_ok tq_inv_def tq_armed_def)
qed

lemma tq_handleRead_ok:
  assumes inv: "tq_core [] q" and leg: "legal_expire T acts now now2 q"
  shows "\<exists>q'. tq_handleRead True acts now now2 q = Inr q' \<and> tq_inv T q' \<and>
    fired q' = fired q @ map (\<lambda>e. (snd e, now)) (due now q)"
proof -
  have t: "time_ok now" "time_ok now2" "now2 \<le> T" using leg by (simp_all add: legal_expire_def)
  let ?q0 = "timerfdRead now q"
  obtain q1 where q1: "getExpired now ?q0 = Inr (due now q, q1)" "tq_core (due now q) q1"
    "fired q1 = fired q" using getExpired_ok[of ?q0 now] inv t(1) by auto
  have "\<forall>e\<in>set (due now q). fst e \<le> now" by (simp add: due_def)
  then obtain q2 where q2: "foldE (fire_entry acts now) (due now q) q1 = Inr q2" "tq_core [] q2"
    "fired q2 = fired q @ map (\<lambda>e. (snd e, now)) (due now q)"
    using fire_all_ok[OF q1(2), of now T acts] leg q1 by (auto simp: legal_expire_def)
  from rearm_ok[OF q2(2) t(2,3)] q1(1) q2 show ?thesis by (auto simp: tq_handleRead_def)
qed

interpretation tsteps: total_steps tq_step "legal_tstep T" "tq_inv T" "\<lambda>q q'. prefix (fired q) (fired q')"
  for T
proof unfold_locales
  fix q x
  assume inv: "tq_inv T q" and leg: "legal_tstep T x q"
  show "\<exists>q'. tq_step x q = Inr q' \<and> tq_inv T q' \<and> prefix (fired q) (fired q')"
  proof (cases x)
    case (S_Call c)
    then show ?thesis using run_tcall_ok[of "[]" q T c] inv leg
      by (auto simp: tq_inv_def tq_frame_def)
  next
    case (S_Expire acts now now2)
    then show ?thesis using tq_handleRead_ok[of q T acts now now2] inv leg
      by (auto simp: tq_inv_def)
  qed
qed auto

lemma tq_new_inv: "tq_inv T tq_new"
  by (simp add: tq_inv_def tq_core_def tq_armed_def tq_new_def)

section \<open>Properties\<close>


text \<open>A one-shot and a repeating timer; the one-shot's callback cancels the repeating one.\<close>

definition demo_acts :: "nat \<Rightarrow> unit tcall list" where
  "demo_acts a = (if a = 16 then [T_RunAt 200 48 9000000 None, T_Cancel 32] else [])"

definition demo_timers :: "unit tstep list" where
  "demo_timers = [S_Call (T_RunAt 100 16 150 (Some ())), S_Call (T_RunEvery 100 32 5000000 (Some ())),
     S_Expire demo_acts 200 300]"

lemmas tq_eval = runAt_def runAfter_def runEvery_def addTimer_def addTimerInLoop_def
  addTimerAlloc_def set_insert_def set_erase_def timerfdSet_def durationFromNow_def ns_add_def
  ns_sub_def ns_ok_def timer_new_def cancelTimer_def deref_def timer_cancel_def tq_delete_def
  tq_handleRead_def timerfdRead_def getExpired_def fire_entry_def timer_run_def timer_expired_def
  timer_restart_def legal_expire_def legal_fire_def time_ok_def tq_new_def less_eq_prod_def
  less_prod_def Let_def


text \<open>
  C25: An expiry runs exactly the timers that are due, each once, the earliest first, none before its
  deadline, and whatever their callbacks add or cancel among the pending timers.
\<close>

theorem expiry_runs_due:
  assumes "tq_inv T0 q" and "legal_expire T acts now now2 q"
  shows "\<exists>q'. tq_handleRead True acts now now2 q = Inr q' \<and> tq_inv T q' \<and>
    fired q' = fired q @ map (\<lambda>(w, a). (a, now)) (filter (\<lambda>(w, a). w \<le> now) (timers q)) \<and>
    sorted (filter (\<lambda>(w, a). w \<le> now) (timers q))"
proof -
  have core: "tq_core [] q" using assms(1) by (simp add: tq_inv_def)
  have "map (\<lambda>(w, a). (a, now)) (filter (\<lambda>(w, a). w \<le> now) (timers q)) =
      map (\<lambda>e. (snd e, now)) (due now q)"
    by (simp add: due_def case_prod_unfold)
  moreover have "sorted (filter (\<lambda>(w, a). w \<le> now) (timers q))"
    using core by (simp add: tq_core_def sorted_filter[of id, simplified])
  ultimately show ?thesis using tq_handleRead_ok[OF core assms(2)] by simp
qed

definition two_timers :: "unit timerqueue" where
  "two_timers = \<lparr>heap = [16 \<mapsto> timer_new (Some ()) 250 0, 32 \<mapsto> timer_new (Some ()) 5000100 5000000],
     timers = [(250, 16), (5000100, 32)], armed = Some 1000100, fired = []\<rparr>"

lemma two_timers_inv: "tq_inv 100 two_timers"
  by (auto simp: tq_inv_def tq_core_def tq_armed_def two_timers_def filed_def timer_new_def
      time_ok_def less_eq_prod_def)

lemma expiry_runs_due_witness:
  "\<exists>q'. tq_handleRead True demo_acts 2000000 2000000 two_timers = Inr q' \<and>
    fired q' = [(16, 2000000)] \<and> timers q' = [(9000000, 48)]"
proof -
  have l: "legal_expire 2000000 demo_acts 2000000 2000000 two_timers"
    by (simp add: two_timers_def demo_acts_def tq_eval)
  have "\<exists>q'. tq_handleRead True demo_acts 2000000 2000000 two_timers = Inr q' \<and>
      timers q' = [(9000000, 48)]"
    by (simp add: two_timers_def demo_acts_def tq_eval)
  with expiry_runs_due[OF two_timers_inv l] show ?thesis by (auto simp: two_timers_def)
qed

text \<open>An expiry whose callbacks leave the queue alone.\<close>

lemma fire_entry_quiet:
  assumes "heap q a = Some t" and "tm_when t = w" and "w \<le> now" and "\<not> tm_canceled t" and "a \<noteq> 0"
    and "tm_repeat t \<longrightarrow> time_ok (w + tm_interval t)"
  shows "fire_entry (\<lambda>_. []) now (w, a) q =
    Inr (let q1 = q\<lparr>fired := fired q @ [(a, now)]\<rparr> in
      if tm_repeat t
      then q1\<lparr>heap := (heap q)(a \<mapsto> t\<lparr>tm_when := w + tm_interval t\<rparr>),
              timers := snd (set_insert (w + tm_interval t, a) (timers q))\<rparr>
      else q1\<lparr>heap := (heap q)(a := None)\<rparr>)"
  using assms time_ok_ns[of "w + tm_interval t"]
  by (simp add: fire_entry_def deref_def timer_expired_def timer_run_def tq_delete_def
      timer_restart_def ns_add_def Let_def)

lemma fire_quiet:
  assumes "tq_core es q" and "\<forall>e\<in>set es. fst e \<le> now"
    and "\<forall>e\<in>set es. \<forall>t. heap q (snd e) = Some t \<longrightarrow> tm_repeat t \<longrightarrow> time_ok (tm_when t + tm_interval t)"
  shows "\<exists>q'. foldE (fire_entry (\<lambda>_. []) now) es q = Inr q' \<and> tq_core [] q' \<and>
    fired q' = fired q @ map (\<lambda>e. (snd e, now)) es \<and>
    set (timers q') = set (timers q) \<union>
      {(w + tm_interval t, a) | w a t. (w, a) \<in> set es \<and> heap q a = Some t \<and> tm_repeat t}"
  using assms
proof (induction es arbitrary: q)
  case Nil
  then show ?case by simp
next
  case (Cons e es)
  obtain w a where e: "e = (w, a)" by (cases e)
  have leg: "legal_fire 0 (\<lambda>_. []) now (w, a) q"
    using Cons.prems(3) e by (auto simp: legal_fire_def split: option.splits)
  obtain q1 where q1: "fire_entry (\<lambda>_. []) now e q = Inr q1" "tq_core es q1"
    "fired q1 = fired q @ [(a, now)]"
    using fire_entry_ok[OF _ _ leg] Cons.prems(1,2) e by auto
  have f: "filed q (w, a)" using Cons.prems(1) e by (simp add: tq_core_def)
  then obtain t where t: "heap q a = Some t" "tm_when t = w" "\<not> tm_canceled t" "a \<noteq> 0"
    by (auto simp: filed_def split: option.splits)
  have ne: "snd e' \<noteq> a" if "e' \<in> set es" for e' using Cons.prems(1) that e
    by (auto simp: tq_core_def)
  have "tm_repeat t \<longrightarrow> time_ok (w + tm_interval t)" "w \<le> now" using Cons.prems(2,3) t e by auto
  then have eq: "q1 = (let q1 = q\<lparr>fired := fired q @ [(a, now)]\<rparr> in
      if tm_repeat t
      then q1\<lparr>heap := (heap q)(a \<mapsto> t\<lparr>tm_when := w + tm_interval t\<rparr>),
              timers := snd (set_insert (w + tm_interval t, a) (timers q))\<rparr>
      else q1\<lparr>heap := (heap q)(a := None)\<rparr>)"
    using fire_entry_quiet[OF t(1,2) _ t(3,4), of now] q1(1) e by simp
  have heap: "heap q1 b = heap q b" if "b \<noteq> a" for b
    using that by (simp add: eq Let_def)
  have tm: "set (timers q1) = set (timers q) \<union> (if tm_repeat t then {(w + tm_interval t, a)} else {})"
    by (auto simp: eq Let_def set_insert_def set_insort_key)
  have "\<forall>e\<in>set es. \<forall>t. heap q1 (snd e) = Some t \<longrightarrow> tm_repeat t \<longrightarrow> time_ok (tm_when t + tm_interval t)"
    using Cons.prems(3) heap ne by auto
  then obtain q' where q': "foldE (fire_entry (\<lambda>_. []) now) es q1 = Inr q'" "tq_core [] q'"
    "fired q' = fired q1 @ map (\<lambda>e. (snd e, now)) es"
    "set (timers q') = set (timers q1) \<union>
      {(w + tm_interval t, a) | w a t. (w, a) \<in> set es \<and> heap q1 a = Some t \<and> tm_repeat t}"
    using Cons.IH[OF q1(2)] Cons.prems(2) by auto
  have "{(w + tm_interval t, a) | w a t. (w, a) \<in> set es \<and> heap q1 a = Some t \<and> tm_repeat t} =
      {(w + tm_interval t, a) | w a t. (w, a) \<in> set es \<and> heap q a = Some t \<and> tm_repeat t}"
    using heap ne by force
  then show ?case using q1(1,3) q' tm t(1) e by (auto split: if_splits)
qed

text \<open>What ran in such an expiry.\<close>

lemma quiet_expiry:
  assumes core: "tq_core [] q" and now: "time_ok now" "time_ok now2"
    and room: "\<forall>(w, a)\<in>set (timers q). \<forall>t. heap q a = Some t \<longrightarrow> w \<le> now \<longrightarrow> tm_repeat t \<longrightarrow> time_ok (w + tm_interval t)"
  shows "\<exists>q'. tq_handleRead True (\<lambda>_. []) now now2 q = Inr q' \<and> tq_core [] q' \<and>
    fired q' = fired q @ map (\<lambda>e. (snd e, now)) (due now q)"
proof -
  have "tq_core [] (timerfdRead now q)" using core by simp
  then obtain q1 where q1: "getExpired now (timerfdRead now q) = Inr (due now q, q1)"
    "tq_core (due now q) q1" "heap q1 = heap q" "fired q1 = fired q"
    using getExpired_ok[of "timerfdRead now q" now] now(1) by auto
  have "\<forall>e\<in>set (due now q). filed q e" using core by (auto simp: tq_core_def due_def)
  then have "\<forall>e\<in>set (due now q). \<forall>t. heap q1 (snd e) = Some t \<longrightarrow> tm_repeat t \<longrightarrow>
      time_ok (tm_when t + tm_interval t)"
    using room by (fastforce simp: q1(3) filed_def due_def)
  then obtain q2 where q2: "foldE (fire_entry (\<lambda>_. []) now) (due now q) q1 = Inr q2" "tq_core [] q2"
    "fired q2 = fired q @ map (\<lambda>e. (snd e, now)) (due now q)"
    using fire_quiet[OF q1(2), of now] q1(4) by (auto simp: due_def)
  from rearm_ok[OF q2(2) now(2), of now2] q1(1) q2 show ?thesis by (auto simp: tq_handleRead_def tq_inv_def)
qed

text \<open>
  What is left after an expiry whose callbacks leave the queue alone: the timers not yet due,
  untouched, and every repeating timer that ran, filed again at its old deadline plus its interval;
  the one-shot timers that ran are freed.
\<close>

theorem repeating_timers_refiled:
  assumes inv: "tq_inv T0 q" and now: "time_ok now" "now \<le> now2" "time_ok now2"
    and room: "\<forall>(w, a)\<in>set (timers q). \<forall>t. heap q a = Some t \<longrightarrow> time_ok (w + tm_interval t)"
  shows "\<exists>q'. tq_handleRead True (\<lambda>_. []) now now2 q = Inr q' \<and>
    set (timers q') = {(w, a) \<in> set (timers q). now < w} \<union>
      {(w + tm_interval t, a) | w a t.
         (w, a) \<in> set (timers q) \<and> w \<le> now \<and> heap q a = Some t \<and> tm_repeat t} \<and>
    dom (heap q') = snd ` set (timers q')"
proof -
  have core: "tq_core [] (timerfdRead now q)" using inv by (simp add: tq_inv_def)
  obtain q1 where q1: "getExpired now (timerfdRead now q) = Inr (due now q, q1)"
    "tq_core (due now q) q1" "timers q1 = filter (\<lambda>e. now < fst e) (timers q)" "heap q1 = heap q"
    using getExpired_ok[OF core now(1)] by auto
  have "\<forall>e\<in>set (due now q). filed q e" using inv by (auto simp: tq_inv_def tq_core_def due_def)
  then have "\<forall>e\<in>set (due now q). \<forall>t. heap q1 (snd e) = Some t \<longrightarrow> tm_repeat t \<longrightarrow>
      time_ok (tm_when t + tm_interval t)"
    using room by (fastforce simp: q1(4) filed_def due_def)
  then obtain q2 where q2: "foldE (fire_entry (\<lambda>_. []) now) (due now q) q1 = Inr q2" "tq_core [] q2"
    "set (timers q2) = set (timers q1) \<union>
      {(w + tm_interval t, a) | w a t. (w, a) \<in> set (due now q) \<and> heap q1 a = Some t \<and> tm_repeat t}"
    using fire_quiet[OF q1(2), of now] by (auto simp: due_def)
  obtain q' where q': "tq_handleRead True (\<lambda>_. []) now now2 q = Inr q'" "tq_inv now2 q'"
    "timers q' = timers q2"
    using rearm_ok[OF q2(2) now(3), of now2] q1(1) q2(1) by (auto simp: tq_handleRead_def)
  have "set (timers q') = {(w, a) \<in> set (timers q). now < w} \<union>
      {(w + tm_interval t, a) | w a t.
         (w, a) \<in> set (timers q) \<and> w \<le> now \<and> heap q a = Some t \<and> tm_repeat t}"
    unfolding q'(3) q2(3) q1(3,4) by (auto simp: due_def)
  with q' show ?thesis by (simp add: tq_inv_def tq_core_def)
qed

lemma repeating_timers_refiled_witness:
  "\<exists>q'. tq_handleRead True (\<lambda>_. []) 6000000 6000001 two_timers = Inr q' \<and>
    set (timers q') = {(10000100, 32)}"
proof -
  have room: "\<forall>(w, a)\<in>set (timers two_timers). \<forall>t. heap two_timers a = Some t \<longrightarrow>
      time_ok (w + tm_interval t)"
    by (simp add: two_timers_def timer_new_def time_ok_def)
  have A: "{(w + tm_interval t, a) | w a t. (w, a) \<in> set (timers two_timers) \<and> w \<le> 6000000 \<and>
      heap two_timers a = Some t \<and> tm_repeat t} = {(10000100, 32)}"
    by (auto simp: two_timers_def timer_new_def) (rule exI[of _ 5000100], rule exI[of _ 32], simp)
  have B: "{(w, a) \<in> set (timers two_timers). 6000000 < w} = {}"
    by (auto simp: two_timers_def)
  have t: "time_ok 6000000" "6000000 \<le> (6000001::int)" "time_ok 6000001" by (simp_all add: time_ok_def)
  from repeating_timers_refiled[OF two_timers_inv t room, unfolded A B] show ?thesis by auto
qed

text \<open>
  A timer may be cancelled exactly while it is pending. Cancelling a pending timer takes it out
  of the set and frees it; cancelling any other, for instance a one-shot timer that has already run,
  reads freed memory.
\<close>

theorem cancelTimer_pending:
  assumes "tq_inv T q" and "a \<noteq> 0"
  shows "if a \<in> snd ` set (timers q)
    then \<exists>q'. cancelTimer a q = Inr q' \<and> tq_inv T q' \<and> heap q' a = None \<and>
      set (timers q') = {e \<in> set (timers q). snd e \<noteq> a}
    else cancelTimer a q = Inl Use_After_Free"
proof (cases "a \<in> snd ` set (timers q)")
  case True
  then obtain w where w: "(w, a) \<in> set (timers q)" by auto
  have core: "tq_core [] q" using assms(1) by (simp add: tq_inv_def)
  obtain q' where q': "cancelTimer a q = Inr q'" "tq_inv T q'" "heap q' a = None"
    "timers q' = remove1 (w, a) (timers q)"
    using cancelTimer_ok[OF core w, of T] assms(1) by (auto simp: tq_inv_def)
  have uniq: "e = (w, a)" if "e \<in> set (timers q)" "snd e = a" for e
    using inj_onD[OF core_inj[OF core], of e "(w, a)"] that w by simp
  have "distinct (timers q)" using core_distinct[OF core] by simp
  then have "set (timers q') = set (timers q) - {(w, a)}" by (simp add: q'(4))
  moreover have "snd e \<noteq> a \<longleftrightarrow> e \<noteq> (w, a)" if "e \<in> set (timers q)" for e
    using uniq[OF that] by auto
  ultimately have "set (timers q') = {e \<in> set (timers q). snd e \<noteq> a}" by blast
  then show ?thesis using True q' by simp
next
  case False
  then have "heap q a = None" using core_fresh[of "[]" q a] assms(1) by (simp add: tq_inv_def)
  then show ?thesis using False assms(2) by (simp add: cancelTimer_def deref_def)
qed

lemma cancelTimer_pending_witness:
  "\<exists>q'. cancelTimer 32 two_timers = Inr q' \<and> set (timers q') = {(250, 16)}"
  using cancelTimer_pending[OF two_timers_inv, of 32]
  by (auto simp: two_timers_def split: if_splits)

text \<open>
  C27: A callback that cancels its own timer makes the loop read freed memory. \<open>cancelTimer\<close> deletes
  the timer at once, and \<open>handleRead\<close> tests \<open>canceled()\<close> on it after the callback; the flag that is
  meant for this case is freed with the timer.
\<close>

theorem cancel_in_own_callback:
  assumes inv: "tq_inv T q" and now: "time_ok now" and q: "timers q = (w, a) # es" and w: "w \<le> now"
    and t: "heap q a = Some t" "tm_callback t = Some cb" and own: "acts a = [T_Cancel a]"
  shows "tq_handleRead True acts now now2 q = Inl Use_After_Free"
proof -
  have core: "tq_core [] (timerfdRead now q)" using inv by (simp add: tq_inv_def)
  obtain q1 where q1: "getExpired now (timerfdRead now q) = Inr (due now q, q1)" "heap q1 = heap q"
    using getExpired_ok[OF core now] by auto
  have f: "filed q (w, a)" using inv q by (simp add: tq_inv_def tq_core_def)
  then have t': "tm_when t = w" "\<not> tm_canceled t" "a \<noteq> 0" using t(1) by (auto simp: filed_def)
  have "due now q = (w, a) # filter (\<lambda>e. fst e \<le> now) es" using q w by (simp add: due_def)
  moreover have "fire_entry acts now (w, a) q1 = Inl Use_After_Free"
    using t t' own w q1(2)
    by (simp add: fire_entry_def deref_def timer_expired_def timer_run_def cancelTimer_def
        timer_cancel_def tq_delete_def)
  ultimately show ?thesis using q1(1) by (simp add: tq_handleRead_def)
qed

lemma cancel_in_own_callback_witness:
  "tq_handleRead True (\<lambda>a. [T_Cancel a]) 300 301 two_timers = Inl Use_After_Free"
  by (rule cancel_in_own_callback[OF two_timers_inv, where w = 250 and a = 16 and cb = "()"
        and t = "timer_new (Some ()) 250 0" and es = "[(5000100, 32)]"])
     (simp_all add: two_timers_def timer_new_def time_ok_def)

end
