(* ===== verification/Ev_EventLoop.thy ===== *)
theory Ev_EventLoop
  imports Ev_Prelude
begin

text \<open>
  \<^verbatim>\<open>tinyev/EventLoop.h\<close> and \<^verbatim>\<open>tinyev/EventLoop.cc\<close>: the loop of one thread, its queue of tasks and
  the eventfd that wakes it. The loop's thread and any number of other threads interleave: another
  thread's \<open>queueInLoop\<close> or \<open>quit\<close> is two steps, changing the shared state and then writing to the eventfd,
  and \<open>inflight\<close> counts the threads between the two. A task is the list of the calls of the loop it
  makes. \<open>queued\<close> and \<open>started\<close> are history variables, the tasks ever pushed and the tasks taken out
  to run.
\<close>

section \<open>State\<close>

datatype ltask = Task (task_id: nat) (task_acts: "act list")
  and act =
    A_Queue ltask
  | A_Run ltask
  | A_Quit

text \<open>What an active channel's handler does: the wakeup channel's reads the eventfd.\<close>

datatype handler = H_ReadWakeup | H_Act act

text \<open>
  Where the loop's thread is: outside \<open>loop()\<close>, at the loop's test, blocked in \<open>epoll_wait\<close>, running the
  handlers of the active channels, running the swapped-out tasks, or back from \<open>loop()\<close>.
\<close>

datatype phase =
    Before
  | Check
  | Polling
  | Handling "handler list"
  | Doing "act list" "ltask list"
  | Stopped

record evloop =
  phase :: phase
  quit :: bool
  doingPendingTasks :: bool
  pendingTasks :: "ltask list"
  wakeups :: nat
  inflight :: nat
  early :: bool
  queued :: "ltask list"
  started :: "ltask list"

definition loop_new :: evloop where
  "loop_new = \<lparr>phase = Before, quit = False, doingPendingTasks = False, pendingTasks = [],
     wakeups = 0, inflight = 0, early = False, queued = [], started = []\<rparr>"

section \<open>Operations\<close>

text \<open>The eventfd counter; a write that would overflow it fails and leaves it positive.\<close>

definition wakeup :: "evloop \<Rightarrow> evloop" where
  "wakeup s = (if wakeups s < 2 ^ 64 - 2 then s\<lparr>wakeups := wakeups s + 1\<rparr> else s)"

definition loop_handleRead :: "evloop \<Rightarrow> evloop" where
  "loop_handleRead s = s\<lparr>wakeups := 0\<rparr>"

definition push_task :: "ltask \<Rightarrow> evloop \<Rightarrow> evloop" where
  "push_task t s = s\<lparr>pendingTasks := pendingTasks s @ [t], queued := queued s @ [t]\<rparr>"

definition queue_wake :: "bool \<Rightarrow> evloop \<Rightarrow> evloop" where
  "queue_wake inL s = (if \<not> inL \<or> doingPendingTasks s then wakeup s else s)"

definition queueInLoop :: "bool \<Rightarrow> ltask \<Rightarrow> evloop \<Rightarrow> evloop" where
  "queueInLoop inL t s = queue_wake inL (push_task t s)"

definition set_quit :: "evloop \<Rightarrow> error + evloop" where
  "set_quit s = bindE (assertE (\<not> quit s)) (\<lambda>_. Inr (s\<lparr>quit := True\<rparr>))"

definition quit_loop :: "bool \<Rightarrow> evloop \<Rightarrow> error + evloop" where
  "quit_loop inL s = bindE (set_quit s) (\<lambda>s1. Inr (if \<not> inL then wakeup s1 else s1))"

text \<open>
  \<open>runInLoop\<close> gives the calls still to be made by the calling thread: those of the task itself in the
  loop's thread, none elsewhere.
\<close>

definition runInLoop :: "bool \<Rightarrow> ltask \<Rightarrow> evloop \<Rightarrow> act list \<times> evloop" where
  "runInLoop inL t s = (if inL then (task_acts t, s) else ([], queueInLoop inL t s))"

text \<open>One call made in the loop's thread, with the calls it expands to.\<close>

fun exec_act :: "act \<Rightarrow> evloop \<Rightarrow> error + (act list \<times> evloop)" where
  "exec_act (A_Queue t) s = Inr ([], queueInLoop True t s)"
| "exec_act (A_Run t) s = Inr (runInLoop True t s)"
| "exec_act A_Quit s = bindE (quit_loop True s) (\<lambda>s1. Inr ([], s1))"

definition loop_start :: "evloop \<Rightarrow> evloop" where
  "loop_start s = s\<lparr>quit := False, phase := Check\<rparr>"

definition loop_poll :: "act list \<Rightarrow> act list \<Rightarrow> evloop \<Rightarrow> evloop" where
  "loop_poll before after s =
     s\<lparr>phase := Handling (map H_Act before @
       (if 0 < wakeups s then [H_ReadWakeup] else []) @ map H_Act after)\<rparr>"

definition tasks_begin :: "evloop \<Rightarrow> evloop" where
  "tasks_begin s =
     s\<lparr>phase := Doing [] (pendingTasks s), pendingTasks := [], doingPendingTasks := True\<rparr>"

definition tasks_end :: "evloop \<Rightarrow> evloop" where
  "tasks_end s = s\<lparr>phase := Check, doingPendingTasks := False\<rparr>"

text \<open>The next step of the loop's thread inside \<open>loop()\<close>, other than the return of \<open>epoll_wait\<close>.\<close>

definition loop_step :: "evloop \<Rightarrow> error + evloop" where
  "loop_step s =
     (case phase s of
        Check \<Rightarrow> Inr (s\<lparr>phase := (if quit s then Stopped else Polling)\<rparr>)
      | Handling [] \<Rightarrow> Inr (tasks_begin s)
      | Handling (H_ReadWakeup # hs) \<Rightarrow> Inr ((loop_handleRead s)\<lparr>phase := Handling hs\<rparr>)
      | Handling (H_Act a # hs) \<Rightarrow>
          bindE (exec_act a s) (\<lambda>(bs, s1). Inr (s1\<lparr>phase := Handling (map H_Act bs @ hs)\<rparr>))
      | Doing [] [] \<Rightarrow> Inr (tasks_end s)
      | Doing [] (t # ts) \<Rightarrow> Inr (s\<lparr>phase := Doing (task_acts t) ts, started := started s @ [t]\<rparr>)
      | Doing (a # as) ts \<Rightarrow>
          bindE (exec_act a s) (\<lambda>(bs, s1). Inr (s1\<lparr>phase := Doing (bs @ as) ts\<rparr>))
      | _ \<Rightarrow> Inr s)"

section \<open>Steps of all threads\<close>

definition in_loop :: "evloop \<Rightarrow> bool" where
  "in_loop s \<longleftrightarrow> phase s \<noteq> Before \<and> phase s \<noteq> Polling \<and> phase s \<noteq> Stopped"

inductive loop_thread :: "evloop \<Rightarrow> evloop \<Rightarrow> bool" where
  queue_early: "phase s = Before \<Longrightarrow> loop_thread s ((queueInLoop True t s)\<lparr>early := True\<rparr>)"
| quit_early: "phase s = Before \<Longrightarrow> quit_loop True s = Inr s' \<Longrightarrow> loop_thread s s'"
| start: "phase s = Before \<Longrightarrow> loop_thread s (loop_start s)"
| poll: "phase s = Polling \<Longrightarrow> 0 < wakeups s \<or> before @ after \<noteq> [] \<Longrightarrow>
    loop_thread s (loop_poll before after s)"
| step: "in_loop s \<Longrightarrow> loop_step s = Inr s' \<Longrightarrow> loop_thread s s'"

inductive other_thread :: "evloop \<Rightarrow> evloop \<Rightarrow> bool" where
  push: "other_thread s ((push_task t s)\<lparr>inflight := inflight s + 1\<rparr>)"
| quit: "set_quit s = Inr s' \<Longrightarrow> other_thread s (s'\<lparr>inflight := inflight s' + 1\<rparr>)"
| wake: "0 < inflight s \<Longrightarrow> other_thread s ((queue_wake False s)\<lparr>inflight := inflight s - 1\<rparr>)"

inductive_cases loop_threadE: "loop_thread s s'"
inductive_cases other_threadE: "other_thread s s'"

inductive reachable :: "evloop \<Rightarrow> bool" where
  init: "reachable loop_new"
| by_loop: "reachable s \<Longrightarrow> loop_thread s s' \<Longrightarrow> reachable s'"
| by_other: "reachable s \<Longrightarrow> other_thread s s' \<Longrightarrow> reachable s'"

section \<open>Invariant\<close>

text \<open>
  The flag \<open>doingPendingTasks_\<close> is raised exactly while tasks run; every task pushed is started,
  waiting in the swapped-out list, or pending, in that order; and a task or a quit request that the
  loop has not seen when it is about to block has a wakeup in the eventfd or on its way.
\<close>

fun is_doing :: "phase \<Rightarrow> bool" where
  "is_doing (Doing as ts) = True"
| "is_doing p = False"

fun batch :: "phase \<Rightarrow> ltask list" where
  "batch (Doing as ts) = ts"
| "batch p = []"

text \<open>The phases after which the loop will block unless it is woken.\<close>

fun will_block :: "phase \<Rightarrow> bool" where
  "will_block (Handling hs) = False"
| "will_block Stopped = False"
| "will_block p = True"

definition awake :: "evloop \<Rightarrow> bool" where
  "awake s \<longleftrightarrow> 0 < wakeups s \<or> 0 < inflight s"

definition loop_inv :: "evloop \<Rightarrow> bool" where
  "loop_inv s \<longleftrightarrow>
     doingPendingTasks s = is_doing (phase s) \<and>
     queued s = started s @ batch (phase s) @ pendingTasks s \<and>
     (phase s = Polling \<and> quit s \<longrightarrow> awake s) \<and>
     (will_block (phase s) \<and> pendingTasks s \<noteq> [] \<longrightarrow> early s \<or> awake s)"

lemma wakeup_sel [simp]:
  "phase (wakeup s) = phase s" "quit (wakeup s) = quit s" "pendingTasks (wakeup s) = pendingTasks s"
  "doingPendingTasks (wakeup s) = doingPendingTasks s" "inflight (wakeup s) = inflight s"
  "early (wakeup s) = early s" "queued (wakeup s) = queued s" "started (wakeup s) = started s"
  "awake (wakeup s)"
  by (auto simp: wakeup_def awake_def)

lemma queueInLoop_sel [simp]:
  "phase (queueInLoop b t s) = phase s" "quit (queueInLoop b t s) = quit s"
  "pendingTasks (queueInLoop b t s) = pendingTasks s @ [t]"
  "doingPendingTasks (queueInLoop b t s) = doingPendingTasks s"
  "early (queueInLoop b t s) = early s" "queued (queueInLoop b t s) = queued s @ [t]"
  "started (queueInLoop b t s) = started s"
  "awake (queueInLoop b t s) \<longleftrightarrow> \<not> b \<or> doingPendingTasks s \<or> awake s"
  by (simp_all add: queueInLoop_def queue_wake_def push_task_def) (simp add: awake_def)

lemma awake_upd [simp]:
  "awake (s\<lparr>phase := p\<rparr>) = awake s" "awake (s\<lparr>quit := q\<rparr>) = awake s"
  "awake (s\<lparr>started := st\<rparr>) = awake s" "awake (s\<lparr>early := e\<rparr>) = awake s"
  by (simp_all add: awake_def)

lemma loop_invI:
  assumes "loop_inv s" and "phase s' = phase s" and "doingPendingTasks s' = doingPendingTasks s"
    and "queued s' = queued s @ ts" and "pendingTasks s' = pendingTasks s @ ts"
    and "started s' = started s" and "early s \<longrightarrow> early s'"
    and "awake s \<longrightarrow> awake s'" and "phase s = Polling \<Longrightarrow> quit s' \<Longrightarrow> quit s \<or> awake s'"
    and "ts \<noteq> [] \<Longrightarrow> will_block (phase s) \<Longrightarrow> early s' \<or> awake s'"
  shows "loop_inv s'"
  using assms by (cases "ts = []") (auto simp: loop_inv_def)

lemma exec_act_inv:
  assumes inv: "loop_inv s" and ex: "exec_act a s = Inr (bs, s')"
    and ph: "will_block (phase s) \<Longrightarrow> is_doing (phase s)"
  shows "phase s' = phase s \<and> loop_inv s'"
proof (cases a)
  case (A_Queue t)
  have "doingPendingTasks s = is_doing (phase s)" using inv by (simp add: loop_inv_def)
  then have "loop_inv (queueInLoop True t s)"
    using ph by - (rule loop_invI[OF inv, where ts = "[t]"], auto)
  then show ?thesis using A_Queue ex by auto
next
  case (A_Run t)
  then show ?thesis using ex inv by (simp add: runInLoop_def)
next
  case A_Quit
  then have s': "s' = s\<lparr>quit := True\<rparr>" using ex
    by (auto simp: quit_loop_def set_quit_def bindE_eq_Inr)
  have "phase s \<noteq> Polling" using ph by auto
  then show ?thesis using inv by (simp add: s' loop_inv_def)
qed

lemma loop_inv_phase:
  "loop_inv s \<Longrightarrow> phase s = Doing as ts \<Longrightarrow> loop_inv (s\<lparr>phase := Doing as' ts\<rparr>)"
  "loop_inv s \<Longrightarrow> phase s = Handling hs \<Longrightarrow> loop_inv (s\<lparr>phase := Handling hs'\<rparr>)"
  by (simp_all add: loop_inv_def)

lemma loop_step_inv:
  assumes inv: "loop_inv s" and st: "loop_step s = Inr s'"
  shows "loop_inv s'"
proof (cases "phase s")
  case Check
  then have "s' = s\<lparr>phase := if quit s then Stopped else Polling\<rparr>" using st by (simp add: loop_step_def)
  then show ?thesis using inv Check by (simp add: loop_inv_def)
next
  case (Handling hs)
  show ?thesis
  proof (cases hs)
    case Nil
    then have "s' = tasks_begin s" using st Handling by (simp add: loop_step_def)
    then show ?thesis using inv Handling by (simp add: loop_inv_def tasks_begin_def)
  next
    case (Cons h hs')
    show ?thesis
    proof (cases h)
      case H_ReadWakeup
      then have "s' = (loop_handleRead s)\<lparr>phase := Handling hs'\<rparr>"
        using st Handling Cons by (simp add: loop_step_def)
      then show ?thesis using inv Handling by (simp add: loop_inv_def loop_handleRead_def)
    next
      case (H_Act a)
      then obtain bs s1 where s1: "exec_act a s = Inr (bs, s1)"
        "s' = s1\<lparr>phase := Handling (map H_Act bs @ hs')\<rparr>"
        using st Handling Cons by (auto simp: loop_step_def bindE_eq_Inr)
      then show ?thesis using exec_act_inv[OF inv s1(1)] Handling by (simp add: loop_inv_phase)
    qed
  qed
next
  case (Doing as ts)
  show ?thesis
  proof (cases as)
    case Nil
    show ?thesis
    proof (cases ts)
      case Nil
      then have "s' = tasks_end s" using st Doing \<open>as = []\<close> by (simp add: loop_step_def)
      then show ?thesis using inv Doing Nil by (simp add: loop_inv_def tasks_end_def) (simp add: awake_def)
    next
      case (Cons t ts')
      then have "s' = s\<lparr>phase := Doing (task_acts t) ts', started := started s @ [t]\<rparr>"
        using st Doing \<open>as = []\<close> by (simp add: loop_step_def)
      then show ?thesis using inv Doing Cons by (simp add: loop_inv_def)
    qed
  next
    case (Cons a as')
    then obtain bs s1 where s1: "exec_act a s = Inr (bs, s1)" "s' = s1\<lparr>phase := Doing (bs @ as') ts\<rparr>"
      using st Doing by (auto simp: loop_step_def bindE_eq_Inr)
    then show ?thesis using exec_act_inv[OF inv s1(1)] Doing by (simp add: loop_inv_phase)
  qed
next
  case Before
  then show ?thesis using inv st by (auto simp: loop_step_def)
next
  case Polling
  then show ?thesis using inv st by (auto simp: loop_step_def)
next
  case Stopped
  then show ?thesis using inv st by (auto simp: loop_step_def)
qed

lemma loop_thread_inv: "loop_thread s s' \<Longrightarrow> loop_inv s \<Longrightarrow> loop_inv s'"
proof (induction rule: loop_thread.induct)
  case (queue_early s t)
  then show ?case by - (rule loop_invI[of s _ "[t]"], auto)
next
  case (quit_early s s')
  then have "s' = s\<lparr>quit := True\<rparr>" by (auto simp: quit_loop_def set_quit_def bindE_eq_Inr)
  then show ?case using quit_early by (simp add: loop_inv_def)
next
  case (start s)
  then show ?case by (simp add: loop_inv_def loop_start_def)
next
  case (poll s before after)
  then show ?case by (simp add: loop_inv_def loop_poll_def)
next
  case (step s s')
  then show ?case using loop_step_inv by blast
qed

lemma other_thread_inv: "other_thread s s' \<Longrightarrow> loop_inv s \<Longrightarrow> loop_inv s'"
proof (induction rule: other_thread.induct)
  case (push s t)
  then show ?case by - (rule loop_invI[of s _ "[t]"], (auto simp: push_task_def awake_def))
next
  case (quit s s')
  then have "s' = s\<lparr>quit := True\<rparr>" by (auto simp: set_quit_def bindE_eq_Inr)
  then show ?case using quit by - (rule loop_invI[of s _ "[]"], (auto simp: awake_def))
next
  case (wake s)
  have "awake ((wakeup s)\<lparr>inflight := inflight s - 1\<rparr>)"
    by (simp add: awake_def wakeup_def)
  then show ?case using wake
    by - (rule loop_invI[of s _ "[]"], (auto simp: queue_wake_def))
qed

lemma reachable_inv: "reachable s \<Longrightarrow> loop_inv s"
proof (induction rule: reachable.induct)
  case init
  show ?case by (simp add: loop_inv_def loop_new_def)
qed (use loop_thread_inv other_thread_inv in blast)+

section \<open>A turn of the loop\<close>

text \<open>Tasks that do not call \<open>quit\<close>, which may be called only once.\<close>

fun no_quit :: "ltask \<Rightarrow> bool" and no_quit_act :: "act \<Rightarrow> bool" where
  "no_quit (Task n as) = list_all no_quit_act as"
| "no_quit_act (A_Queue t) = True"
| "no_quit_act (A_Run t) = no_quit t"
| "no_quit_act A_Quit = False"

lemma no_quit_acts: "no_quit t \<Longrightarrow> list_all no_quit_act (task_acts t)"
  by (cases t) simp

lemma size_acts: "size_list size (task_acts t) < size t"
  by (cases t) simp

text \<open>What running tasks leaves alone: whatever they queue waits for the next turn.\<close>

definition turn_frame :: "evloop \<Rightarrow> evloop \<Rightarrow> bool" where
  "turn_frame s s' \<longleftrightarrow> quit s' = quit s \<and> prefix (queued s) (queued s')"

lemma exec_no_quit:
  assumes "no_quit_act a"
  shows "\<exists>bs s'. exec_act a s = Inr (bs, s') \<and> phase s' = phase s \<and> started s' = started s \<and>
    turn_frame s s' \<and> list_all no_quit_act bs \<and> size_list size bs < size a"
proof (cases a)
  case (A_Queue t)
  then show ?thesis by (simp add: turn_frame_def)
next
  case (A_Run t)
  then show ?thesis using assms no_quit_acts[of t] size_acts[of t]
    by (simp add: runInLoop_def turn_frame_def)
next
  case A_Quit
  then show ?thesis using assms by simp
qed

lemma doing_runs:
  assumes "phase s = Doing as ts" and "list_all no_quit_act as" and "list_all no_quit ts"
  shows "\<exists>s'. loop_thread\<^sup>*\<^sup>* s s' \<and> phase s' = Doing [] [] \<and> started s' = started s @ ts \<and>
    turn_frame s s'"
  using assms
proof (induction "size_list size as + size_list size ts" arbitrary: s as ts rule: less_induct)
  case less
  show ?case
  proof (cases as)
    case Nil
    show ?thesis
    proof (cases ts)
      case Nil
      then show ?thesis using less.prems \<open>as = []\<close> by (intro exI[of _ s]) (simp add: turn_frame_def)
    next
      case (Cons t ts')
      let ?s1 = "s\<lparr>phase := Doing (task_acts t) ts', started := started s @ [t]\<rparr>"
      have "loop_thread s ?s1"
        by (rule loop_thread.step)
           (use less.prems Cons \<open>as = []\<close> in \<open>simp_all add: in_loop_def loop_step_def\<close>)
      moreover obtain s' where "loop_thread\<^sup>*\<^sup>* ?s1 s'" "phase s' = Doing [] []"
        "started s' = started ?s1 @ ts'" "turn_frame ?s1 s'"
        using less.hyps[of "task_acts t" ts' ?s1] less.prems Cons \<open>as = []\<close> size_acts[of t]
          no_quit_acts[of t] by auto
      ultimately show ?thesis using Cons
        by (intro exI[of _ s']) (auto simp: turn_frame_def intro: converse_rtranclp_into_rtranclp)
    qed
  next
    case (Cons a as')
    obtain bs s1 where ex: "exec_act a s = Inr (bs, s1)" "started s1 = started s" "turn_frame s s1"
      "list_all no_quit_act bs" "size_list size bs < size a"
      using exec_no_quit[of a s] less.prems Cons by auto
    let ?s2 = "s1\<lparr>phase := Doing (bs @ as') ts\<rparr>"
    have "loop_thread s ?s2"
      by (rule loop_thread.step)
         (use less.prems Cons ex in \<open>simp_all add: in_loop_def loop_step_def\<close>)
    moreover obtain s' where "loop_thread\<^sup>*\<^sup>* ?s2 s'" "phase s' = Doing [] []"
      "started s' = started ?s2 @ ts" "turn_frame ?s2 s'"
      using less.hyps[of "bs @ as'" ts ?s2] less.prems Cons ex by auto
    ultimately show ?thesis using ex
      by (intro exI[of _ s'])
         (auto simp: turn_frame_def intro: converse_rtranclp_into_rtranclp prefix_order.trans)
  qed
qed

lemma step_to:
  "in_loop s \<Longrightarrow> loop_step s = Inr s' \<Longrightarrow> loop_thread\<^sup>*\<^sup>* s' s'' \<Longrightarrow> loop_thread\<^sup>*\<^sup>* s s''"
  by (meson converse_rtranclp_into_rtranclp loop_thread.step)

text \<open>From the return of \<open>epoll_wait\<close> with only the eventfd readable to the next test of the loop.\<close>

lemma one_turn:
  assumes ph: "phase s = Polling" and w: "0 < wakeups s" and nq: "list_all no_quit (pendingTasks s)"
  shows "\<exists>s'. loop_thread\<^sup>*\<^sup>* s s' \<and> phase s' = Check \<and> quit s' = quit s \<and>
    started s' = started s @ pendingTasks s"
proof -
  let ?s1 = "loop_poll [] [] s"
  let ?s2 = "(loop_handleRead ?s1)\<lparr>phase := Handling []\<rparr>"
  let ?s3 = "tasks_begin ?s2"
  have p: "loop_thread s ?s1" by (rule loop_thread.poll[OF ph]) (use w in simp)
  have 1: "in_loop ?s1" "loop_step ?s1 = Inr ?s2"
    using w by (simp_all add: loop_poll_def in_loop_def loop_step_def)
  have 2: "in_loop ?s2" "loop_step ?s2 = Inr ?s3" by (simp_all add: in_loop_def loop_step_def)
  obtain s4 where s4: "loop_thread\<^sup>*\<^sup>* ?s3 s4" "phase s4 = Doing [] []"
    "started s4 = started ?s3 @ pendingTasks s" "turn_frame ?s3 s4"
    using doing_runs[of ?s3 "[]" "pendingTasks s"] nq
    by (auto simp: tasks_begin_def loop_handleRead_def loop_poll_def)
  have "loop_thread s4 (tasks_end s4)"
    by (rule loop_thread.step) (use s4(2) in \<open>simp_all add: in_loop_def loop_step_def\<close>)
  then have "loop_thread\<^sup>*\<^sup>* ?s3 (tasks_end s4)" using s4(1) by simp
  then have "loop_thread\<^sup>*\<^sup>* s (tasks_end s4)"
    using p step_to[OF 1 step_to[OF 2]] by (meson converse_rtranclp_into_rtranclp)
  then show ?thesis using s4
    by (intro exI[of _ "tasks_end s4"])
       (simp add: tasks_end_def turn_frame_def tasks_begin_def loop_handleRead_def loop_poll_def)
qed

section \<open>Properties\<close>

text \<open>
  C13: No wakeup is lost. Whenever the loop's thread is blocked in \<open>epoll_wait\<close> while a quit request
  has been made, or a task is pending and the loop's own thread queued nothing before it called
  \<open>loop()\<close>, the eventfd is readable or a thread is about to write to it, under every interleaving.
\<close>

theorem no_lost_wakeup:
  assumes "reachable s" and "phase s = Polling"
    and "quit s \<or> pendingTasks s \<noteq> [] \<and> \<not> early s"
  shows "0 < wakeups s \<or> 0 < inflight s"
  using reachable_inv[OF assms(1)] assms(2-) by (auto simp: loop_inv_def awake_def)

definition demo_task :: ltask where
  "demo_task = Task 1 [A_Queue (Task 2 []), A_Run (Task 3 [])]"

definition polling_new :: evloop where
  "polling_new = loop_new\<lparr>phase := Polling\<rparr>"

lemma reachable_polling: "reachable polling_new"
proof -
  have "reachable (loop_start loop_new)"
    by (rule by_loop[OF init start]) (simp add: loop_new_def)
  then have "reachable ((loop_start loop_new)\<lparr>phase := Polling\<rparr>)"
    by (rule by_loop[OF _ loop_thread.step])
       (simp_all add: loop_start_def loop_step_def in_loop_def)
  then show ?thesis by (simp add: polling_new_def loop_start_def loop_new_def)
qed

lemma no_lost_wakeup_witness:
  "\<exists>s. reachable s \<and> phase s = Polling \<and> pendingTasks s = [demo_task] \<and>
    wakeups s = 0 \<and> 0 < inflight s"
proof -
  let ?s = "(push_task demo_task polling_new)\<lparr>inflight := inflight polling_new + 1\<rparr>"
  have r: "reachable ?s" by (rule by_other[OF reachable_polling push])
  have s: "phase ?s = Polling" "pendingTasks ?s = [demo_task]" "\<not> early ?s" "wakeups ?s = 0"
    by (simp_all add: push_task_def polling_new_def loop_new_def)
  show ?thesis using no_lost_wakeup[OF r s(1)] r s by (intro exI[of _ ?s]) simp
qed

text \<open>
  Tasks run once and in order. In every reachable state the tasks pushed, by any thread, are
  those taken out to run, then those swapped out and waiting, then those pending, in the order in
  which they were pushed.
\<close>

theorem tasks_fifo:
  assumes "reachable s"
  shows "queued s = started s @ batch (phase s) @ pendingTasks s"
  using reachable_inv[OF assms] by (simp add: loop_inv_def)

lemma tasks_fifo_witness: "queued polling_new = []"
  using tasks_fifo[OF reachable_polling] by (simp add: polling_new_def loop_new_def)

text \<open>
  A woken loop makes progress. From a readable eventfd the loop's thread alone runs, in one
  turn, exactly the tasks that were pending, leaving what they queue for the next turn, and then
  stops if it was asked to quit and waits again if not.
\<close>

theorem woken_loop_runs_tasks:
  assumes "phase s = Polling" and "0 < wakeups s" and "list_all no_quit (pendingTasks s)"
  shows "\<exists>s'. loop_thread\<^sup>*\<^sup>* s s' \<and> started s' = started s @ pendingTasks s \<and>
    phase s' = (if quit s then Stopped else Polling)"
proof -
  obtain s1 where s1: "loop_thread\<^sup>*\<^sup>* s s1" "phase s1 = Check" "quit s1 = quit s"
    "started s1 = started s @ pendingTasks s" using one_turn[OF assms] by blast
  let ?s2 = "s1\<lparr>phase := if quit s1 then Stopped else Polling\<rparr>"
  have "loop_thread s1 ?s2"
    by (rule loop_thread.step) (use s1(2) in \<open>simp_all add: in_loop_def loop_step_def\<close>)
  then have "loop_thread\<^sup>*\<^sup>* s ?s2" using s1(1) by simp
  then show ?thesis using s1 by (intro exI[of _ ?s2]) simp
qed

lemma woken_loop_runs_tasks_witness:
  "\<exists>s'. loop_thread\<^sup>*\<^sup>* (queueInLoop False demo_task polling_new) s' \<and> started s' = [demo_task] \<and>
    phase s' = Polling"
proof -
  let ?s = "queueInLoop False demo_task polling_new"
  have "phase ?s = Polling" "0 < wakeups ?s" "list_all no_quit (pendingTasks ?s)" "\<not> quit ?s"
    "started ?s = []" "pendingTasks ?s = [demo_task]"
    by (simp_all add: polling_new_def loop_new_def demo_task_def queueInLoop_def queue_wake_def
        push_task_def wakeup_def)
  then show ?thesis using woken_loop_runs_tasks[of ?s] by auto
qed

text \<open>
  A request to quit made before \<open>loop()\<close> is lost. \<open>loop()\<close> clears the flag first, so the wakeup that
  \<open>quit()\<close> left behind is spent on an empty turn and the loop ends up blocked with nothing to wake
  it. What this does to \<open>EventLoopThread\<close> and \<open>TcpServer\<close> is in \<^verbatim>\<open>Ev_TcpServer\<close>.
\<close>

theorem quit_before_loop_lost:
  assumes "phase s = Before" and "quit s" and "0 < wakeups s" and "pendingTasks s = []"
  shows "\<exists>s'. loop_thread\<^sup>*\<^sup>* s s' \<and> phase s' = Polling \<and> \<not> quit s' \<and> wakeups s' = 0 \<and>
    pendingTasks s' = [] \<and> inflight s' = inflight s"
proof -
  let ?s1 = "loop_start s"
  let ?s2 = "?s1\<lparr>phase := Polling\<rparr>"
  let ?s3 = "loop_poll [] [] ?s2"
  let ?s4 = "(loop_handleRead ?s3)\<lparr>phase := Handling []\<rparr>"
  let ?s5 = "tasks_begin ?s4"
  let ?s6 = "tasks_end ?s5"
  let ?s7 = "?s6\<lparr>phase := Polling\<rparr>"
  note defs = loop_start_def loop_poll_def loop_handleRead_def tasks_begin_def tasks_end_def
    in_loop_def loop_step_def
  have "loop_thread\<^sup>*\<^sup>* ?s6 ?s7" by (rule step_to[OF _ _ rtranclp.rtrancl_refl]) (simp_all add: defs)
  then have "loop_thread\<^sup>*\<^sup>* ?s5 ?s7"
    by (rule step_to[rotated 2]) (use assms in \<open>simp_all add: defs\<close>)
  then have "loop_thread\<^sup>*\<^sup>* ?s4 ?s7" by (rule step_to[rotated 2]) (simp_all add: defs)
  then have "loop_thread\<^sup>*\<^sup>* ?s3 ?s7" by (rule step_to[rotated 2]) (use assms in \<open>simp_all add: defs\<close>)
  moreover have "loop_thread ?s2 ?s3" by (rule loop_thread.poll) (use assms in \<open>simp_all add: defs\<close>)
  ultimately have "loop_thread\<^sup>*\<^sup>* ?s2 ?s7" by (rule converse_rtranclp_into_rtranclp[rotated])
  then have "loop_thread\<^sup>*\<^sup>* ?s1 ?s7" by (rule step_to[rotated 2]) (simp_all add: defs)
  moreover have "loop_thread s ?s1" by (rule loop_thread.start[OF assms(1)])
  ultimately have "loop_thread\<^sup>*\<^sup>* s ?s7" by (rule converse_rtranclp_into_rtranclp[rotated])
  then show ?thesis using assms by (intro exI[of _ ?s7]) (simp add: defs)
qed

lemma quit_before_loop_lost_witness:
  "\<exists>s s'. quit_loop False loop_new = Inr s \<and> loop_thread\<^sup>*\<^sup>* s s' \<and> phase s' = Polling \<and>
    \<not> quit s' \<and> wakeups s' = 0"
proof -
  obtain s where s: "quit_loop False loop_new = Inr s" "phase s = Before" "quit s" "0 < wakeups s"
    "pendingTasks s = []"
    by (simp add: quit_loop_def set_quit_def loop_new_def wakeup_def)
  from quit_before_loop_lost[OF s(2-)] s(1) show ?thesis by blast
qed

text \<open>
  A task queued by the loop's own thread before \<open>loop()\<close> may wait for ever. \<open>queueInLoop\<close> writes to the
  eventfd only from another thread or while tasks run, so the loop can block with that task pending,
  no wakeup in the eventfd and none on its way.
\<close>

theorem early_task_waits:
  "\<exists>s. reachable s \<and> phase s = Polling \<and> pendingTasks s = [t] \<and> wakeups s = 0 \<and> inflight s = 0 \<and>
    (\<forall>s'. loop_thread s s' \<longrightarrow> (\<exists>before after. before @ after \<noteq> [] \<and> s' = loop_poll before after s))"
proof -
  let ?s1 = "(queueInLoop True t loop_new)\<lparr>early := True\<rparr>"
  let ?s2 = "loop_start ?s1"
  let ?s3 = "?s2\<lparr>phase := Polling\<rparr>"
  note defs = loop_start_def in_loop_def loop_step_def loop_new_def queueInLoop_def queue_wake_def
    push_task_def
  have "reachable ?s1" by (rule by_loop[OF init queue_early]) (simp add: defs)
  then have "reachable ?s2" by (rule by_loop[OF _ start]) (simp add: defs)
  then have "reachable ?s3" by (rule by_loop[OF _ loop_thread.step]) (simp_all add: defs)
  moreover have "\<exists>before after. before @ after \<noteq> [] \<and> s' = loop_poll before after ?s3"
    if "loop_thread ?s3 s'" for s'
    using that by (rule loop_threadE) (auto simp: defs)
  ultimately show ?thesis by (intro exI[of _ ?s3]) (simp add: defs)
qed

lemma early_task_waits_witness:
  "\<exists>s. reachable s \<and> phase s = Polling \<and> pendingTasks s = [Task 9 []] \<and> wakeups s = 0"
  using early_task_waits[of "Task 9 []"] by blast

end
