(* ===== verification/Ev_Text.thy ===== *)
theory Ev_Text
  imports Ev_Prelude
begin

text \<open>
  Decimal text as the examples' codecs write and read it: \<open>std::to_string\<close>, and extraction of an integer from
  a \<open>std::istringstream\<close> (white space, an optional sign, digits; a value out of range makes the
  extraction fail, and an unsigned type takes a minus sign as negation modulo its width). The rest of
  the stream is returned with the value.
\<close>

section \<open>Writing\<close>

definition digit :: "nat \<Rightarrow> char" where
  "digit d = char_of (48 + d)"

fun dec :: "nat \<Rightarrow> string" where
  "dec n = (if n < 10 then [digit n] else dec (n div 10) @ [digit (n mod 10)])"

declare dec.simps [simp del]

definition to_string :: "int \<Rightarrow> string" where
  "to_string x = (if x < 0 then ''-'' @ dec (nat (- x)) else dec (nat x))"

section \<open>Reading\<close>

definition isdigit :: "char \<Rightarrow> bool" where
  "isdigit c \<longleftrightarrow> 48 \<le> (of_char c :: nat) \<and> (of_char c :: nat) \<le> 57"

definition isspace :: "char \<Rightarrow> bool" where
  "isspace c \<longleftrightarrow> (of_char c :: nat) = 32 \<or> 9 \<le> (of_char c :: nat) \<and> (of_char c :: nat) \<le> 13"

definition digit_val :: "char \<Rightarrow> nat" where
  "digit_val c = of_char c - 48"

definition digits_value :: "string \<Rightarrow> nat" where
  "digits_value s = foldl (\<lambda>v c. v * 10 + digit_val c) 0 s"

definition take_sign :: "string \<Rightarrow> bool \<times> string" where
  "take_sign s =
     (case s of
        [] \<Rightarrow> (False, [])
      | c # r \<Rightarrow> if c = CHR ''-'' then (True, r) else if c = CHR ''+'' then (False, r) else (False, s))"

definition extract_signed :: "nat \<Rightarrow> string \<Rightarrow> (int \<times> string) option" where
  "extract_signed w s =
     (let (neg, s1) = take_sign (dropWhile isspace s);
          ds = takeWhile isdigit s1;
          v = (if neg then - int (digits_value ds) else int (digits_value ds))
      in if ds \<noteq> [] \<and> - (2 ^ (w - 1)) \<le> v \<and> v < 2 ^ (w - 1)
         then Some (v, dropWhile isdigit s1) else None)"

definition extract_unsigned :: "nat \<Rightarrow> string \<Rightarrow> (int \<times> string) option" where
  "extract_unsigned w s =
     (let (neg, s1) = take_sign (dropWhile isspace s);
          ds = takeWhile isdigit s1;
          v = int (digits_value ds)
      in if ds \<noteq> [] \<and> v < 2 ^ w
         then Some ((if neg then (- v) mod 2 ^ w else v), dropWhile isdigit s1) else None)"

text \<open>
  \<open>atoi\<close>: the longest prefix that is a number, 0 without one; a number that is no \<open>int\<close> is undefined
  behaviour.
\<close>

definition atoi :: "string \<Rightarrow> error + int" where
  "atoi s =
     (let (neg, r) = take_sign (dropWhile isspace s);
          v = (if neg then - int (digits_value (takeWhile isdigit r)) else int (digits_value (takeWhile isdigit r)))
      in if - (2 ^ 31) \<le> v \<and> v < 2 ^ 31 then Inr v else Inl Signed_Overflow)"

section \<open>Reading back what was written\<close>

lemma of_char_digit: "d < 10 \<Longrightarrow> (of_char (digit d) :: nat) = 48 + d"
  by (simp add: digit_def)

lemma isdigit_digit [simp]: "d < 10 \<Longrightarrow> isdigit (digit d)"
  by (simp add: isdigit_def of_char_digit)

lemma digit_val_digit [simp]: "d < 10 \<Longrightarrow> digit_val (digit d) = d"
  by (simp add: digit_val_def of_char_digit)

lemma isdigit_minus [simp]: "\<not> isdigit (CHR ''-'')" "\<not> isdigit (CHR ''+'')" "\<not> isdigit (CHR '' '')"
  "\<not> isdigit (CHR 0x0D)"
  by (simp_all add: isdigit_def)

lemma isdigit_not_space: "isdigit c \<Longrightarrow> \<not> isspace c"
  by (auto simp: isdigit_def isspace_def)

lemma isspace_simps [simp]: "isspace (CHR '' '')" "\<not> isspace (CHR ''-'')"
  by (simp_all add: isspace_def)

lemma dec_digits: "c \<in> set (dec n) \<Longrightarrow> isdigit c"
  by (induction n rule: dec.induct) (subst (asm) dec.simps, auto split: if_splits)

lemma dec_nonempty [simp]: "dec n \<noteq> []"
  by (subst dec.simps) simp

lemma digits_value_snoc: "digits_value (s @ [c]) = digits_value s * 10 + digit_val c"
  by (simp add: digits_value_def)

lemma digits_foldl:
  "foldl (\<lambda>v c. v * 10 + digit_val c) v s = v * 10 ^ length s + digits_value s"
proof (induction s rule: rev_induct)
  case Nil
  then show ?case by (simp add: digits_value_def)
next
  case (snoc c s)
  then show ?case by (simp add: digits_value_snoc algebra_simps)
qed

lemma digits_value_Cons: "digits_value (c # s) = digit_val c * 10 ^ length s + digits_value s"
proof -
  have "digits_value (c # s) = foldl (\<lambda>v c. v * 10 + digit_val c) (digit_val c) s"
    by (simp add: digits_value_def)
  then show ?thesis by (simp only: digits_foldl)
qed

lemma digits_value_dec [simp]: "digits_value (dec n) = n"
proof (induction n rule: dec.induct)
  case (1 n)
  show ?case
  proof (cases "n < 10")
    case True
    then show ?thesis by (subst dec.simps) (simp add: digits_value_def)
  next
    case False
    then have "digits_value (dec n) = digits_value (dec (n div 10)) * 10 + n mod 10"
      by (subst dec.simps) (simp add: digits_value_snoc)
    then show ?thesis using 1 False by simp
  qed
qed

lemma dec_small: "n < 10 \<Longrightarrow> dec n = [digit n]"
  by (subst dec.simps) simp

lemma dec_big: "10 \<le> n \<Longrightarrow> dec n = dec (n div 10) @ [digit (n mod 10)]"
  by (subst dec.simps) simp

lemma dec_length: "n < 10 ^ k \<Longrightarrow> 0 < k \<Longrightarrow> length (dec n) \<le> k"
proof (induction k arbitrary: n)
  case 0
  then show ?case by simp
next
  case (Suc k)
  show ?case
  proof (cases "n < 10")
    case True
    then show ?thesis by (simp add: dec_small)
  next
    case False
    then have "n div 10 < 10 ^ k" "0 < k" using Suc.prems by (auto intro!: Nat.gr0I)
    then show ?thesis using Suc.IH[of "n div 10"] False by (simp add: dec_big)
  qed
qed

lemma digit_chars:
  "digit 0 = CHR ''0''" "digit 1 = CHR ''1''" "digit 2 = CHR ''2''" "digit 3 = CHR ''3''" "digit 4 = CHR ''4''"
  "digit 5 = CHR ''5''" "digit 6 = CHR ''6''" "digit 7 = CHR ''7''" "digit 8 = CHR ''8''" "digit 9 = CHR ''9''"
  by code_simp+

text \<open>Text that does not continue a number.\<close>

definition no_digit :: "string \<Rightarrow> bool" where
  "no_digit s \<longleftrightarrow> (case s of [] \<Rightarrow> True | c # r \<Rightarrow> \<not> isdigit c)"

lemma no_digit_simps [simp]: "no_digit []" "no_digit (c # r) = (\<not> isdigit c)"
  by (simp_all add: no_digit_def)

lemma span_dec:
  assumes "no_digit rest"
  shows "takeWhile isdigit (dec n @ rest) = dec n" "dropWhile isdigit (dec n @ rest) = rest"
proof -
  have "\<forall>c\<in>set (dec n). isdigit c" using dec_digits by blast
  with assms show "takeWhile isdigit (dec n @ rest) = dec n" "dropWhile isdigit (dec n @ rest) = rest"
    by (cases rest; simp add: takeWhile_append2 dropWhile_append2)+
qed

lemma dec_Cons: "\<exists>c r. dec n = c # r \<and> isdigit c"
  using dec_digits[of _ n] dec_nonempty[of n] by (cases "dec n") auto

lemma digit_not_sign: "isdigit c \<Longrightarrow> c \<noteq> CHR ''-'' \<and> c \<noteq> CHR ''+''"
  by auto

lemma skip_dec [simp]: "dropWhile isspace (dec n @ rest) = dec n @ rest"
  using dec_Cons[of n] isdigit_not_space by auto

lemma sign_dec [simp]: "take_sign (dec n @ rest) = (False, dec n @ rest)"
  using dec_Cons[of n] digit_not_sign by (auto simp: take_sign_def)

lemma extract_signed_to_string:
  assumes "- (2 ^ (w - 1)) \<le> x" and "x < 2 ^ (w - 1)" and "no_digit rest"
  shows "extract_signed w (to_string x @ rest) = Some (x, rest)"
proof (cases "x < 0")
  case True
  then have "to_string x @ rest = CHR ''-'' # dec (nat (- x)) @ rest" by (simp add: to_string_def)
  then show ?thesis using assms True
    by (simp add: extract_signed_def take_sign_def span_dec)
next
  case False
  then show ?thesis using assms
    by (simp add: extract_signed_def to_string_def span_dec)
qed

lemma extract_unsigned_to_string:
  assumes "0 \<le> x" and "x < 2 ^ w" and "no_digit rest"
  shows "extract_unsigned w (to_string x @ rest) = Some (x, rest)"
  using assms by (simp add: extract_unsigned_def to_string_def span_dec)

lemma extract_space [simp]:
  "extract_signed w (CHR '' '' # s) = extract_signed w s"
  "extract_unsigned w (CHR '' '' # s) = extract_unsigned w s"
  by (simp_all add: extract_signed_def extract_unsigned_def)

lemma extract_nil [simp]: "extract_signed w [] = None" "extract_unsigned w [] = None"
  by (simp_all add: extract_signed_def extract_unsigned_def take_sign_def)

lemma to_string_chars: "c \<in> set (to_string x) \<Longrightarrow> isdigit c \<or> c = CHR ''-''"
  using dec_digits by (auto simp: to_string_def split: if_splits)

lemma to_string_no_cr [simp]: "CHR 0x0D \<notin> set (to_string x)"
  using to_string_chars by fastforce

lemma to_string_nonempty [simp]: "to_string x \<noteq> []"
  by (simp add: to_string_def)

lemma take_sign_le: "length (snd (take_sign s)) \<le> length s"
  by (cases s) (simp_all add: take_sign_def)

lemma atoi_to_string [simp]: "- (2 ^ 31) \<le> x \<Longrightarrow> x < 2 ^ 31 \<Longrightarrow> atoi (to_string x) = Inr x"
proof -
  assume x: "- (2 ^ 31) \<le> x" "x < 2 ^ 31"
  have rules: "takeWhile isdigit (dec n) = dec n" "dropWhile isspace (dec n) = dec n" "take_sign (dec n) = (False, dec n)" for n
    using span_dec[of "[]" n] skip_dec[of n "[]"] sign_dec[of n "[]"] by (simp_all only: no_digit_simps append_Nil2)
  show ?thesis
  proof (cases "x < 0")
    case True
    then have "to_string x = CHR ''-'' # dec (nat (- x))" by (simp add: to_string_def)
    then show ?thesis using x True by (simp add: atoi_def take_sign_def rules)
  next
    case False
    then show ?thesis using x by (simp add: atoi_def to_string_def rules)
  qed
qed

text \<open>An extraction consumes something, so a loop of extractions ends.\<close>

lemma extract_unsigned_shorter: "extract_unsigned w s = Some (v, r) \<Longrightarrow> length r < length s"
proof -
  assume ex: "extract_unsigned w s = Some (v, r)"
  obtain neg s1 where s1: "take_sign (dropWhile isspace s) = (neg, s1)" by force
  have "length s1 \<le> length (dropWhile isspace s)"
    using take_sign_le[of "dropWhile isspace s"] s1 by simp
  then have le: "length s1 \<le> length s" using length_dropWhile_le[of isspace s] by simp
  have "takeWhile isdigit s1 \<noteq> []" "r = dropWhile isdigit s1"
    using ex s1 by (auto simp: extract_unsigned_def Let_def split: if_splits)
  then have "length r < length s1"
    by (cases s1) (auto simp: le_imp_less_Suc length_dropWhile_le split: if_splits)
  with le show ?thesis by simp
qed

end
