(* ===== verification/Ev_Lines.thy ===== *)
theory Ev_Lines
  imports Ev_Buffer
begin

text \<open>
  The message loop that the codecs of the examples share: take complete lines out of the input buffer,
  skip empty ones, and hand each other line to the protocol, which may ask to stop. \<open>handle\<close> is the
  protocol's part, giving the callbacks it makes. The locale \<open>line_codec\<close> is the contract between the
  writer and the reader of one protocol; its theorem is that messages survive any fragmentation of
  the byte stream.
\<close>

section \<open>The loop over a buffer\<close>

type_synonym 'e line_handler = "string \<Rightarrow> error + ('e list \<times> bool)"

partial_function (option) line_loop ::
  "'e line_handler \<Rightarrow> 'e list \<Rightarrow> buffer \<Rightarrow> (error + ('e list \<times> buffer)) option" where
  "line_loop handle evs b =
     (case findCRLF b of
        None \<Rightarrow> Some (Inr (evs, b))
      | Some crlf \<Rightarrow>
          let str = subrange (peek b) crlf (bytes b) in
          case retrieveUntil (crlf + 2) b of
            Inl e \<Rightarrow> Some (Inl e)
          | Inr b1 \<Rightarrow>
              if str = [] then line_loop handle evs b1
              else case handle str of
                  Inl e \<Rightarrow> Some (Inl e)
                | Inr p \<Rightarrow> if snd p then line_loop handle (evs @ fst p) b1
                    else Some (Inr (evs @ fst p, b1)))"

text \<open>The same on the text alone; \<open>line_loop\<close> always returns, and returns this.\<close>

function parse_text :: "'e line_handler \<Rightarrow> 'e list \<Rightarrow> string \<Rightarrow> error + ('e list \<times> string)" where
  "parse_text handle evs s =
     (case next_line s of
        None \<Rightarrow> Inr (evs, s)
      | Some (l, r) \<Rightarrow>
          if l = [] then parse_text handle evs r
          else case handle l of
              Inl e \<Rightarrow> Inl e
            | Inr (es, go) \<Rightarrow> if go then parse_text handle (evs @ es) r else Inr (evs @ es, r))"
  by pat_completeness auto
termination
  by (relation "measure (\<lambda>(handle, evs, s). length s)") (auto dest!: next_line_shorter)

declare parse_text.simps [simp del]

definition same_result ::
  "error + ('e list \<times> string) \<Rightarrow> (error + ('e list \<times> buffer)) option \<Rightarrow> bool" where
  "same_result t r \<longleftrightarrow>
     (case t of
        Inl e \<Rightarrow> r = Some (Inl e)
      | Inr (evs, s) \<Rightarrow> \<exists>b. r = Some (Inr (evs, b)) \<and> buffer_ok b \<and> contents b = s)"

lemma line_loop_text:
  assumes "buffer_ok b"
  shows "same_result (parse_text handle evs (contents b)) (line_loop handle evs b)"
  using assms
proof (induction "length (contents b)" arbitrary: b evs rule: less_induct)
  case less
  show ?case
  proof (cases "next_line (contents b)")
    case None
    then show ?thesis using less.prems
      by (simp add: line_loop.simps parse_text.simps findCRLF_next_line same_result_def)
  next
    case (Some lr)
    then obtain l r where nl: "next_line (contents b) = Some (l, r)" by (cases lr) auto
    note step = read_line_step[OF less.prems nl]
    obtain b1 where b1: "retrieveUntil (peek b + length l + 2) b = Inr b1" "buffer_ok b1" "contents b1 = r"
      using step(3) by blast
    have "length (contents b1) < length (contents b)"
      using next_line_shorter[OF nl] b1(3) by simp
    note IH = less.hyps[OF this b1(2)]
    show ?thesis
    proof (cases "l = [] \<or> (\<exists>e. handle l = Inl e)")
      case True
      then show ?thesis using IH[of evs] nl step(1,2) b1
        by (subst line_loop.simps, subst parse_text.simps) (auto simp: same_result_def)
    next
      case False
      then obtain es go where "handle l = Inr (es, go)" by (cases "handle l") auto
      then show ?thesis using IH[of "evs @ es"] nl step(1,2) b1 False
        by (subst line_loop.simps, subst parse_text.simps)
           (auto simp: same_result_def split: sum.splits)
    qed
  qed
qed

section \<open>Lines and fragments\<close>

lemma crlf_prefix: "prefix kCRLF (c # s) \<longleftrightarrow> c = CHR 0x0D \<and> (\<exists>t. s = CHR 0x0A # t)"
  by (cases s) (auto simp: kCRLF_def)

text \<open>The first CRLF of a line without a carriage return, and of a fragment of one.\<close>

lemma search_line:
  "CHR 0x0D \<notin> set l \<Longrightarrow> std_search kCRLF (l @ kCRLF @ r) = length l"
proof (induction l)
  case Nil
  then show ?case by (simp add: kCRLF_def)
next
  case (Cons c l)
  then show ?case by (auto simp: crlf_prefix)
qed

lemma next_line_line: "CHR 0x0D \<notin> set l \<Longrightarrow> next_line (l @ kCRLF @ r) = Some (l, r)"
  by (simp add: next_line_def search_line Let_def)

lemma search_fragment:
  "CHR 0x0D \<notin> set l \<Longrightarrow> prefix s (l @ [CHR 0x0D]) \<Longrightarrow> std_search kCRLF s = length s"
proof (induction s arbitrary: l)
  case Nil
  then show ?case by simp
next
  case (Cons c s)
  show ?case
  proof (cases l)
    case Nil
    then have "s = []" using Cons.prems(2) by simp
    then show ?thesis by (simp add: crlf_prefix)
  next
    case l: (Cons d l')
    with Cons show ?thesis by (auto simp: crlf_prefix)
  qed
qed

lemma next_line_fragment:
  "CHR 0x0D \<notin> set l \<Longrightarrow> prefix s (l @ [CHR 0x0D]) \<Longrightarrow> next_line s = None"
  by (simp add: next_line_def search_fragment)

text \<open>Receiving one fragment: it is appended to the input buffer, then the loop runs.\<close>

definition receive ::
  "'e line_handler \<Rightarrow> string \<Rightarrow> 'e list \<times> buffer \<Rightarrow> (error + ('e list \<times> buffer)) option" where
  "receive handle ds st =
     (case readFd (Read_Ok ds) (snd st) of
        Inl e \<Rightarrow> Some (Inl e)
      | Inr (n, e, b) \<Rightarrow> line_loop handle (fst st) b)"

fun receive_all ::
  "'e line_handler \<Rightarrow> string list \<Rightarrow> 'e list \<times> buffer \<Rightarrow> (error + ('e list \<times> buffer)) option" where
  "receive_all handle [] st = Some (Inr st)"
| "receive_all handle (ds # dss) st =
     (case receive handle ds st of
        None \<Rightarrow> None
      | Some (Inl e) \<Rightarrow> Some (Inl e)
      | Some (Inr st1) \<Rightarrow> receive_all handle dss st1)"

section \<open>The contract of a codec\<close>

locale line_codec =
  fixes enc :: "'m \<Rightarrow> string" and handle :: "'m line_handler" and valid :: "'m \<Rightarrow> bool"
  assumes enc_line: "valid m \<Longrightarrow> enc m \<noteq> [] \<and> CHR 0x0D \<notin> set (enc m)"
    and handle_enc: "valid m \<Longrightarrow> handle (enc m) = Inr ([m], True)"
begin

definition stream :: "'m list \<Rightarrow> string" where
  "stream ms = concat (map (\<lambda>m. enc m @ kCRLF) ms)"

lemma stream_simps [simp]: "stream [] = []" "stream (m # ms) = enc m @ kCRLF @ stream ms"
  by (simp_all add: stream_def)

lemma fragment_cases:
  assumes "valid m" and "prefix s (enc m @ kCRLF @ t)"
  shows "next_line s = None \<or> (\<exists>s'. s = enc m @ kCRLF @ s' \<and> prefix s' t)"
proof (cases "length s < length (enc m) + 2")
  case True
  have "prefix (enc m @ [CHR 0x0D]) (enc m @ kCRLF @ t)" by (simp add: kCRLF_def)
  from prefix_length_prefix[OF assms(2) this] True have "prefix s (enc m @ [CHR 0x0D])" by simp
  then show ?thesis using next_line_fragment enc_line[OF assms(1)] by blast
next
  case False
  have "prefix (enc m @ kCRLF) (enc m @ kCRLF @ t)" by (simp add: prefix_def)
  from prefix_length_prefix[OF this, of s] assms(2) False have "prefix (enc m @ kCRLF) s" by simp
  then show ?thesis using assms(2) by (auto elim!: prefixE)
qed

lemma parse_prefix:
  "list_all valid ms \<Longrightarrow> prefix s (stream ms) \<Longrightarrow>
   \<exists>ms1 ms2 s'. parse_text handle evs s = Inr (evs @ ms1, s') \<and> ms = ms1 @ ms2 \<and>
     s = stream ms1 @ s' \<and> prefix s' (stream ms2) \<and> next_line s' = None"
proof (induction ms arbitrary: s evs)
  case Nil
  then show ?case by (simp add: parse_text.simps next_line_def)
next
  case (Cons m ms)
  then have v: "valid m" and p: "prefix s (enc m @ kCRLF @ stream ms)" by simp_all
  from fragment_cases[OF v p] show ?case
  proof
    assume "next_line s = None"
    then show ?thesis using Cons.prems
      by (intro exI[of _ "[]"] exI[of _ "m # ms"] exI[of _ s]) (simp add: parse_text.simps)
  next
    assume "\<exists>s'. s = enc m @ kCRLF @ s' \<and> prefix s' (stream ms)"
    then obtain s1 where s1: "s = enc m @ kCRLF @ s1" "prefix s1 (stream ms)" by blast
    have "parse_text handle evs s = parse_text handle (evs @ [m]) s1"
      using next_line_line[of "enc m" s1] enc_line[OF v] handle_enc[OF v]
      by (subst parse_text.simps) (simp add: s1)
    moreover obtain ms1 ms2 s' where "parse_text handle (evs @ [m]) s1 = Inr ((evs @ [m]) @ ms1, s')"
      "ms = ms1 @ ms2" "s1 = stream ms1 @ s'" "prefix s' (stream ms2)" "next_line s' = None"
      using Cons.IH[OF _ s1(2), of "evs @ [m]"] Cons.prems(1) by auto
    ultimately show ?thesis using s1(1)
      by (intro exI[of _ "m # ms1"] exI[of _ ms2] exI[of _ s']) simp
  qed
qed

text \<open>
  Whatever the fragments, the reader delivers exactly the messages written, in order, and ends with
  an empty buffer.
\<close>

lemma stream_append [simp]: "stream (xs @ ys) = stream xs @ stream ys"
  by (simp add: stream_def)

lemma stream_received:
  assumes "buffer_ok b" and "list_all valid ms" and "contents b @ concat dss = stream ms"
    and "\<forall>ds\<in>set dss. length ds \<le> extrabuf_size" and "next_line (contents b) = None"
  shows "receive_all handle dss (evs, b) = Some (Inl Length_Error) \<or>
    (\<exists>b'. receive_all handle dss (evs, b) = Some (Inr (evs @ ms, b')) \<and> contents b' = [])"
  using assms
proof (induction dss arbitrary: b evs ms)
  case Nil
  have "ms = []"
  proof (cases ms)
    case (Cons m ms')
    then have "next_line (contents b) = Some (enc m, stream ms')"
      using Nil.prems(2,3) next_line_line[of "enc m"] enc_line by simp
    then show ?thesis using Nil.prems(5) by simp
  qed
  then show ?case using Nil.prems(3) by simp
next
  case (Cons ds dss)
  have "length ds \<le> readv_limit b"
    using Cons.prems(4) by (auto simp: readv_limit_def)
  from readFd_cases[OF Cons.prems(1) this] show ?case
  proof
    assume "readFd (Read_Ok ds) b = Inl Length_Error"
    then show ?thesis by (simp add: receive_def)
  next
    assume "\<exists>b1. readFd (Read_Ok ds) b = Inr (int (length ds), None, b1) \<and> buffer_ok b1 \<and>
      contents b1 = contents b @ ds"
    then obtain b1 where b1: "readFd (Read_Ok ds) b = Inr (int (length ds), None, b1)"
      "buffer_ok b1" "contents b1 = contents b @ ds" by blast
    have sm: "stream ms = contents b1 @ concat dss" using Cons.prems(3) b1(3) by simp
    then have "prefix (contents b1) (stream ms)" by (rule prefixI)
    then obtain ms1 ms2 s' where p: "parse_text handle evs (contents b1) = Inr (evs @ ms1, s')"
      "ms = ms1 @ ms2" "contents b1 = stream ms1 @ s'" "next_line s' = None"
      using parse_prefix[OF Cons.prems(2)] by blast
    then obtain b2 where b2: "line_loop handle evs b1 = Some (Inr (evs @ ms1, b2))" "buffer_ok b2"
      "contents b2 = s'" using line_loop_text[OF b1(2), of handle evs] by (auto simp: same_result_def)
    have "stream ms1 @ s' @ concat dss = stream ms1 @ stream ms2"
      using sm p(2,3) by (metis append_assoc stream_append)
    then have "contents b2 @ concat dss = stream ms2" using b2(3) by (simp only: same_append_eq)
    then show ?thesis
      using Cons.IH[OF b2(2), of ms2 "evs @ ms1"] Cons.prems(2,4) p(2,4) b1(1) b2
      by (auto simp: receive_def)
  qed
qed

end

end
