(* ===== verification/Ev_KthCodec.thy ===== *)
theory Ev_KthCodec
  imports Ev_Text Ev_Lines Ev_TcpConnection "HOL-Library.Signed_Division"
begin

text \<open>
  \<^verbatim>\<open>example/kth_element/Codec.h\<close> and \<^verbatim>\<open>example/kth_element/Codec.cc\<close>: the text protocol between the client and the
  servers of the distributed selection example. A callback that the codec makes is a value of
  \<open>kmsg\<close>, and the codec's state is which callbacks are set. 128-bit arithmetic that overflows is the
  error \<open>Signed_Overflow\<close>, and calling an empty \<open>std::function\<close> is \<open>Bad_Function_Call\<close>.
\<close>

section \<open>128-bit integers as text\<close>

definition i128 :: "int \<Rightarrow> error + int" where
  "i128 x = (if - (2 ^ 127) \<le> x \<and> x < 2 ^ 127 then Inr x else Inl Signed_Overflow)"

definition digit_table :: string where
  "digit_table = ''9876543210123456789''"

function to128_loop :: "int \<Rightarrow> string" where
  "to128_loop x =
     (let lsd = x smod 10; x1 = x sdiv 10
      in (digit_table ! nat (9 + lsd)) # (if x1 = 0 then [] else to128_loop x1))"
  by pat_completeness auto
termination
proof (relation "measure (\<lambda>x. nat \<bar>x\<bar>)")
  show "wf (measure (\<lambda>x :: int. nat \<bar>x\<bar>))" by simp
  fix x lsd x1 :: int
  assume "x1 = x sdiv 10" and "x1 \<noteq> 0"
  then show "(x1, x) \<in> measure (\<lambda>x. nat \<bar>x\<bar>)"
    by (auto simp: signed_divide_int_def sgn_if abs_mult)
qed

declare to128_loop.simps [simp del]

definition toString128 :: "int \<Rightarrow> string" where
  "toString128 x = rev (to128_loop x @ (if x < 0 then ''-'' else []))"

fun parse_digits128 :: "string \<Rightarrow> int \<Rightarrow> error + (nat \<times> int)" where
  "parse_digits128 [] v = Inr (0, v)"
| "parse_digits128 (c # r) v =
     (if isdigit c then
        bindE (i128 (v * 10)) (\<lambda>v1.
        bindE (i128 (v1 + int (digit_val c))) (\<lambda>v2.
        bindE (parse_digits128 r v2) (\<lambda>(k, v3). Inr (Suc k, v3))))
      else Inr (0, v))"

text \<open>\<open>parseInt128\<close>: None for a result of 0, which leaves \<open>ret\<close> unset; otherwise the number of
  characters read and the value.\<close>

definition parseInt128 :: "string \<Rightarrow> error + (nat \<times> int) option" where
  "parseInt128 arg =
     (if arg = [] then Inr None
      else
        let neg = (hd arg = CHR ''-''); i = (if neg then 1 else 0)
        in if i = length arg \<or> \<not> isdigit (arg ! i) then Inr None
           else bindE (parse_digits128 (drop i arg) 0) (\<lambda>(k, v).
                bindE (if neg then i128 (- v) else Inr v) (\<lambda>ret. Inr (Some (i + k, ret)))))"

section \<open>The codec\<close>

record kcodec =
  hasQuery :: bool
  hasAnswer :: bool
  hasTellState :: bool

datatype kmsg =
    K_Query int
  | K_Answer int int
  | K_State int int int int
  | K_ParseError

definition kth_parseQuery :: "kcodec \<Rightarrow> kmsg line_handler" where
  "kth_parseQuery cd arg =
     (case extract_signed 64 arg of
        Some (target, r) \<Rightarrow>
          if hasQuery cd then Inr ([K_Query target], True) else Inr ([K_ParseError], False)
      | None \<Rightarrow> Inr ([K_ParseError], False))"

definition kth_parseState :: "kcodec \<Rightarrow> kmsg line_handler" where
  "kth_parseState cd arg =
     bindE (parseInt128 arg) (\<lambda>ret.
     case ret of
       None \<Rightarrow> Inr ([K_ParseError], False)
     | Some (len, tot) \<Rightarrow>
         (case extract_signed 64 (drop len arg) of
            None \<Rightarrow> Inr ([K_ParseError], False)
          | Some (cnt, r1) \<Rightarrow>
              (case extract_signed 64 r1 of
                 None \<Rightarrow> Inr ([K_ParseError], False)
               | Some (mn, r2) \<Rightarrow>
                   (case extract_signed 64 r2 of
                      None \<Rightarrow> Inr ([K_ParseError], False)
                    | Some (mx, r3) \<Rightarrow>
                        if hasTellState cd then Inr ([K_State tot cnt mn mx], True)
                        else Inl Bad_Function_Call))))"

definition kth_parseAnswer :: "kcodec \<Rightarrow> kmsg line_handler" where
  "kth_parseAnswer cd arg =
     (case extract_signed 64 arg of
        None \<Rightarrow> Inr ([K_ParseError], False)
      | Some (lessCount, r1) \<Rightarrow>
          (case extract_signed 64 r1 of
             None \<Rightarrow> Inr ([K_ParseError], False)
           | Some (equalCount, r2) \<Rightarrow>
               if hasAnswer cd then Inr ([K_Answer lessCount equalCount], True)
               else Inr ([K_ParseError], False)))"

definition kth_line :: "kcodec \<Rightarrow> kmsg line_handler" where
  "kth_line cd str =
     (case str of
        [] \<Rightarrow> Inr ([], True)
      | c # arg \<Rightarrow>
          if c = CHR ''@'' then kth_parseQuery cd arg
          else if c = CHR ''#'' then kth_parseState cd arg
          else if c = CHR ''$'' then kth_parseAnswer cd arg
          else Inr ([K_ParseError], False))"

definition kth_parseMessage ::
  "kcodec \<Rightarrow> kmsg list \<Rightarrow> buffer \<Rightarrow> (error + (kmsg list \<times> buffer)) option" where
  "kth_parseMessage cd = line_loop (kth_line cd)"

text \<open>What the codec sends, and what its default parse-error callback does to the connection.\<close>

definition sendQuery :: "int \<Rightarrow> string" where
  "sendQuery guess = (''@'' @ to_string guess) @ kCRLF"

definition sendState :: "int \<Rightarrow> int \<Rightarrow> int \<Rightarrow> int \<Rightarrow> string" where
  "sendState tot cnt mn mx =
     (''#'' @ toString128 tot @ '' '' @ to_string cnt @ '' '' @ to_string mn @ '' '' @
      to_string mx) @ kCRLF"

definition sendAnswer :: "int \<Rightarrow> int \<Rightarrow> string" where
  "sendAnswer lessCount equalCount =
     (''$'' @ to_string lessCount @ '' '' @ to_string equalCount) @ kCRLF"

definition kth_parse_error :: "write_result \<Rightarrow> api list" where
  "kth_parse_error wr = [Api_Send wr (''bad message'' @ kCRLF), Api_ForceClose]"

section \<open>The digit loop is the decimal representation\<close>

lemma digit_table_nth: "(d :: nat) < 10 \<Longrightarrow> digit_table ! (9 + d) = digit d \<and> digit_table ! (9 - d) = digit d"
proof -
  assume "d < 10"
  then have "d = 0 \<or> d = 1 \<or> d = 2 \<or> d = 3 \<or> d = 4 \<or> d = 5 \<or> d = 6 \<or> d = 7 \<or> d = 8 \<or> d = 9"
    by presburger
  then show ?thesis by (elim disjE; hypsubst; code_simp)
qed

lemma trunc_div: "x sdiv (10 :: int) = sgn x * (\<bar>x\<bar> div 10)"
  by (simp add: signed_divide_int_def sgn_mult)

lemma trunc_mod: "x smod (10 :: int) = sgn x * (\<bar>x\<bar> mod 10)"
  by (simp add: signed_modulo_int_def)

lemma table_lookup: "digit_table ! nat (9 + x smod 10) = digit (nat (\<bar>x\<bar> mod 10))"
proof -
  define d where "d = nat (\<bar>x\<bar> mod 10)"
  have d: "d < 10" "\<bar>x\<bar> mod 10 = int d" by (simp_all add: d_def nat_less_iff)
  consider "0 < x" | "x = 0" | "x < 0" by linarith
  then have "nat (9 + x smod 10) = 9 + d \<or> nat (9 + x smod 10) = 9 - d"
    by cases (use d in \<open>simp_all add: trunc_mod nat_diff_distrib nat_add_distrib\<close>)
  then show ?thesis using digit_table_nth[OF d(1)] by (auto simp: d_def)
qed

lemma to128_loop_dec: "to128_loop x = rev (dec (nat \<bar>x\<bar>))"
proof (induction x rule: to128_loop.induct)
  case (1 x)
  have div: "\<bar>x sdiv 10\<bar> = \<bar>x\<bar> div 10"
    by (cases "x = 0") (simp_all add: trunc_div abs_mult)
  then have z: "x sdiv 10 = 0 \<longleftrightarrow> \<bar>x\<bar> div 10 = 0" by (metis abs_eq_0)
  have n: "nat \<bar>x\<bar> div 10 = nat (\<bar>x\<bar> div 10)" "nat \<bar>x\<bar> mod 10 = nat (\<bar>x\<bar> mod 10)"
    by (simp_all add: nat_div_distrib nat_mod_distrib)
  show ?case
  proof (cases "x sdiv 10 = 0")
    case True
    then have "nat \<bar>x\<bar> < 10" using z by linarith
    then show ?thesis using True n(2)
      by (subst to128_loop.simps, subst dec.simps) (simp add: table_lookup)
  next
    case False
    then have "\<not> nat \<bar>x\<bar> < 10" using z by linarith
    then show ?thesis using 1[OF refl refl False] False n div
      by (subst to128_loop.simps, subst dec.simps) (simp add: table_lookup)
  qed
qed

lemma toString128_eq: "toString128 x = to_string x"
  by (simp add: toString128_def to128_loop_dec to_string_def)

section \<open>Reading 128-bit integers\<close>

lemma parse_digits_value:
  assumes "\<forall>c\<in>set ds. isdigit c" and "no_digit rest" and "0 \<le> v" and "v < 2 ^ 127"
  shows "parse_digits128 (ds @ rest) v =
    (let u = v * 10 ^ length ds + int (digits_value ds)
     in if u < 2 ^ 127 then Inr (length ds, u) else Inl Signed_Overflow)"
  using assms
proof (induction ds arbitrary: v)
  case Nil
  then show ?case by (cases rest) (simp_all add: digits_value_def)
next
  case (Cons c ds)
  let ?v1 = "v * 10 + int (digit_val c)"
  let ?u = "?v1 * 10 ^ length ds + int (digits_value ds)"
  have u: "v * 10 ^ length (c # ds) + int (digits_value (c # ds)) = ?u"
    by (simp add: digits_value_Cons algebra_simps)
  show ?case
  proof (cases "?v1 < 2 ^ 127")
    case True
    then have "parse_digits128 (ds @ rest) ?v1 =
        (if ?u < 2 ^ 127 then Inr (length ds, ?u) else Inl Signed_Overflow)"
      using Cons.IH[of ?v1] Cons.prems by (simp add: Let_def)
    then show ?thesis using True Cons.prems(1,3) unfolding u by (simp add: i128_def Let_def)
  next
    case False
    have "2 ^ 127 \<le> ?v1" using False by (simp only: not_less)
    also have "?v1 \<le> ?v1 * 10 ^ length ds"
      using mult_left_mono[of 1 "10 ^ length ds" ?v1] Cons.prems(3) by simp
    also have "\<dots> \<le> ?u" by simp
    finally have "\<not> ?u < 2 ^ 127" by (simp only: not_less)
    moreover have "parse_digits128 (c # ds @ rest) v = Inl Signed_Overflow"
      using False Cons.prems(1,3) by (simp add: i128_def bindE_def)
    ultimately show ?thesis unfolding u by (simp add: Let_def)
  qed
qed

lemma parseInt128_to_string:
  assumes "- (2 ^ 127) < x" and "x < 2 ^ 127" and "no_digit rest"
  shows "parseInt128 (to_string x @ rest) = Inr (Some (length (to_string x), x))"
proof -
  let ?d = "dec (nat \<bar>x\<bar>)"
  have ds: "\<forall>c\<in>set ?d. isdigit c" using dec_digits by blast
  have p: "parse_digits128 (?d @ rest) 0 = Inr (length ?d, \<bar>x\<bar>)"
    using parse_digits_value[OF ds assms(3), of 0] assms(1,2) by (simp add: Let_def)
  obtain c r where c: "?d = c # r" "isdigit c" using dec_Cons by blast
  show ?thesis
  proof (cases "x < 0")
    case True
    then have "to_string x = CHR ''-'' # ?d" by (simp add: to_string_def)
    then show ?thesis using True p c assms(1)
      by (simp add: parseInt128_def i128_def)
  next
    case False
    then have "to_string x = ?d" by (simp add: to_string_def)
    then show ?thesis using False p c digit_not_sign[OF c(2)] by (simp add: parseInt128_def)
  qed
qed

section \<open>Messages as lines\<close>

fun kth_enc :: "kmsg \<Rightarrow> string" where
  "kth_enc (K_Query g) = ''@'' @ to_string g"
| "kth_enc (K_Answer l e) = ''$'' @ to_string l @ '' '' @ to_string e"
| "kth_enc (K_State t c mn mx) =
     ''#'' @ toString128 t @ '' '' @ to_string c @ '' '' @ to_string mn @ '' '' @ to_string mx"
| "kth_enc K_ParseError = []"

definition i64 :: "int \<Rightarrow> bool" where
  "i64 x \<longleftrightarrow> - (2 ^ 63) \<le> x \<and> x < 2 ^ 63"

fun kth_valid :: "kcodec \<Rightarrow> kmsg \<Rightarrow> bool" where
  "kth_valid cd (K_Query g) = (hasQuery cd \<and> i64 g)"
| "kth_valid cd (K_Answer l e) = (hasAnswer cd \<and> i64 l \<and> i64 e)"
| "kth_valid cd (K_State t c mn mx) =
     (hasTellState cd \<and> - (2 ^ 127) < t \<and> t < 2 ^ 127 \<and> i64 c \<and> i64 mn \<and> i64 mx)"
| "kth_valid cd K_ParseError = False"

lemma extract64:
  "i64 x \<Longrightarrow> no_digit rest \<Longrightarrow> extract_signed 64 (to_string x @ rest) = Some (x, rest)"
  by (rule extract_signed_to_string) (simp_all add: i64_def)

lemma extract64_end: "i64 x \<Longrightarrow> extract_signed 64 (to_string x) = Some (x, [])"
  using extract64[of x "[]"] by simp

interpretation kth: line_codec kth_enc "kth_line cd" "kth_valid cd" for cd
proof unfold_locales
  fix m
  assume v: "kth_valid cd m"
  show "kth_enc m \<noteq> [] \<and> CHR 0x0D \<notin> set (kth_enc m)"
    using v by (cases m) (simp_all add: toString128_eq)
  show "kth_line cd (kth_enc m) = Inr ([m], True)"
  proof (cases m)
    case (K_Query g)
    then show ?thesis using v extract64_end[of g]
      by (simp add: kth_line_def kth_parseQuery_def)
  next
    case (K_Answer l e)
    then show ?thesis using v extract64[of l "CHR '' '' # to_string e"] extract64_end[of e]
      by (simp add: kth_line_def kth_parseAnswer_def)
  next
    case (K_State t c mn mx)
    let ?r3 = "CHR '' '' # to_string mx"
    let ?r2 = "CHR '' '' # to_string mn @ ?r3"
    let ?r1 = "CHR '' '' # to_string c @ ?r2"
    have "parseInt128 (to_string t @ ?r1) = Inr (Some (length (to_string t), t))"
      using v K_State by (intro parseInt128_to_string) simp_all
    then show ?thesis using v K_State extract64[of c ?r2] extract64[of mn ?r3] extract64_end[of mx]
      by (simp add: kth_line_def kth_parseState_def toString128_eq)
  qed (use v in simp)
qed

lemma kth_sends:
  "sendQuery g = kth_enc (K_Query g) @ kCRLF"
  "sendAnswer l e = kth_enc (K_Answer l e) @ kCRLF"
  "sendState t c mn mx = kth_enc (K_State t c mn mx) @ kCRLF"
  by (simp_all add: sendQuery_def sendAnswer_def sendState_def)

fun kth_send :: "kmsg \<Rightarrow> string" where
  "kth_send (K_Query g) = sendQuery g"
| "kth_send (K_Answer l e) = sendAnswer l e"
| "kth_send (K_State t c mn mx) = sendState t c mn mx"
| "kth_send K_ParseError = []"

lemma kth_stream: "list_all (kth_valid cd) ms \<Longrightarrow> kth.stream ms = concat (map kth_send ms)"
proof (induction ms)
  case Nil
  then show ?case by simp
next
  case (Cons m ms)
  then show ?case by (cases m) (simp_all add: kth_sends)
qed

section \<open>Properties\<close>

text \<open>
  C29: The selection protocol survives fragmentation. When queries, states and answers with values
  in the range of their types (the most negative 128-bit value excepted) are sent one after the other
  and reach the reader's input buffer cut into fragments anywhere, the codec makes exactly the
  callbacks of those messages, in order, no parse error, and leaves nothing in the buffer.
\<close>

theorem kth_messages_received:
  assumes "buffer_ok b" and "contents b = []" and "list_all (kth_valid cd) ms"
    and "concat dss = concat (map kth_send ms)"
    and "\<forall>ds\<in>set dss. length ds \<le> extrabuf_size"
  shows "receive_all (kth_line cd) dss ([], b) = Some (Inl Length_Error) \<or>
    (\<exists>b'. receive_all (kth_line cd) dss ([], b) = Some (Inr (ms, b')) \<and> contents b' = [])"
proof -
  have "next_line [] = None" by (simp add: next_line_def)
  then show ?thesis
    using kth.stream_received[OF assms(1,3), of dss "[]"] assms(2,4,5) kth_stream[OF assms(3)]
    by simp
qed

definition kth_demo :: kcodec where
  "kth_demo = \<lparr>hasQuery = True, hasAnswer = True, hasTellState = True\<rparr>"

lemma to_string_small:
  "to_string (-42) = ''-42''" "to_string 7 = ''7''" "to_string 3 = ''3''" "to_string 0 = ''0''"
  by code_simp+

lemma kth_messages_received_witness:
  "receive_all (kth_line kth_demo) [''@-4'', ''2'' @ [CHR 0x0D], [CHR 0x0A] @ ''$7 3'', kCRLF]
     ([], demo_buffer) \<in> {Some (Inl Length_Error)} \<union>
       {Some (Inr ([K_Query (-42), K_Answer 7 3], b')) | b'. contents b' = []}"
proof -
  let ?ms = "[K_Query (-42), K_Answer 7 3]"
  have v: "list_all (kth_valid kth_demo) ?ms" by (simp add: kth_demo_def i64_def)
  have c: "concat [''@-4'', ''2'' @ [CHR 0x0D], [CHR 0x0A] @ ''$7 3'', kCRLF] =
      concat (map kth_send ?ms)"
    by (simp add: sendQuery_def sendAnswer_def to_string_small kCRLF_def)
  show ?thesis
    using kth_messages_received[OF demo_buffer_ok(1,2) v c]
    by (auto simp: extrabuf_size_def kCRLF_def)
qed

text \<open>
  The 128-bit conversions are inverse, but for one value. \<open>toString\<close> writes the decimal
  representation for every value, positive or negative, and \<open>parseInt128\<close> reads it back together
  with its length, whatever follows it; only the smallest value, which \<open>toString\<close> writes correctly,
  overflows on the way back, since its magnitude is built up before the sign is applied.
\<close>

theorem int128_roundtrip:
  assumes "- (2 ^ 127) \<le> x" and "x < 2 ^ 127" and "no_digit rest"
  shows "toString128 x = to_string x \<and>
    parseInt128 (toString128 x @ rest) =
      (if x = - (2 ^ 127) then Inl Signed_Overflow
       else Inr (Some (length (toString128 x), x)))"
proof (cases "x = - (2 ^ 127)")
  case False
  then show ?thesis using assms parseInt128_to_string[of x rest] by (simp add: toString128_eq)
next
  case True
  let ?d = "dec (nat \<bar>x\<bar>)"
  have ds: "\<forall>c\<in>set ?d. isdigit c" using dec_digits by blast
  have "parse_digits128 (?d @ rest) 0 = Inl Signed_Overflow"
    using parse_digits_value[OF ds assms(3), of 0] True by (simp add: Let_def)
  moreover have "to_string x = CHR ''-'' # ?d" using True by (simp add: to_string_def)
  moreover obtain c r where "?d = c # r" "isdigit c" using dec_Cons by blast
  ultimately show ?thesis using True by (simp add: toString128_eq parseInt128_def)
qed

lemma int128_roundtrip_witness:
  "parseInt128 (toString128 (-42) @ '' 7'') = Inr (Some (3, -42))"
  using int128_roundtrip[of "-42" "'' 7''"] to_string_small(1) by auto

text \<open>
  A state message kills a reader that expects none. \<open>parseState\<close> calls its callback without the test
  that \<open>parseQuery\<close> and \<open>parseAnswer\<close> make, so a well-formed state message makes the codec of a
  server, which sets only the query callback, throw.
\<close>

theorem state_message_throws:
  assumes "\<not> hasTellState cd" and "kth_valid (cd\<lparr>hasTellState := True\<rparr>) (K_State t c mn mx)"
    and "buffer_ok b" and "contents b = sendState t c mn mx"
  shows "kth_parseMessage cd [] b = Some (Inl Bad_Function_Call)"
proof -
  let ?l = "kth_enc (K_State t c mn mx)"
  have ok: "?l \<noteq> []" "CHR 0x0D \<notin> set ?l"
    using kth.enc_line[OF assms(2)] by simp_all
  have "kth_line (cd\<lparr>hasTellState := True\<rparr>) ?l = Inr ([K_State t c mn mx], True)"
    by (rule kth.handle_enc[OF assms(2)])
  then have "kth_line cd ?l = Inl Bad_Function_Call"
    using assms(1)
    by (auto simp: kth_line_def kth_parseState_def bindE_def split: sum.splits option.splits)
  moreover have "next_line (contents b) = Some (?l, [])"
    using next_line_line[OF ok(2), of "[]"] by (simp add: assms(4) kth_sends del: kth_enc.simps)
  ultimately have "parse_text (kth_line cd) [] (contents b) = Inl Bad_Function_Call"
    using ok(1) by (subst parse_text.simps) (simp del: kth_enc.simps)
  then show ?thesis
    using line_loop_text[OF assms(3), of "kth_line cd" "[]"]
    by (simp add: kth_parseMessage_def same_result_def)
qed

lemma state_message_throws_witness:
  "\<exists>b. contents b = ''#0 3 0 7'' @ kCRLF \<and>
    kth_parseMessage \<lparr>hasQuery = True, hasAnswer = False, hasTellState = False\<rparr> [] b =
      Some (Inl Bad_Function_Call)"
proof -
  let ?cd = "\<lparr>hasQuery = True, hasAnswer = False, hasTellState = False\<rparr>"
  have s: "sendState 0 3 0 7 = ''#0 3 0 7'' @ kCRLF"
    by (simp add: sendState_def toString128_eq to_string_small)
  have "room demo_buffer (length (sendState 0 3 0 7))"
    by (simp add: s room_def demo_buffer_def vec_max_def kCRLF_def)
  then obtain b where "buffer_ok b" "contents b = sendState 0 3 0 7"
    using append_fits[OF demo_buffer_ok(1)] demo_buffer_ok(2) by auto
  then show ?thesis
    using state_message_throws[of ?cd 0 3 0 7 b] s by (auto simp: i64_def)
qed

end
