(* ===== verification/Ev_NQueenCodec.thy ===== *)
theory Ev_NQueenCodec
  imports Ev_Text Ev_Lines Ev_TcpConnection
begin

text \<open>
  \<^verbatim>\<open>example/nqueen/Codec.h\<close> and \<^verbatim>\<open>example/nqueen/Codec.cc\<close>: the text protocol of the distributed n-queens
  example: a client's requests, a server's responses and its number of cores. \<open>uint32_t\<close> values are
  32-bit words. A message whose callback is not set is dropped.
\<close>

record request =
  nQueen :: "32 word"
  rq_cols :: "32 word list"

record response =
  rs_count :: int
  rs_cols :: "32 word list"

record qcodec =
  hasRequest :: bool
  hasResponse :: bool
  hasTellCores :: bool

datatype qmsg =
    Q_Request request
  | Q_Response response
  | Q_Cores "32 word"
  | Q_ParseError

section \<open>Parsing\<close>

text \<open>\<open>while (in >> col) cols.push_back(col)\<close>\<close>

function parse_cols :: "string \<Rightarrow> 32 word list" where
  "parse_cols s =
     (case extract_unsigned 32 s of
        None \<Rightarrow> []
      | Some (col, r) \<Rightarrow> word_of_int col # parse_cols r)"
  by pat_completeness auto
termination
  by (relation "measure length") (auto dest: extract_unsigned_shorter)

declare parse_cols.simps [simp del]

definition parseRequest :: "string \<Rightarrow> request option" where
  "parseRequest str =
     (case extract_unsigned 32 str of
        None \<Rightarrow> None
      | Some (n, r) \<Rightarrow> Some \<lparr>nQueen = word_of_int n, rq_cols = parse_cols r\<rparr>)"

definition parseResponse :: "string \<Rightarrow> response option" where
  "parseResponse str =
     (case extract_signed 64 str of
        None \<Rightarrow> None
      | Some (n, r) \<Rightarrow> Some \<lparr>rs_count = n, rs_cols = parse_cols r\<rparr>)"

definition parseNCores :: "string \<Rightarrow> 32 word option" where
  "parseNCores str = map_option (\<lambda>(n, r). word_of_int n) (extract_unsigned 32 str)"

definition nq_line :: "qcodec \<Rightarrow> qmsg line_handler" where
  "nq_line cd str =
     (case str of
        [] \<Rightarrow> Inr ([], True)
      | c # arg \<Rightarrow>
          if c = CHR ''$'' then
            (case parseNCores arg of
               Some n \<Rightarrow> Inr (if hasTellCores cd then [Q_Cores n] else [], True)
             | None \<Rightarrow> Inr ([Q_ParseError], False))
          else if c = CHR ''#'' then
            (case parseResponse arg of
               Some r \<Rightarrow> Inr (if hasResponse cd then [Q_Response r] else [], True)
             | None \<Rightarrow> Inr ([Q_ParseError], False))
          else if isdigit c then
            (case parseRequest str of
               Some r \<Rightarrow> Inr (if hasRequest cd then [Q_Request r] else [], True)
             | None \<Rightarrow> Inr ([Q_ParseError], False))
          else Inr ([Q_ParseError], False))"

definition nq_parseMessage ::
  "qcodec \<Rightarrow> qmsg list \<Rightarrow> buffer \<Rightarrow> (error + (qmsg list \<times> buffer)) option" where
  "nq_parseMessage cd = line_loop (nq_line cd)"

definition nq_parse_error :: "api list" where
  "nq_parse_error = [Api_ForceClose]"

section \<open>Printing\<close>

definition cols_string :: "32 word list \<Rightarrow> string" where
  "cols_string cols = concat (map (\<lambda>col. '' '' @ to_string (uint col)) cols)"

definition request_string :: "request \<Rightarrow> string" where
  "request_string rqst = (to_string (uint (nQueen rqst)) @ cols_string (rq_cols rqst)) @ kCRLF"

definition response_string :: "response \<Rightarrow> string" where
  "response_string rsps = (''# '' @ to_string (rs_count rsps) @ cols_string (rs_cols rsps)) @ kCRLF"

definition cores_string :: "32 word \<Rightarrow> string" where
  "cores_string nCores = (''$ '' @ to_string (uint nCores)) @ kCRLF"

section \<open>What is printed is parsed back\<close>

lemma extract_word:
  "no_digit rest \<Longrightarrow> extract_unsigned 32 (to_string (uint (w :: 32 word)) @ rest) = Some (uint w, rest)"
  using unsigned_less[of w] by (intro extract_unsigned_to_string) simp_all

lemma no_digit_cols [simp]: "no_digit (cols_string cols)"
  by (cases cols) (simp_all add: cols_string_def)

lemma cols_simps [simp]: "cols_string [] = []"
  "cols_string (c # cs) = CHR '' '' # to_string (uint c) @ cols_string cs"
  by (simp_all add: cols_string_def)

lemma parse_cols_string [simp]: "parse_cols (cols_string cols) = cols"
proof (induction cols)
  case Nil
  then show ?case by (simp add: parse_cols.simps)
next
  case (Cons c cs)
  then show ?case by (subst parse_cols.simps) (simp add: extract_word)
qed

lemma cols_no_cr [simp]: "CHR 0x0D \<notin> set (cols_string cols)"
  by (induction cols) simp_all

fun nq_enc :: "qmsg \<Rightarrow> string" where
  "nq_enc (Q_Request r) = to_string (uint (nQueen r)) @ cols_string (rq_cols r)"
| "nq_enc (Q_Response r) = ''# '' @ to_string (rs_count r) @ cols_string (rs_cols r)"
| "nq_enc (Q_Cores n) = ''$ '' @ to_string (uint n)"
| "nq_enc Q_ParseError = []"

fun nq_valid :: "qcodec \<Rightarrow> qmsg \<Rightarrow> bool" where
  "nq_valid cd (Q_Request r) = hasRequest cd"
| "nq_valid cd (Q_Response r) =
     (hasResponse cd \<and> - (2 ^ 63) \<le> rs_count r \<and> rs_count r < 2 ^ 63)"
| "nq_valid cd (Q_Cores n) = hasTellCores cd"
| "nq_valid cd Q_ParseError = False"

lemma word_first_digit: "\<exists>c r. to_string (uint (w :: 32 word)) = c # r \<and> isdigit c"
  using dec_Cons[of "nat (uint w)"] by (simp add: to_string_def)

interpretation nq: line_codec nq_enc "nq_line cd" "nq_valid cd" for cd
proof unfold_locales
  fix m
  assume v: "nq_valid cd m"
  show "nq_enc m \<noteq> [] \<and> CHR 0x0D \<notin> set (nq_enc m)"
    using v by (cases m) simp_all
  show "nq_line cd (nq_enc m) = Inr ([m], True)"
  proof (cases m)
    case (Q_Request r)
    obtain c s where c: "to_string (uint (nQueen r)) = c # s" "isdigit c"
      using word_first_digit by blast
    then have "c \<noteq> CHR ''$''" "c \<noteq> CHR ''#''" by (auto simp: isdigit_def)
    moreover have "parseRequest (nq_enc m) = Some r"
      using Q_Request by (simp add: parseRequest_def extract_word)
    ultimately show ?thesis using Q_Request c v by (simp add: nq_line_def)
  next
    case (Q_Response r)
    have "extract_signed 64 (to_string (rs_count r) @ cols_string (rs_cols r)) =
        Some (rs_count r, cols_string (rs_cols r))"
      using v Q_Response by (intro extract_signed_to_string) simp_all
    then show ?thesis using Q_Response v by (simp add: nq_line_def parseResponse_def)
  next
    case (Q_Cores n)
    then show ?thesis using v extract_word[of "[]" n] by (simp add: nq_line_def parseNCores_def)
  qed (use v in simp)
qed

fun nq_send :: "qmsg \<Rightarrow> string" where
  "nq_send (Q_Request r) = request_string r"
| "nq_send (Q_Response r) = response_string r"
| "nq_send (Q_Cores n) = cores_string n"
| "nq_send Q_ParseError = []"

lemma nq_stream: "list_all (nq_valid cd) ms \<Longrightarrow> nq.stream ms = concat (map nq_send ms)"
proof (induction ms)
  case Nil
  then show ?case by simp
next
  case (Cons m ms)
  then show ?case
    by (cases m) (simp_all add: request_string_def response_string_def cores_string_def)
qed

section \<open>Properties\<close>

text \<open>
  C30: The n-queens protocol survives fragmentation. Requests with any number of columns, responses
  and core counts, sent one after the other and received in any fragments, give exactly the
  callbacks of those messages, in order, and leave nothing in the buffer.
\<close>

theorem nqueen_messages_received:
  assumes "buffer_ok b" and "contents b = []" and "list_all (nq_valid cd) ms"
    and "concat dss = concat (map nq_send ms)"
    and "\<forall>ds\<in>set dss. length ds \<le> extrabuf_size"
  shows "receive_all (nq_line cd) dss ([], b) = Some (Inl Length_Error) \<or>
    (\<exists>b'. receive_all (nq_line cd) dss ([], b) = Some (Inr (ms, b')) \<and> contents b' = [])"
proof -
  have "next_line [] = None" by (simp add: next_line_def)
  then show ?thesis
    using nq.stream_received[OF assms(1,3), of dss "[]"] assms(2,4,5) nq_stream[OF assms(3)]
    by simp
qed

definition nq_demo :: qcodec where
  "nq_demo = \<lparr>hasRequest = True, hasResponse = False, hasTellCores = True\<rparr>"

lemma nqueen_messages_received_witness:
  "receive_all (nq_line nq_demo) [''8 1'', '' 5'' @ [CHR 0x0D], [CHR 0x0A] @ ''$ '', ''4'' @ kCRLF]
     ([], demo_buffer) \<in> {Some (Inl Length_Error)} \<union>
       {Some (Inr ([Q_Request \<lparr>nQueen = 8, rq_cols = [1, 5]\<rparr>, Q_Cores 4], b')) | b'. contents b' = []}"
proof -
  let ?ms = "[Q_Request \<lparr>nQueen = 8, rq_cols = [1, 5]\<rparr>, Q_Cores 4]"
  have v: "list_all (nq_valid nq_demo) ?ms" by (simp add: nq_demo_def)
  have t: "to_string 8 = ''8''" "to_string 1 = ''1''" "to_string 5 = ''5''" "to_string 4 = ''4''"
    by code_simp+
  have c: "concat [''8 1'', '' 5'' @ [CHR 0x0D], [CHR 0x0A] @ ''$ '', ''4'' @ kCRLF] =
      concat (map nq_send ?ms)"
    by (simp add: request_string_def cores_string_def t kCRLF_def)
  show ?thesis
    using nqueen_messages_received[OF demo_buffer_ok(1,2) v c]
    by (auto simp: extrabuf_size_def kCRLF_def)
qed

end
