(* ===== verification/Ev_NQueens.thy ===== *)
theory Ev_NQueens
  imports Ev_NQueenCodec
begin

text \<open>
  The solver of \<^verbatim>\<open>example/nqueen/NQueenServer.cc\<close> (class \<open>BackTrack\<close>), which counts the ways to complete a
  partial placement of queens with three bit masks per row, and the division of the problem in
  \<^verbatim>\<open>example/nqueen/NQueenClient.cc\<close>. Array accesses outside the 32 rows and an overflow of the 64-bit
  counter are errors.
\<close>

unbundle bit_operations_syntax

section \<open>The solver\<close>

definition kMaxQueens :: nat where
  "kMaxQueens = 32"

record backtrack =
  bt_count :: int
  bt_col :: "32 word list"
  bt_diag :: "32 word list"
  bt_antidiag :: "32 word list"

definition bt_new :: "nat \<Rightarrow> error + backtrack" where
  "bt_new n =
     bindE (assertE (n \<le> kMaxQueens \<and> 0 < n)) (\<lambda>_.
     Inr \<lparr>bt_count = 0, bt_col = replicate kMaxQueens 0, bt_diag = replicate kMaxQueens 0,
          bt_antidiag = replicate kMaxQueens 0\<rparr>)"

definition unavail :: "nat \<Rightarrow> backtrack \<Rightarrow> 32 word" where
  "unavail row b = (bt_col b ! row OR bt_diag b ! row) OR bt_antidiag b ! row"

text \<open>The three assignments to row \<open>row + 1\<close>.\<close>

definition place :: "nat \<Rightarrow> 32 word \<Rightarrow> backtrack \<Rightarrow> error + backtrack" where
  "place row m b =
     (if row + 1 < kMaxQueens then
        Inr (b\<lparr>bt_col := (bt_col b)[row + 1 := bt_col b ! row OR m],
               bt_diag := (bt_diag b)[row + 1 := drop_bit 1 (bt_diag b ! row OR m)],
               bt_antidiag := (bt_antidiag b)[row + 1 := push_bit 1 (bt_antidiag b ! row OR m)]\<rparr>)
      else Inl Out_Of_Bounds)"

definition count_incr :: "backtrack \<Rightarrow> error + backtrack" where
  "count_incr b =
     (if bt_count b + 1 < 2 ^ 63 then Inr (b\<lparr>bt_count := bt_count b + 1\<rparr>) else Inl Signed_Overflow)"

fun tryPutQueens :: "nat \<Rightarrow> 32 word list \<Rightarrow> nat \<Rightarrow> backtrack \<Rightarrow> error + (bool \<times> backtrack)" where
  "tryPutQueens n [] row b = Inr (True, b)"
| "tryPutQueens n (q # qs) row b =
     (if n \<le> unat q then Inr (False, b)
      else
        let m = push_bit (unat q) 1 in
        if unavail row b AND m \<noteq> 0 then Inr (False, b)
        else if row = n - 1 then Inr (False, b\<lparr>bt_count := 1\<rparr>)
        else bindE (place row m b) (tryPutQueens n qs (row + 1)))"

text \<open>\<open>__builtin_ctz\<close> of a word that is not zero.\<close>

definition ctz :: "32 word \<Rightarrow> nat" where
  "ctz w = length (takeWhile (\<lambda>i. \<not> bit w i) [0..<32])"

lemma clear_low_less: "w \<noteq> 0 \<Longrightarrow> unat (w AND (w - 1)) < unat (w :: 32 word)"
proof -
  assume "w \<noteq> 0"
  then have "unat (w - 1) = unat w - 1" "0 < unat w" by (simp_all add: unat_minus_one unat_gt_0)
  moreover have "unat (w AND (w - 1)) \<le> unat (w - 1)" using word_and_le1 by (simp flip: word_le_nat_alt)
  ultimately show ?thesis by simp
qed

text \<open>\<open>search\<close>; the loop over the available columns is \<open>search_loop\<close>.\<close>

function (sequential) search_loop :: "nat \<Rightarrow> nat \<Rightarrow> 32 word \<Rightarrow> backtrack \<Rightarrow> error + backtrack" where
  "search_loop n row avail b =
     (if avail = 0 then Inr b
      else
        let i = ctz avail in
        if n \<le> i then Inr b
        else
          bindE
            (if row = n - 1 then count_incr b
             else bindE (place row (push_bit i 1) b) (\<lambda>b1.
                  if row + 1 < kMaxQueens then search_loop n (row + 1) (NOT (unavail (row + 1) b1)) b1
                  else Inl Out_Of_Bounds))
            (search_loop n row (avail AND (avail - 1))))"
  by pat_completeness auto
termination
  by (relation "measures [\<lambda>(n, row, avail, b). kMaxQueens - row, \<lambda>(n, row, avail, b). unat avail]")
     (auto simp: clear_low_less)

declare search_loop.simps [simp del]

definition search :: "nat \<Rightarrow> nat \<Rightarrow> backtrack \<Rightarrow> error + backtrack" where
  "search n row b = search_loop n row (NOT (unavail row b)) b"

definition solve :: "32 word \<Rightarrow> 32 word list \<Rightarrow> error + int" where
  "solve nQueens queens =
     (let n = unat nQueens in
      bindE (bt_new n) (\<lambda>b.
      bindE (if n < length queens then Inr (False, b) else tryPutQueens n queens 0 b) (\<lambda>(ok, b1).
      bindE (if ok then search n (length queens) b1 else Inr b1) (\<lambda>b2. Inr (bt_count b2)))))"

section \<open>What it should count\<close>

definition safe :: "nat \<Rightarrow> nat list \<Rightarrow> bool" where
  "safe n cs \<longleftrightarrow> (\<forall>c\<in>set cs. c < n) \<and>
     (\<forall>j<length cs. \<forall>i<j. cs ! i \<noteq> cs ! j \<and> cs ! i + (j - i) \<noteq> cs ! j \<and> cs ! j + (j - i) \<noteq> cs ! i)"

definition completions :: "nat \<Rightarrow> nat list \<Rightarrow> nat list set" where
  "completions n qs = {cs. length cs = n \<and> safe n cs \<and> take (length qs) cs = qs}"

definition free :: "nat list \<Rightarrow> nat \<Rightarrow> bool" where
  "free qs c \<longleftrightarrow> (\<forall>i<length qs. qs ! i \<noteq> c \<and> qs ! i + (length qs - i) \<noteq> c \<and> c + (length qs - i) \<noteq> qs ! i)"

lemma safe_snoc: "safe n (qs @ [c]) \<longleftrightarrow> safe n qs \<and> c < n \<and> free qs c"
proof -
  have "(\<forall>j<Suc (length qs). P j) \<longleftrightarrow> (\<forall>j<length qs. P j) \<and> P (length qs)" for P
    by (auto simp: less_Suc_eq)
  then show ?thesis by (auto simp: safe_def free_def nth_append)
qed

lemma safe_take: "safe n cs \<Longrightarrow> safe n (take k cs)"
  by (auto simp: safe_def dest: in_set_takeD)

lemma finite_completions: "finite (completions n qs)"
proof (rule finite_subset)
  show "completions n qs \<subseteq> {cs. set cs \<subseteq> {..<n} \<and> length cs = n}"
    by (auto simp: completions_def safe_def)
qed (rule finite_lists_length_eq[OF finite_lessThan])

lemma completions_full: "length qs = n \<Longrightarrow> completions n qs = (if safe n qs then {qs} else {})"
  by (auto simp: completions_def)

lemma completions_unsafe: "\<not> safe n qs \<Longrightarrow> completions n qs = {}"
  by (auto simp: completions_def) (metis safe_take)

lemma completions_step:
  assumes "length qs < n"
  shows "card (completions n qs) = (\<Sum>c | c < n \<and> safe n (qs @ [c]). card (completions n (qs @ [c])))"
proof -
  have "completions n qs = (\<Union>c\<in>{c. c < n \<and> safe n (qs @ [c])}. completions n (qs @ [c]))"
  proof (intro set_eqI iffI)
    fix cs
    assume cs: "cs \<in> completions n qs"
    then have t: "take (Suc (length qs)) cs = qs @ [cs ! length qs]"
      using assms by (simp add: completions_def take_Suc_conv_app_nth)
    have "safe n (take (Suc (length qs)) cs)" using cs by (intro safe_take) (simp add: completions_def)
    then have "safe n (qs @ [cs ! length qs])" by (simp only: t)
    then show "cs \<in> (\<Union>c\<in>{c. c < n \<and> safe n (qs @ [c])}. completions n (qs @ [c]))"
      using cs t by (auto simp: completions_def safe_snoc)
  next
    fix cs
    assume "cs \<in> (\<Union>c\<in>{c. c < n \<and> safe n (qs @ [c])}. completions n (qs @ [c]))"
    then obtain c where "cs \<in> completions n (qs @ [c])" by blast
    then have "length cs = n" "safe n cs" "take (Suc (length qs)) cs = qs @ [c]"
      by (simp_all add: completions_def)
    moreover from this have "take (length qs) cs = qs"
      by (metis append_eq_conv_conj butlast_snoc butlast_take diff_Suc_1 length_append_singleton
          take_Suc_conv_app_nth append_butlast_last_id assms Suc_leI)
    ultimately show "cs \<in> completions n qs" by (simp add: completions_def)
  qed
  also have "card \<dots> = (\<Sum>c | c < n \<and> safe n (qs @ [c]). card (completions n (qs @ [c])))"
  proof (rule card_UN_disjoint)
    show "\<forall>c\<in>{c. c < n \<and> safe n (qs @ [c])}. \<forall>d\<in>{c. c < n \<and> safe n (qs @ [c])}.
        c \<noteq> d \<longrightarrow> completions n (qs @ [c]) \<inter> completions n (qs @ [d]) = {}"
      by (auto simp: completions_def)
  qed (simp_all add: finite_completions)
  finally show ?thesis .
qed

section \<open>The masks\<close>

text \<open>
  What the masks of the row after the placed queens say of each of the 32 columns: taken by a queen
  in the same column, by one to the upper right, by one to the upper left.
\<close>

definition masks_ok :: "backtrack \<Rightarrow> nat list \<Rightarrow> bool" where
  "masks_ok b qs \<longleftrightarrow>
     (let r = length qs in
      (\<forall>c<32. bit (bt_col b ! r) c \<longleftrightarrow> (\<exists>i<r. qs ! i = c)) \<and>
      (\<forall>c<32. bit (bt_diag b ! r) c \<longleftrightarrow> (\<exists>i<r. c + (r - i) = qs ! i)) \<and>
      (\<forall>c<32. bit (bt_antidiag b ! r) c \<longleftrightarrow> (\<exists>i<r. qs ! i + (r - i) = c)))"

definition sized :: "backtrack \<Rightarrow> bool" where
  "sized b \<longleftrightarrow> length (bt_col b) = 32 \<and> length (bt_diag b) = 32 \<and> length (bt_antidiag b) = 32"

text \<open>The rows up to \<open>r\<close> are the same.\<close>

definition same_rows :: "nat \<Rightarrow> backtrack \<Rightarrow> backtrack \<Rightarrow> bool" where
  "same_rows r b b' \<longleftrightarrow>
     (\<forall>i\<le>r. bt_col b' ! i = bt_col b ! i \<and> bt_diag b' ! i = bt_diag b ! i \<and>
        bt_antidiag b' ! i = bt_antidiag b ! i)"

lemma same_rows_refl [simp]: "same_rows r b b"
  by (simp add: same_rows_def)

lemma same_rows_trans: "same_rows r a b \<Longrightarrow> same_rows r' b c \<Longrightarrow> r \<le> r' \<Longrightarrow> same_rows r a c"
  by (simp add: same_rows_def)

lemma masks_same: "same_rows r b b' \<Longrightarrow> length qs \<le> r \<Longrightarrow> masks_ok b' qs = masks_ok b qs"
  by (simp add: same_rows_def masks_ok_def Let_def)

lemma unavail_bit:
  assumes "masks_ok b qs" and "c < 32"
  shows "bit (unavail (length qs) b) c \<longleftrightarrow> \<not> free qs c"
  using assms by (auto simp: masks_ok_def Let_def unavail_def bit_or_iff free_def)

lemma one_bit [simp]: "q < 32 \<Longrightarrow> bit (2 ^ q :: 32 word) c \<longleftrightarrow> c = q"
  by (auto simp: bit_exp_iff)

lemma unavail_and:
  assumes "masks_ok b qs" and "q < 32"
  shows "unavail (length qs) b AND push_bit q 1 \<noteq> 0 \<longleftrightarrow> \<not> free qs q"
proof -
  have "unavail (length qs) b AND 2 ^ q \<noteq> 0 \<longleftrightarrow> bit (unavail (length qs) b) q"
    by (simp add: and_exp_eq_0_iff_not_bit)
  then show ?thesis using unavail_bit[OF assms] by simp
qed

lemma ex_less_Suc: "(\<exists>i<Suc r. P i) \<longleftrightarrow> (\<exists>i<r. P i) \<or> P r"
  by (auto simp: less_Suc_eq)

lemma bit_push_1_0: "\<not> bit (push_bit 1 w) (0 :: nat)" for w :: "32 word"
  by (simp add: bit_0)

lemma bit_push_1_Suc: "Suc d < 32 \<Longrightarrow> bit (push_bit 1 w) (Suc d) = bit (w :: 32 word) d"
  by (rule trans[OF bit_push_bit_iff]) simp

lemma place_ok:
  assumes m: "masks_ok b qs" and s: "sized b" and q: "q < 32" and qs: "\<forall>x\<in>set qs. x < 32"
    and r: "length qs + 1 < 32"
  shows "\<exists>b'. place (length qs) (push_bit q 1) b = Inr b' \<and> masks_ok b' (qs @ [q]) \<and> sized b' \<and>
    same_rows (length qs) b b' \<and> bt_count b' = bt_count b"
proof -
  let ?r = "length qs" let ?m = "push_bit q (1 :: 32 word)"
  let ?b = "b\<lparr>bt_col := (bt_col b)[?r + 1 := bt_col b ! ?r OR ?m],
     bt_diag := (bt_diag b)[?r + 1 := drop_bit 1 (bt_diag b ! ?r OR ?m)],
     bt_antidiag := (bt_antidiag b)[?r + 1 := push_bit 1 (bt_antidiag b ! ?r OR ?m)]\<rparr>"
  have rows: "bt_col ?b ! (?r + 1) = bt_col b ! ?r OR ?m"
    "bt_diag ?b ! (?r + 1) = drop_bit 1 (bt_diag b ! ?r OR ?m)"
    "bt_antidiag ?b ! (?r + 1) = push_bit 1 (bt_antidiag b ! ?r OR ?m)"
    using s r by (simp_all add: sized_def)
  have antis: "bit (bt_antidiag b ! ?r) d \<longleftrightarrow> (\<exists>i<?r. qs ! i + (?r - i) = d)" if "d < 32" for d
    using m that unfolding masks_ok_def Let_def by blast
  have nth: "(qs @ [q]) ! i = qs ! i" if "i < ?r" for i using that by (simp add: nth_append)
  have col: "bit (bt_col ?b ! (?r + 1)) c \<longleftrightarrow> (\<exists>i<Suc ?r. (qs @ [q]) ! i = c)" if "c < 32" for c
    using m that q unfolding rows ex_less_Suc by (auto simp: masks_ok_def Let_def bit_or_iff nth)
  have diag: "bit (bt_diag ?b ! (?r + 1)) c \<longleftrightarrow> (\<exists>i<Suc ?r. c + (Suc ?r - i) = (qs @ [q]) ! i)"
    if c: "c < 32" for c
  proof (cases "c + 1 < 32")
    case True
    have "bit (bt_diag ?b ! (?r + 1)) c \<longleftrightarrow> (\<exists>i<?r. c + 1 + (?r - i) = qs ! i) \<or> c + 1 = q"
      using m True q unfolding rows
      by (simp add: masks_ok_def Let_def bit_or_iff bit_drop_bit_eq)
    also have "\<dots> \<longleftrightarrow> (\<exists>i<?r. c + (Suc ?r - i) = (qs @ [q]) ! i) \<or> c + 1 = q"
      by (auto simp: nth Suc_diff_le)
    finally show ?thesis unfolding ex_less_Suc by simp
  next
    case False
    then have c31: "c = 31" using c by simp
    have "\<not> bit (bt_diag ?b ! (?r + 1)) c"
      unfolding rows c31 by (simp add: bit_drop_bit_eq bit_or_iff impossible_bit)
    moreover have "c + (Suc ?r - i) \<noteq> (qs @ [q]) ! i" if "i < Suc ?r" for i
    proof -
      have "(qs @ [q]) ! i < 32" using qs q that by (auto simp: nth_append)
      then show ?thesis using c31 that by simp
    qed
    ultimately show ?thesis by blast
  qed
  have anti: "bit (bt_antidiag ?b ! (?r + 1)) c \<longleftrightarrow> (\<exists>i<Suc ?r. (qs @ [q]) ! i + (Suc ?r - i) = c)"
    if c: "c < 32" for c
  proof (cases c)
    case 0
    have no: "\<not> bit (bt_antidiag ?b ! (?r + 1)) 0" unfolding rows by (rule bit_push_1_0)
    have none: "\<not> (\<exists>i<Suc ?r. (qs @ [q]) ! i + (Suc ?r - i) = 0)" by simp
    show ?thesis unfolding 0 by (simp only: no none)
  next
    case (Suc d)
    have "bit (bt_antidiag ?b ! (?r + 1)) c \<longleftrightarrow> bit (bt_antidiag b ! ?r OR ?m) d"
      unfolding rows Suc using c unfolding Suc by (rule bit_push_1_Suc)
    also have "\<dots> \<longleftrightarrow> bit (bt_antidiag b ! ?r) d \<or> d = q"
      using q by (simp add: bit_or_iff)
    also have "\<dots> \<longleftrightarrow> (\<exists>i<?r. qs ! i + (?r - i) = d) \<or> d = q"
      using antis[of d] c Suc by simp
    also have "\<dots> \<longleftrightarrow> (\<exists>i<?r. (qs @ [q]) ! i + (Suc ?r - i) = c) \<or> q + 1 = c"
      using Suc by (auto simp: nth Suc_diff_le)
    finally show ?thesis unfolding ex_less_Suc by simp
  qed
  have "masks_ok ?b (qs @ [q])"
    using col diag anti by (simp add: masks_ok_def Let_def)
  moreover have "place ?r ?m b = Inr ?b" using r by (simp add: place_def kMaxQueens_def)
  moreover have "sized ?b" "same_rows ?r b ?b" using s by (simp_all add: sized_def same_rows_def)
  ultimately show ?thesis by (intro exI[of _ ?b]) simp
qed

section \<open>Walking through the set bits\<close>

lemma div_mult_low: "x < p \<Longrightarrow> (k * p + x) div p = (k :: nat)"
  by simp

lemma clear_low_nat:
  fixes k i j :: nat
  defines "n \<equiv> k * 2 ^ (i + 1) + 2 ^ i"
  shows "bit n j \<and> bit (n - 1) j \<longleftrightarrow> bit n j \<and> j \<noteq> i"
proof -
  have one: "(1::nat) \<le> 2 ^ i" by simp
  then have n1: "n - 1 = k * 2 ^ (i + 1) + (2 ^ i - 1)"
    unfolding n_def by (rule diff_add_assoc)
  consider "j < i" | "j = i" | "i < j" by linarith
  then show ?thesis
  proof cases
    case 1
    then obtain d where d: "i = j + Suc d" by (metis add_Suc_right less_imp_Suc_add)
    have "n = 2 ^ j * (2 * (k * 2 ^ (Suc d) + 2 ^ d))"
      by (simp add: n_def d power_add algebra_simps)
    then have "\<not> bit n j" by (simp add: bit_iff_odd)
    then show ?thesis by simp
  next
    case 2
    have "n - 1 = 2 ^ i * (2 * k) + (2 ^ i - 1)" unfolding n1 by (simp add: algebra_simps)
    moreover have "(2 ^ i * (2 * k) + (2 ^ i - 1)) div 2 ^ i = 2 * k"
      by (rule div_nat_eqI) (use one in \<open>linarith, unfold mult_Suc_right, linarith\<close>)
    ultimately have "(n - 1) div 2 ^ i = 2 * k" by (rule trans[OF arg_cong])
    then have "\<not> bit (n - 1) j" using 2 by (simp add: bit_iff_odd)
    then show ?thesis using 2 by simp
  next
    case 3
    then obtain d where d: "j = (i + 1) + d" using less_iff_Suc_add by auto
    have lt: "2 ^ i < (2::nat) ^ (i + 1)" by simp
    have "n div 2 ^ (i + 1) = k" unfolding n_def by (rule div_mult_low[OF lt])
    moreover have "(n - 1) div 2 ^ (i + 1) = k"
      unfolding n1 by (rule div_mult_low[OF le_less_trans[OF diff_le_self lt]])
    ultimately have "n div 2 ^ j = k div 2 ^ d" "(n - 1) div 2 ^ j = k div 2 ^ d"
      unfolding d by (simp_all only: div_exp_eq[of _ "i + 1" d, symmetric])
    then show ?thesis using 3 by (simp add: bit_iff_odd)
  qed
qed

lemma ctz_low:
  assumes "w \<noteq> 0"
  shows "ctz w < 32" and "bit w (ctz w)" and "j < ctz w \<Longrightarrow> \<not> bit w j"
proof -
  obtain c where c: "bit w c" using assms by (metis bit_eqI bit_0_eq bot_apply bot_bool_def)
  then have "c < 32" using bit_imp_le_length[of w c] by simp
  then have "\<exists>i\<in>set [0..<32]. bit w i" using c by auto
  then have lt: "length (takeWhile (\<lambda>i. \<not> bit w i) [0..<32]) < length [0..<32::nat]"
    by (metis length_takeWhile_le order_le_less takeWhile_eq_all_conv takeWhile_eq_take take_all_iff order_refl)
  then show "ctz w < 32" by (simp add: ctz_def)
  have "\<not> \<not> bit w ([0..<32] ! ctz w)"
    unfolding ctz_def by (rule nth_length_takeWhile[OF lt])
  then show "bit w (ctz w)" using \<open>ctz w < 32\<close> by simp
  show "\<not> bit w j" if "j < ctz w"
  proof -
    have "takeWhile (\<lambda>i. \<not> bit w i) [0..<32] ! j \<in> set (takeWhile (\<lambda>i. \<not> bit w i) [0..<32])"
      using that by (intro nth_mem) (simp add: ctz_def)
    moreover have "takeWhile (\<lambda>i. \<not> bit w i) [0..<32] ! j = j"
      using that \<open>ctz w < 32\<close> by (simp add: takeWhile_nth ctz_def)
    ultimately show ?thesis using set_takeWhileD by fastforce
  qed
qed

lemma clear_low_bits:
  fixes w :: "32 word"
  assumes "w \<noteq> 0"
  shows "bit (w AND (w - 1)) j \<longleftrightarrow> bit w j \<and> j \<noteq> ctz w"
proof -
  let ?i = "ctz w" let ?n = "unat w"
  have nb: "bit (unat v) x \<longleftrightarrow> bit v x" for v :: "32 word" and x
    using bit_imp_le_length[of v x] by (auto simp: bit_unsigned_iff)
  have "take_bit ?i ?n = 0"
    by (rule bit_eqI) (use ctz_low(3)[OF assms] in \<open>auto simp: bit_take_bit_iff nb\<close>)
  then have dv: "2 ^ ?i dvd ?n" by (simp add: take_bit_eq_0_iff)
  then obtain m where m: "?n = 2 ^ ?i * m" by blast
  have "odd (?n div 2 ^ ?i)" using ctz_low(2)[OF assms] nb[of w ?i] by (simp add: bit_iff_odd)
  then have "odd m" by (simp add: m)
  then obtain k where "m = 2 * k + 1" using oddE by blast
  then have n: "?n = k * 2 ^ (?i + 1) + 2 ^ ?i" using m by (simp add: algebra_simps)
  have "bit (w - 1) j \<longleftrightarrow> bit (?n - 1) j"
    using nb[of "w - 1" j] unat_minus_one[OF assms] by simp
  then show ?thesis using clear_low_nat[of k ?i j] nb[of w j] by (simp add: bit_and_iff n)
qed

section \<open>The search counts the completions\<close>

text \<open>The columns left in \<open>avail\<close>, and how many completions start in them.\<close>

definition open_cols :: "nat \<Rightarrow> 32 word \<Rightarrow> nat set" where
  "open_cols n avail = {c. c < n \<and> bit avail c}"

definition tally :: "nat \<Rightarrow> nat list \<Rightarrow> 32 word \<Rightarrow> nat" where
  "tally n qs avail = (\<Sum>c\<in>open_cols n avail. card (completions n (qs @ [c])))"

lemma finite_open_cols [simp]: "finite (open_cols n avail)"
  by (simp add: open_cols_def)

lemma tally_done: "avail = 0 \<or> n \<le> ctz avail \<Longrightarrow> tally n qs avail = 0"
proof -
  assume a: "avail = 0 \<or> n \<le> ctz avail"
  have "c \<notin> open_cols n avail" for c
  proof (cases "avail = 0")
    case False
    then have "\<not> bit avail c" if "c < n" using ctz_low(3)[of avail c] a that by simp
    then show ?thesis by (auto simp: open_cols_def)
  qed (simp add: open_cols_def)
  then have "open_cols n avail = {}" by blast
  then show ?thesis by (simp add: tally_def)
qed

lemma tally_step:
  assumes "avail \<noteq> 0" and "ctz avail < n"
  shows "tally n qs avail = card (completions n (qs @ [ctz avail])) + tally n qs (avail AND (avail - 1))"
proof -
  have "open_cols n avail = insert (ctz avail) (open_cols n (avail AND (avail - 1)))"
    using assms ctz_low(2)[OF assms(1)] by (auto simp: open_cols_def clear_low_bits)
  moreover have "ctz avail \<notin> open_cols n (avail AND (avail - 1))"
    using assms by (simp add: open_cols_def clear_low_bits)
  ultimately show ?thesis by (simp add: tally_def)
qed

lemma tally_free:
  assumes m: "masks_ok b qs" and s: "safe n qs" and n: "n \<le> 32" and l: "length qs < n"
  shows "tally n qs (NOT (unavail (length qs) b)) = card (completions n qs)"
proof -
  have "open_cols n (NOT (unavail (length qs) b)) = {c. c < n \<and> safe n (qs @ [c])}"
    using s n by (auto simp: open_cols_def bit_not_iff unavail_bit[OF m] safe_snoc)
  then show ?thesis by (simp add: tally_def completions_step[OF l])
qed

lemma search_loop_tally:
  assumes "masks_ok b qs" and "sized b" and "safe n qs" and "row = length qs" and "row < n" and "n \<le> 32"
    and "\<forall>c\<in>open_cols n avail. free qs c" and "bt_count b + int (tally n qs avail) < 2 ^ 63"
  shows "\<exists>b'. search_loop n row avail b = Inr b' \<and> sized b' \<and> same_rows row b b' \<and>
    bt_count b' = bt_count b + int (tally n qs avail)"
  using assms
proof (induction n row avail b arbitrary: qs rule: search_loop.induct)
  case (1 n row avail b)
  note m = "1.prems"(1) and s = "1.prems"(2) and sf = "1.prems"(3) and row = "1.prems"(4)
    and lt = "1.prems"(5) and n = "1.prems"(6) and fr = "1.prems"(7) and big = "1.prems"(8)
  let ?i = "ctz avail"
  show ?case
  proof (cases "avail = 0 \<or> n \<le> ?i")
    case True
    then show ?thesis using s by (auto simp: search_loop.simps[of n row avail b] tally_done Let_def)
  next
    case False
    then have nz: "avail \<noteq> 0" and i: "?i < n" by simp_all
    have sq: "safe n (qs @ [?i])"
      using fr ctz_low(2)[OF nz] i sf by (auto simp: open_cols_def safe_snoc)
    let ?body = "if row = n - 1 then count_incr b
      else bindE (place row (push_bit ?i 1) b) (\<lambda>b1.
        if row + 1 < kMaxQueens then search_loop n (row + 1) (NOT (unavail (row + 1) b1)) b1
        else Inl Out_Of_Bounds)"
    note t = tally_step[OF nz i, of qs]
    have "\<exists>b1. ?body = Inr b1 \<and> sized b1 \<and> same_rows row b b1 \<and>
      bt_count b1 = bt_count b + int (card (completions n (qs @ [?i])))"
    proof (cases "row = n - 1")
      case True
      then have "card (completions n (qs @ [?i])) = 1"
        using row lt sq by (simp add: completions_full)
      then show ?thesis using True s big t by (simp add: count_incr_def sized_def same_rows_def)
    next
      case False
      have "\<forall>x\<in>set qs. x < 32" using sf n by (auto simp: safe_def)
      moreover have "length qs + 1 < 32" using row lt n False by linarith
      ultimately obtain b1 where b1: "place row (push_bit ?i 1) b = Inr b1" "masks_ok b1 (qs @ [?i])"
        "sized b1" "same_rows row b b1" "bt_count b1 = bt_count b"
        using place_ok[OF m s, of ?i] i n row by auto
      have tf: "tally n (qs @ [?i]) (NOT (unavail (row + 1) b1)) = card (completions n (qs @ [?i]))"
        using tally_free[OF b1(2) sq n] row lt False by simp
      have l1: "row + 1 < n" using lt False by linarith
      have "\<forall>c\<in>open_cols n (NOT (unavail (row + 1) b1)). free (qs @ [?i]) c"
        using unavail_bit[OF b1(2)] n row by (auto simp: open_cols_def bit_not_iff)
      then obtain b2 where b2: "search_loop n (row + 1) (NOT (unavail (row + 1) b1)) b1 = Inr b2"
        "sized b2" "same_rows (row + 1) b1 b2"
        "bt_count b2 = bt_count b1 + int (card (completions n (qs @ [?i])))"
        using "1.IH"(1)[OF nz refl _ False b1(1), of "qs @ [?i]"] b1 sq row l1 n big t i tf
        by (auto simp: kMaxQueens_def)
      have "same_rows row b b2" using same_rows_trans[OF b1(4) b2(3)] by simp
      then show ?thesis using False b1 b2 row l1 n by (auto simp: kMaxQueens_def)
    qed
    then obtain b1 where b1: "?body = Inr b1" "sized b1" "same_rows row b b1"
      "bt_count b1 = bt_count b + int (card (completions n (qs @ [?i])))" by blast
    have "masks_ok b1 qs" using masks_same[OF b1(3)] row m by simp
    moreover have "\<forall>c\<in>open_cols n (avail AND (avail - 1)). free qs c"
      using fr by (auto simp: open_cols_def clear_low_bits[OF nz])
    ultimately obtain b2 where b2: "search_loop n row (avail AND (avail - 1)) b1 = Inr b2" "sized b2"
      "same_rows row b1 b2" "bt_count b2 = bt_count b1 + int (tally n qs (avail AND (avail - 1)))"
      using "1.IH"(2)[OF nz refl _ b1(1), of qs] b1 sf row lt n big t i by auto
    have "search_loop n row avail b = Inr b2"
      using nz i b1(1) b2(1) by (simp add: search_loop.simps[of n row avail b] Let_def)
    moreover have "same_rows row b b2" using same_rows_trans[OF b1(3) b2(3)] by simp
    ultimately show ?thesis using b1 b2 t by simp
  qed
qed

lemma search_tally:
  assumes "masks_ok b qs" and "sized b" and "safe n qs" and "length qs < n" and "n \<le> 32"
    and "bt_count b + int (card (completions n qs)) < 2 ^ 63"
  shows "\<exists>b'. search n (length qs) b = Inr b' \<and> bt_count b' = bt_count b + int (card (completions n qs))"
proof -
  have "\<forall>c\<in>open_cols n (NOT (unavail (length qs) b)). free qs c"
    using unavail_bit[OF assms(1)] assms(5) by (auto simp: open_cols_def bit_not_iff)
  then show ?thesis
    using search_loop_tally[OF assms(1-3) refl assms(4,5), of "NOT (unavail (length qs) b)"]
      tally_free[OF assms(1,3,5,4)] assms(6) unfolding search_def by auto
qed

text \<open>
  Placing the queens given: each goes to its row if that is free; the last row of the board ends the
  count with 1.
\<close>

fun put_post :: "nat \<Rightarrow> nat list \<Rightarrow> bool \<times> backtrack \<Rightarrow> bool" where
  "put_post n qs (True, b) \<longleftrightarrow> masks_ok b qs \<and> sized b \<and> safe n qs \<and> length qs < n \<and> bt_count b = 0"
| "put_post n qs (False, b) \<longleftrightarrow> bt_count b = int (card (completions n qs))"

lemma tryPutQueens_spec:
  assumes "masks_ok b qs" and "sized b" and "safe n qs" and "length qs < n" and "n \<le> 32"
    and "length qs + length cs \<le> n" and "bt_count b = 0"
  shows "\<exists>p. tryPutQueens n cs (length qs) b = Inr p \<and> put_post n (qs @ map unat cs) p"
  using assms
proof (induction cs arbitrary: qs b)
  case Nil
  then show ?case by simp
next
  case (Cons c cs)
  note m = Cons.prems(1) and s = Cons.prems(2) and sf = Cons.prems(3) and n = Cons.prems(5)
  let ?c = "unat c"
  have tk: "completions n (qs @ map unat (c # cs)) = {}" if "\<not> safe n (qs @ [?c])"
    using that safe_take[of n "qs @ map unat (c # cs)" "length qs + 1"]
    by (intro completions_unsafe) auto
  show ?case
  proof (cases "n \<le> ?c \<or> \<not> free qs ?c")
    case True
    then have "\<not> safe n (qs @ [?c])" by (auto simp: safe_snoc)
    then have "card (completions n (qs @ map unat (c # cs))) = 0" using tk by simp
    moreover have "tryPutQueens n (c # cs) (length qs) b = Inr (False, b)"
      using True n unavail_and[OF m, of ?c] by (cases "n \<le> ?c") (auto simp: Let_def)
    ultimately show ?thesis using Cons.prems(7) by simp
  next
    case False
    then have c: "?c < n" and fr: "free qs ?c" by auto
    then have sq: "safe n (qs @ [?c])" using sf by (simp add: safe_snoc)
    have free: "\<not> unavail (length qs) b AND push_bit ?c 1 \<noteq> 0"
      using unavail_and[OF m, of ?c] c fr n by simp
    show ?thesis
    proof (cases "length qs = n - 1")
      case True
      then have "cs = []" using Cons.prems(4,6) by (cases cs) auto
      moreover have "card (completions n (qs @ [?c])) = 1"
        using sq True Cons.prems(4) by (simp add: completions_full)
      ultimately show ?thesis using True c free by (simp add: Let_def)
    next
      case False
      have "\<forall>x\<in>set qs. x < 32" using sf n by (auto simp: safe_def)
      moreover have l: "length qs + 1 < n" using Cons.prems(4) False by linarith
      ultimately obtain b1 where b1: "place (length qs) (push_bit ?c 1) b = Inr b1"
        "masks_ok b1 (qs @ [?c])" "sized b1" "bt_count b1 = bt_count b"
        using place_ok[OF m s, of ?c] c n by auto
      have "tryPutQueens n (c # cs) (length qs) b = tryPutQueens n cs (length (qs @ [?c])) b1"
        using c free False b1(1) by (simp add: Let_def)
      then show ?thesis
        using Cons.IH[OF b1(2,3) sq _ n] b1(4) Cons.prems(6,7) l by simp
    qed
  qed
qed

lemma masks_ok_new: "bt_new n = Inr b \<Longrightarrow> masks_ok b [] \<and> sized b \<and> bt_count b = 0 \<and> 0 < n \<and> n \<le> 32"
  by (cases "n \<le> kMaxQueens \<and> 0 < n")
     (auto simp: bt_new_def masks_ok_def sized_def kMaxQueens_def)

lemma completions_too_long: "n < length qs \<Longrightarrow> completions n qs = {}"
  by (auto simp: completions_def dest: arg_cong[where f = length])

lemma completions_bound: "card (completions n qs) \<le> fact n"
proof -
  let ?P = "{cs. length cs = n \<and> distinct cs \<and> set cs \<subseteq> {..<n}}"
  have fin: "finite ?P"
    by (rule finite_subset[OF _ finite_lists_length_eq[of "{..<n}" n]]) auto
  have "distinct cs" if "safe n cs" for cs
    using that unfolding safe_def distinct_conv_nth by (metis linorder_neqE_nat)
  then have "completions n qs \<subseteq> ?P" by (auto simp: completions_def safe_def)
  then have "card (completions n qs) \<le> card ?P" by (rule card_mono[OF fin])
  also have "\<dots> = fact n"
    using card_lists_distinct_length_eq[of "{..<n}" n] by (simp add: fact_prod)
  finally show ?thesis .
qed

lemma solve_count:
  assumes "0 < unat n" and "unat n \<le> 32"
    and "card (completions (unat n) (map unat qs)) < 2 ^ 63"
  shows "solve n qs = Inr (int (card (completions (unat n) (map unat qs))))"
proof -
  let ?n = "unat n" let ?q = "map unat qs"
  obtain b where b: "bt_new ?n = Inr b" using assms by (simp add: bt_new_def kMaxQueens_def)
  note new = masks_ok_new[OF b]
  show ?thesis
  proof (cases "?n < length qs")
    case True
    then show ?thesis using b new by (simp add: solve_def completions_too_long)
  next
    case False
    moreover have "safe ?n []" by (simp add: safe_def)
    ultimately obtain ok b1 where t: "tryPutQueens ?n qs 0 b = Inr (ok, b1)" "put_post ?n ?q (ok, b1)"
      using tryPutQueens_spec[of b "[]" ?n qs] new by auto
    show ?thesis
    proof (cases ok)
      case True
      then show ?thesis
        using t False b search_tally[of b1 ?q ?n] assms by (auto simp: solve_def Let_def)
    next
      case notok: False
      then show ?thesis using t False b by (simp add: solve_def Let_def)
    qed
  qed
qed

text \<open>
  C17: for a board of 1 to 32 rows and any list of queens, whatever the request holds, the solver
  neither accesses a row out of bounds nor overflows, and returns the number of placements of all
  queens that continue the list without an attack: 0 for a list that is too long, names a column off
  the board or has two queens attacking each other. (The number fits the 64-bit counter: the
  hypothesis on it is one on the problem, not on the code.)
\<close>

theorem solve_counts:
  assumes "0 < unat n" and "unat n \<le> 32"
    and "card (completions (unat n) (map unat qs)) < 2 ^ 63"
  shows "solve n qs = Inr (int (card (completions (unat n) (map unat qs))))"
  using assms by (rule solve_count)

theorem solve_counts_witness:
  "solve 4 [1] = Inr (int (card (completions 4 [1]))) \<and> solve 4 [1] = Inr 1"
proof -
  have "fact 4 < (2 ^ 63 :: nat)" by (simp add: fact_numeral)
  then have "card (completions (unat (4 :: 32 word)) (map unat [1 :: 32 word])) < 2 ^ 63"
    using completions_bound[of 4 "[1]"] by simp
  then have "solve 4 [1] = Inr (int (card (completions 4 [1])))" using solve_counts[of 4 "[1]"] by simp
  moreover have "solve 4 [1] = Inr 1" by code_simp
  ultimately show ?thesis by simp
qed

end
