(* ===== verification/Ev_NQueenApp.thy ===== *)
theory Ev_NQueenApp
  imports Ev_NQueens "HOL-Library.Multiset"
begin

text \<open>
  The two programs of the distributed n-queens example: the answer of \<^verbatim>\<open>NQueenServer.cc\<close> to a request
  and the client of \<^verbatim>\<open>NQueenClient.cc\<close>, which places the queens of the first two rows of half the board,
  hands the sub-problems to its servers and adds the answers up. The main theorem puts client and
  servers together: whatever the interleaving of connections, replies and lost connections, an answer
  that is announced is the number of solutions.
\<close>

section \<open>The server\<close>

definition onRequest :: "request \<Rightarrow> error + response" where
  "onRequest rqst =
     bindE (solve (nQueen rqst) (rq_cols rqst)) (\<lambda>n. Inr \<lparr>rs_count = n, rs_cols = rq_cols rqst\<rparr>)"

section \<open>The client\<close>

datatype 'c effect =
    Send 'c request
  | Shutdown 'c
  | Quit_Loop

record 'c qclient =
  cl_nQueen :: "32 word"
  requests :: "request list"
  totalRequests :: "32 word"
  totalResponse :: "32 word"
  answers :: int
  connections :: "'c set"

text \<open>The number of entries of \<open>answerSheet\<close>.\<close>

definition answerSheet_size :: nat where
  "answerSheet_size = 28"

definition initRequests :: "32 word \<Rightarrow> request list" where
  "initRequests n =
     (if n = 1 then [\<lparr>nQueen = n, rq_cols = []\<rparr>]
      else concat (map (\<lambda>i. map (\<lambda>j. \<lparr>nQueen = n, rq_cols = [of_nat i, of_nat j]\<rparr>) [0..<unat n])
             [0..<unat ((n + 1) div 2)]))"

definition client_new :: "32 word \<Rightarrow> 'c qclient" where
  "client_new n =
     \<lparr>cl_nQueen = n, requests = initRequests n, totalRequests = of_nat (length (initRequests n)),
      totalResponse = 0, answers = 0, connections = {}\<rparr>"

text \<open>\<open>first\<close> is the order of the hash set: the element \<open>begin()\<close> refers to.\<close>

definition onConnectError :: "('c set \<Rightarrow> 'c) \<Rightarrow> 'c qclient \<Rightarrow> 'c effect list" where
  "onConnectError first cl =
     (if connections cl = {} then [Quit_Loop] else [Shutdown (first (connections cl))])"

definition cl_onConnection :: "('c set \<Rightarrow> 'c) \<Rightarrow> 'c \<Rightarrow> bool \<Rightarrow> 'c qclient \<Rightarrow> 'c qclient \<times> 'c effect list" where
  "cl_onConnection first c up cl =
     (if up then (cl\<lparr>connections := insert c (connections cl)\<rparr>, [])
      else let cl' = cl\<lparr>connections := connections cl - {c}\<rparr> in (cl', onConnectError first cl'))"

definition sendOneRequest :: "'c \<Rightarrow> 'c qclient \<Rightarrow> error + ('c qclient \<times> 'c effect list)" where
  "sendOneRequest c cl =
     bindE (assertE (requests cl \<noteq> [])) (\<lambda>_.
     Inr (cl\<lparr>requests := butlast (requests cl)\<rparr>, [Send c (last (requests cl))]))"

definition add_answer :: "int \<Rightarrow> int \<Rightarrow> error + int" where
  "add_answer a n = (if a + n < 2 ^ 63 then Inr (a + n) else Inl Signed_Overflow)"

text \<open>Twice the count, or the count alone when the first queen is in the middle column or there is none.\<close>

definition counts_once :: "32 word \<Rightarrow> 32 word list \<Rightarrow> bool" where
  "counts_once n cols \<longleftrightarrow> cols = [] \<or> n mod 2 = 1 \<and> hd cols + 1 = (n + 1) div 2"

definition weigh :: "32 word \<Rightarrow> response \<Rightarrow> error + int" where
  "weigh n rsps =
     (if counts_once n (rs_cols rsps) then Inr (rs_count rsps)
      else if 2 * rs_count rsps < 2 ^ 63 then Inr (2 * rs_count rsps) else Inl Signed_Overflow)"

definition cl_onMessage :: "'c \<Rightarrow> response \<Rightarrow> 'c qclient \<Rightarrow> error + ('c qclient \<times> 'c effect list)" where
  "cl_onMessage c rsps cl =
     bindE (assertE (0 \<le> rs_count rsps)) (\<lambda>_.
     bindE (weigh (cl_nQueen cl) rsps) (\<lambda>n.
     bindE (add_answer (answers cl) n) (\<lambda>a.
     let cl1 = cl\<lparr>answers := a, totalResponse := totalResponse cl + 1\<rparr>;
         final = totalResponse cl1 = totalRequests cl1 in
     bindE (if final \<and> answerSheet_size \<le> unat (cl_nQueen cl1) then Inl Out_Of_Bounds else Inr ()) (\<lambda>_.
     let es = if final then [Shutdown c] else [] in
     if requests cl1 = [] then Inr (cl1, es)
     else bindE (sendOneRequest c cl1) (\<lambda>(cl2, es2). Inr (cl2, es @ es2))))))"

fun onTellCores :: "'c \<Rightarrow> nat \<Rightarrow> 'c qclient \<Rightarrow> error + ('c qclient \<times> 'c effect list)" where
  "onTellCores c 0 cl = Inr (cl, [])"
| "onTellCores c (Suc k) cl =
     (if requests cl = [] then Inr (cl, [])
      else bindE (sendOneRequest c cl) (\<lambda>(cl1, es).
           bindE (onTellCores c k cl1) (\<lambda>(cl2, es2). Inr (cl2, es @ es2))))"

section \<open>Half the board is enough\<close>

definition mirror :: "nat \<Rightarrow> nat list \<Rightarrow> nat list" where
  "mirror n cs = map (\<lambda>c. n - 1 - c) cs"

lemma mirror_mirror: "\<forall>c\<in>set cs. c < n \<Longrightarrow> mirror n (mirror n cs) = cs"
  by (induction cs) (auto simp: mirror_def)

lemma safe_mirror:
  assumes "safe n cs"
  shows "safe n (mirror n cs)"
proof -
  have b: "cs ! k < n" if "k < length cs" for k using assms that by (simp add: safe_def)
  have "\<not> (n - 1 - cs ! i = n - 1 - cs ! j \<or> n - 1 - cs ! i + (j - i) = n - 1 - cs ! j \<or>
      n - 1 - cs ! j + (j - i) = n - 1 - cs ! i)" if "j < length cs" "i < j" for i j
  proof -
    have "cs ! i \<noteq> cs ! j" "cs ! i + (j - i) \<noteq> cs ! j" "cs ! j + (j - i) \<noteq> cs ! i"
      using assms that by (simp_all add: safe_def)
    then show ?thesis using b[of i] b[of j] that by linarith
  qed
  then show ?thesis using assms by (auto simp: safe_def mirror_def)
qed

lemma completions_set: "cs \<in> completions n qs \<Longrightarrow> c \<in> set cs \<Longrightarrow> c < n"
  by (auto simp: completions_def safe_def)

lemma completions_mirror:
  assumes "i < n"
  shows "card (completions n [i]) = card (completions n [n - 1 - i])"
proof (rule bij_betw_same_card)
  have to: "mirror n cs \<in> completions n [n - 1 - k]" if "cs \<in> completions n [k]" "k < n" for cs k
    using that safe_mirror[of n cs] by (auto simp: completions_def mirror_def take_map)
  have twice: "mirror n (mirror n cs) = cs" if "cs \<in> completions n qs" for cs qs
    using completions_set[OF that] by (intro mirror_mirror) blast
  have "n - 1 - (n - 1 - i) = i" "n - 1 - i < n" using assms by simp_all
  then show "bij_betw (mirror n) (completions n [i]) (completions n [n - 1 - i])"
    using assms to[of _ "n - 1 - i"] to[of _ i] by (intro bij_betw_byWitness[of _ "mirror n"]) (auto simp: twice to)
qed

text \<open>The sum over a symmetric row from its left half and its middle.\<close>

lemma symmetric_sum:
  fixes f :: "nat \<Rightarrow> nat"
  assumes "\<And>i. i < n \<Longrightarrow> f i = f (n - 1 - i)"
  shows "(\<Sum>i<(n + 1) div 2. (if odd n \<and> i + 1 = (n + 1) div 2 then 1 else 2) * f i) = (\<Sum>i<n. f i)"
proof -
  let ?h = "n div 2"
  have "(\<Sum>i\<in>{n - ?h..<n}. f i) = (\<Sum>i<?h. f i)"
  proof (rule sum.reindex_bij_witness[where i = "\<lambda>i. n - 1 - i" and j = "\<lambda>i. n - 1 - i"])
    show "f (n - 1 - i) = f i" if "i \<in> {n - ?h..<n}" for i using that assms[of i] by simp
  qed auto
  moreover have "(\<Sum>i<n. f i) = (\<Sum>i\<in>{..<n - ?h} \<union> {n - ?h..<n}. f i)"
    by (rule arg_cong[where f = "sum f"]) auto
  moreover have "\<dots> = (\<Sum>i<n - ?h. f i) + (\<Sum>i\<in>{n - ?h..<n}. f i)"
    by (rule sum.union_disjoint) auto
  ultimately have all: "(\<Sum>i<n. f i) = (\<Sum>i<n - ?h. f i) + (\<Sum>i<?h. f i)" by (simp only:)
  show ?thesis
  proof (cases "odd n")
    case True
    then have n: "n - ?h = Suc ?h" "(n + 1) div 2 = Suc ?h" by presburger+
    have "(\<Sum>i<?h. (if odd n \<and> i + 1 = Suc ?h then 1 else 2) * f i) = (\<Sum>i<?h. 2 * f i)"
      by (rule sum.cong) auto
    then show ?thesis unfolding all unfolding n using True by (simp add: sum_distrib_left[symmetric])
  next
    case False
    then have n: "n - ?h = ?h" "(n + 1) div 2 = ?h" by presburger+
    show ?thesis unfolding all unfolding n using False by (simp add: sum_distrib_left[symmetric])
  qed
qed

text \<open>What a request stands for.\<close>

definition weight :: "32 word \<Rightarrow> request \<Rightarrow> nat" where
  "weight n r = (if counts_once n (rq_cols r) then 1 else 2)"

definition share :: "32 word \<Rightarrow> request \<Rightarrow> nat" where
  "share n r = weight n r * card (completions (unat n) (map unat (rq_cols r)))"

lemma completions_sum:
  "length qs < n \<Longrightarrow> card (completions n qs) = (\<Sum>c<n. card (completions n (qs @ [c])))"
  using completions_unsafe by (auto simp: completions_step card_gt_0_iff intro!: sum.mono_neutral_left)

lemma word_facts:
  assumes "unat n < 28"
  shows "unat ((n + 1) div 2) = (unat n + 1) div 2" and "(n :: 32 word) mod 2 = 1 \<longleftrightarrow> odd (unat n)"
    and "i < 28 \<Longrightarrow> unat (of_nat i :: 32 word) = i"
    and "i < 28 \<Longrightarrow> of_nat i + 1 = (n + 1) div 2 \<longleftrightarrow> i + 1 = (unat n + 1) div 2"
proof -
  show u: "unat (of_nat i :: 32 word) = i" if "i < 28" for i
    using that by (simp add: unat_of_nat take_bit_nat_eq_self)
  have p1: "unat (n + 1) = unat n + 1" using assms by (simp add: unat_plus_simple word_le_nat_alt unat_word_ariths)
  then show d: "unat ((n + 1) div 2) = (unat n + 1) div 2" by (simp add: unat_div)
  show "n mod 2 = 1 \<longleftrightarrow> odd (unat n)"
    by (simp add: word_unat_eq_iff unat_mod odd_iff_mod_2_eq_one)
  show "of_nat i + 1 = (n + 1) div 2 \<longleftrightarrow> i + 1 = (unat n + 1) div 2" if "i < 28"
  proof -
    have "unat (of_nat i + 1 :: 32 word) = i + 1" using u[OF that] that by (simp add: unat_word_ariths)
    then show ?thesis using d by (metis word_unat_eq_iff)
  qed
qed

lemma sum_list_concat_map: "sum_list (map f (concat xss)) = (\<Sum>xs\<leftarrow>xss. sum_list (map f xs))"
  by (induction xss) simp_all

lemma initRequests_shares:
  assumes "0 < unat n" and "unat n < 28"
  shows "(\<Sum>r\<leftarrow>initRequests n. share n r) = card (completions (unat n) [])"
proof (cases "n = 1")
  case True
  then show ?thesis by (simp add: initRequests_def share_def weight_def counts_once_def)
next
  case False
  let ?n = "unat n"
  have "?n \<noteq> 1" using False word_unat_eq_iff[of n 1] by simp
  then have n2: "1 < ?n" using assms by simp
  let ?w = "\<lambda>i. if odd ?n \<and> i + 1 = (?n + 1) div 2 then 1 else 2 :: nat"
  have sh: "share n \<lparr>nQueen = n, rq_cols = [of_nat i, of_nat j]\<rparr> = ?w i * card (completions ?n [i, j])"
    if "i < ?n" "j < ?n" for i j
    using that assms word_facts[OF assms(2)] by (simp add: share_def weight_def counts_once_def)
  have "(\<Sum>r\<leftarrow>initRequests n. share n r) =
      (\<Sum>i<(?n + 1) div 2. \<Sum>j<?n. share n \<lparr>nQueen = n, rq_cols = [of_nat i, of_nat j]\<rparr>)"
    using False word_facts(1)[OF assms(2)]
    by (simp add: initRequests_def sum_list_concat_map o_def interv_sum_list_conv_sum_set_nat atLeast0LessThan)
  also have "\<dots> = (\<Sum>i<(?n + 1) div 2. ?w i * card (completions ?n [i]))"
  proof (rule sum.cong)
    fix i
    assume "i \<in> {..<(?n + 1) div 2}"
    then have "i < ?n" using n2 by auto
    then show "(\<Sum>j<?n. share n \<lparr>nQueen = n, rq_cols = [of_nat i, of_nat j]\<rparr>) = ?w i * card (completions ?n [i])"
      using completions_sum[of "[i]" ?n] n2 by (simp add: sh flip: sum_distrib_left)
  qed simp
  also have "\<dots> = (\<Sum>i<?n. card (completions ?n [i]))"
    using completions_mirror by (intro symmetric_sum)
  also have "\<dots> = card (completions ?n [])" using completions_sum[of "[]" ?n] n2 by simp
  finally show ?thesis .
qed

section \<open>Client and servers together\<close>

text \<open>
  The client, the requests its servers are working on and (for the specification only) those whose
  connection went down: the client does not send them again. A reply comes from any request in work.
\<close>

record 'c cluster =
  client :: "'c qclient"
  in_work :: "('c \<times> request) list"
  lost :: "request list"

datatype 'c cluster_event =
    Up 'c nat
  | Reply nat
  | Down 'c

fun sent :: "'c effect list \<Rightarrow> ('c \<times> request) list" where
  "sent [] = []"
| "sent (Send c r # es) = (c, r) # sent es"
| "sent (_ # es) = sent es"

text \<open>
  \<open>Up c k\<close>: the connection is established and its server tells that it has \<open>k\<close> cores. \<open>Reply i\<close>: the
  server that has the \<open>i\<close>-th request in work answers it. \<open>Down c\<close>: the connection is lost.
\<close>

fun cluster_step :: "('c set \<Rightarrow> 'c) \<Rightarrow> 'c cluster_event \<Rightarrow> 'c cluster \<Rightarrow> error + 'c cluster" where
  "cluster_step first (Up c k) s =
     bindE (onTellCores c k (fst (cl_onConnection first c True (client s)))) (\<lambda>(cl, es).
     Inr (s\<lparr>client := cl, in_work := in_work s @ sent es\<rparr>))"
| "cluster_step first (Reply i) s =
     (let (c, r) = in_work s ! i in
      bindE (onRequest r) (\<lambda>rsps.
      bindE (cl_onMessage c rsps (client s)) (\<lambda>(cl, es).
      Inr (s\<lparr>client := cl, in_work := take i (in_work s) @ drop (Suc i) (in_work s) @ sent es\<rparr>))))"
| "cluster_step first (Down c) s =
     Inr (s\<lparr>client := fst (cl_onConnection first c False (client s)),
            in_work := filter (\<lambda>(d, r). d \<noteq> c) (in_work s),
            lost := map snd (filter (\<lambda>(d, r). d = c) (in_work s)) @ lost s\<rparr>)"

fun cluster_legal :: "'c cluster_event \<Rightarrow> 'c cluster \<Rightarrow> bool" where
  "cluster_legal (Reply i) s \<longleftrightarrow> i < length (in_work s)"
| "cluster_legal _ s \<longleftrightarrow> True"

definition cluster_new :: "32 word \<Rightarrow> 'c cluster" where
  "cluster_new n = \<lparr>client = client_new n, in_work = [], lost = []\<rparr>"

text \<open>Every sub-problem is waiting, in work, lost, or counted once.\<close>

definition open_requests :: "'c cluster \<Rightarrow> request list" where
  "open_requests s = requests (client s) @ map snd (in_work s) @ lost s"

definition cluster_inv :: "32 word \<Rightarrow> 'c cluster \<Rightarrow> bool" where
  "cluster_inv n s \<longleftrightarrow>
     0 < unat n \<and> unat n < 28 \<and> card (completions (unat n) []) < 2 ^ 63 \<and>
     cl_nQueen (client s) = n \<and> (\<forall>r\<in>set (open_requests s). nQueen r = n) \<and> 0 \<le> answers (client s) \<and>
     answers (client s) + int (\<Sum>r\<leftarrow>open_requests s. share n r) = int (card (completions (unat n) [])) \<and>
     unat (totalResponse (client s)) + length (open_requests s) = unat (totalRequests (client s))"

lemma sendOneRequest_ok:
  assumes "requests cl \<noteq> []"
  shows "sendOneRequest c cl = Inr (cl\<lparr>requests := butlast (requests cl)\<rparr>, [Send c (last (requests cl))])"
  using assms by (simp add: sendOneRequest_def)

lemma mset_butlast_last: "xs \<noteq> [] \<Longrightarrow> add_mset (last xs) (mset (butlast xs)) = mset xs"
  by (metis append_butlast_last_id mset.simps mset_append union_mset_add_mset_right add.right_neutral)

text \<open>What a batch of sends leaves unchanged, and that it only moves requests.\<close>

lemma onTellCores_moves:
  "\<exists>cl' es. onTellCores c k cl = Inr (cl', es) \<and>
     mset (requests cl') + mset (map snd (sent es)) = mset (requests cl) \<and>
     cl' = cl\<lparr>requests := requests cl'\<rparr>"
proof (induction k arbitrary: cl)
  case 0
  then show ?case by simp
next
  case (Suc k)
  show ?case
  proof (cases "requests cl = []")
    case False
    obtain cl2 es2 where s2: "onTellCores c k (cl\<lparr>requests := butlast (requests cl)\<rparr>) = Inr (cl2, es2)"
      "mset (requests cl2) + mset (map snd (sent es2)) = mset (butlast (requests cl))"
      "cl2 = cl\<lparr>requests := requests cl2\<rparr>"
      using Suc[of "cl\<lparr>requests := butlast (requests cl)\<rparr>"] by auto
    then show ?thesis using False mset_butlast_last[OF False] by (auto simp: sendOneRequest_ok)
  qed simp
qed

lemma sum_list_mset: "mset xs = mset ys \<Longrightarrow> sum_list (map f xs) = (sum_list (map f ys) :: nat)"
  by (metis mset_map sum_mset_sum_list)

text \<open>Moving requests around changes nothing.\<close>

lemma cluster_inv_moved:
  assumes "cluster_inv n s" and m: "mset (open_requests s') = mset (open_requests s)"
    and "cl_nQueen (client s') = cl_nQueen (client s)" "answers (client s') = answers (client s)"
      "totalResponse (client s') = totalResponse (client s)" "totalRequests (client s') = totalRequests (client s)"
  shows "cluster_inv n s'"
proof -
  have "length (open_requests s') = length (open_requests s)" using m by (rule mset_eq_length)
  moreover have "set (open_requests s') = set (open_requests s)" using m by (rule mset_eq_setD)
  ultimately show ?thesis using assms sum_list_mset[OF m, of "share n"] by (simp add: cluster_inv_def)
qed

lemma Up_ok:
  assumes "cluster_inv n s"
  shows "\<exists>s'. cluster_step first (Up c k) s = Inr s' \<and> cluster_inv n s' \<and> answers (client s') = answers (client s)"
proof -
  let ?cl = "client s\<lparr>connections := insert c (connections (client s))\<rparr>"
  obtain cl' es where t: "onTellCores c k ?cl = Inr (cl', es)"
    "mset (requests cl') + mset (map snd (sent es)) = mset (requests (client s))"
    "cl' = ?cl\<lparr>requests := requests cl'\<rparr>"
    using onTellCores_moves[of c k ?cl] by auto
  let ?s = "s\<lparr>client := cl', in_work := in_work s @ sent es\<rparr>"
  have "mset (open_requests ?s) = mset (open_requests s)"
    using t(2) by (simp add: open_requests_def ac_simps)
  moreover have "cl_nQueen cl' = cl_nQueen (client s)" "answers cl' = answers (client s)"
    "totalResponse cl' = totalResponse (client s)" "totalRequests cl' = totalRequests (client s)"
    by (subst t(3), simp)+
  ultimately show ?thesis using t(1) cluster_inv_moved[OF assms, of ?s] by (simp add: cl_onConnection_def)
qed

lemma Down_ok:
  assumes "cluster_inv n s"
  shows "\<exists>s'. cluster_step first (Down c) s = Inr s' \<and> cluster_inv n s' \<and> answers (client s') = answers (client s)"
proof -
  have "mset (map snd (filter (\<lambda>(d, r). d \<noteq> c) xs)) + mset (map snd (filter (\<lambda>(d, r). d = c) xs)) = mset (map snd xs)"
    for xs :: "('a \<times> request) list"
    by (induction xs) auto
  then have "cluster_inv n (s\<lparr>client := fst (cl_onConnection first c False (client s)),
            in_work := filter (\<lambda>(d, r). d \<noteq> c) (in_work s),
            lost := map snd (filter (\<lambda>(d, r). d = c) (in_work s)) @ lost s\<rparr>)"
    by (intro cluster_inv_moved[OF assms]) (auto simp: open_requests_def cl_onConnection_def Let_def ac_simps)
  then show ?thesis by (simp add: cl_onConnection_def Let_def)
qed

lemma onRequest_counts:
  assumes "nQueen r = n" "0 < unat n" "unat n < 28" "card (completions (unat n) (map unat (rq_cols r))) < 2 ^ 63"
  shows "onRequest r = Inr \<lparr>rs_count = int (card (completions (unat n) (map unat (rq_cols r)))), rs_cols = rq_cols r\<rparr>"
  using assms by (simp add: onRequest_def solve_count)

lemma weigh_share:
  assumes "share n r < 2 ^ 63"
  shows "weigh n \<lparr>rs_count = int (card (completions (unat n) (map unat (rq_cols r)))), rs_cols = rq_cols r\<rparr> =
    Inr (int (share n r))"
proof -
  have "int (share n r) < 2 ^ 63" using assms by (metis of_nat_less_iff of_nat_numeral of_nat_power)
  then show ?thesis
    by (cases "counts_once n (rq_cols r)") (simp_all add: weigh_def share_def weight_def)
qed

lemma Reply_ok:
  assumes inv: "cluster_inv n s" and i: "i < length (in_work s)"
  shows "\<exists>s'. cluster_step first (Reply i) s = Inr s' \<and> cluster_inv n s' \<and> answers (client s) \<le> answers (client s')"
proof -
  let ?cl = "client s" let ?C = "card (completions (unat n) [])"
  obtain c r where cr: "in_work s ! i = (c, r)" by fastforce
  define rest where "rest = requests ?cl @ map snd (take i (in_work s) @ drop (Suc i) (in_work s)) @ lost s"
  have "mset (in_work s) = add_mset (c, r) (mset (take i (in_work s) @ drop (Suc i) (in_work s)))"
    using id_take_nth_drop[OF i] cr by (metis mset.simps(2) mset_append union_mset_add_mset_right)
  then have "mset (map snd (in_work s)) = add_mset r (mset (map snd (take i (in_work s) @ drop (Suc i) (in_work s))))"
    by (simp only: mset_map image_mset_add_mset snd_conv)
  then have m: "mset (open_requests s) = mset (r # rest)" by (simp add: open_requests_def rest_def)
  have st: "set (open_requests s) = insert r (set rest)" using mset_eq_setD[OF m] by simp
  have sm: "(\<Sum>r\<leftarrow>open_requests s. share n r) = share n r + (\<Sum>r\<leftarrow>rest. share n r)"
    using sum_list_mset[OF m, of "share n"] by simp
  have ln: "length (open_requests s) = Suc (length rest)" using mset_eq_length[OF m] by simp
  have n: "0 < unat n" "unat n < 28" "?C < 2 ^ 63" "cl_nQueen ?cl = n" "0 \<le> answers ?cl"
    and rn: "nQueen r = n" and restn: "\<forall>r\<in>set rest. nQueen r = n"
    and bal: "answers ?cl + int (share n r) + int (\<Sum>r\<leftarrow>rest. share n r) = int ?C"
    and cnt: "unat (totalResponse ?cl) + 1 + length rest = unat (totalRequests ?cl)"
    using inv unfolding cluster_inv_def st sm ln by simp_all
  have sh: "share n r < 2 ^ 63" using bal n by linarith
  have "1 \<le> weight n r" by (simp add: weight_def)
  then have "card (completions (unat n) (map unat (rq_cols r))) \<le> share n r" by (simp add: share_def)
  then have rq: "onRequest r =
      Inr \<lparr>rs_count = int (card (completions (unat n) (map unat (rq_cols r)))), rs_cols = rq_cols r\<rparr>"
    using sh by (intro onRequest_counts[OF rn n(1,2)]) simp
  have ad: "add_answer (answers ?cl) (int (share n r)) = Inr (answers ?cl + int (share n r))"
    using bal n(3) by (simp add: add_answer_def)
  let ?cl1 = "?cl\<lparr>answers := answers ?cl + int (share n r), totalResponse := totalResponse ?cl + 1\<rparr>"
  have "unat (totalResponse ?cl) + 1 < 2 ^ 32" using cnt unsigned_less[of "totalRequests ?cl", where 'a = nat] by simp
  then have tr: "unat (totalResponse ?cl + 1) = unat (totalResponse ?cl) + 1"
    by (simp add: unat_word_ariths)
  let ?s1 = "s\<lparr>client := ?cl1, in_work := take i (in_work s) @ drop (Suc i) (in_work s)\<rparr>"
  have rest_open: "open_requests ?s1 = rest" by (simp add: open_requests_def rest_def)
  have inv1: "cluster_inv n ?s1"
    using n restn bal cnt tr by (simp add: cluster_inv_def rest_open)
  obtain cl2 es where cl2: "cl_onMessage c \<lparr>rs_count = int (card (completions (unat n) (map unat (rq_cols r)))),
      rs_cols = rq_cols r\<rparr> ?cl = Inr (cl2, es)" "cl2 = ?cl1\<lparr>requests := requests cl2\<rparr>"
    "mset (requests cl2) + mset (map snd (sent es)) = mset (requests ?cl)"
  proof (cases "requests ?cl = []")
    case True
    then show ?thesis
      using weigh_share[OF sh] ad n
      by (intro that[of ?cl1 "if totalResponse ?cl1 = totalRequests ?cl1 then [Shutdown c] else []"])
         (simp_all add: cl_onMessage_def Let_def answerSheet_size_def)
  next
    case False
    then show ?thesis
      using weigh_share[OF sh] ad n mset_butlast_last[OF False]
      by (intro that[of "?cl1\<lparr>requests := butlast (requests ?cl)\<rparr>"
            "(if totalResponse ?cl1 = totalRequests ?cl1 then [Shutdown c] else []) @ [Send c (last (requests ?cl))]"])
         (simp_all add: cl_onMessage_def Let_def answerSheet_size_def sendOneRequest_ok)
  qed
  let ?s2 = "s\<lparr>client := cl2, in_work := take i (in_work s) @ drop (Suc i) (in_work s) @ sent es\<rparr>"
  have "mset (open_requests ?s2) = mset (open_requests ?s1)"
    using cl2(3) by (simp add: open_requests_def ac_simps)
  moreover have eq: "cl_nQueen cl2 = cl_nQueen ?cl1" "answers cl2 = answers ?cl1"
    "totalResponse cl2 = totalResponse ?cl1" "totalRequests cl2 = totalRequests ?cl1"
    by (subst cl2(2), simp)+
  ultimately have "cluster_inv n ?s2" by (intro cluster_inv_moved[OF inv1]) simp_all
  then show ?thesis using rq cl2(1) cr eq(2) by simp
qed

interpretation nq_run: total_steps "cluster_step first" cluster_legal "cluster_inv n"
  "\<lambda>s s'. answers (client s) \<le> answers (client s')" for first n
proof unfold_locales
  show "\<exists>s'. cluster_step first x s = Inr s' \<and> cluster_inv n s' \<and> answers (client s) \<le> answers (client s')"
    if "cluster_inv n s" "cluster_legal x s" for x s
    using that Up_ok[of n s first] Down_ok[of n s first] Reply_ok[of n s _ first]
    by (cases x) (auto simp del: cluster_step.simps, (metis order_refl)+)
qed simp_all

lemma length_initRequests:
  assumes "unat n < 28"
  shows "length (initRequests n) < 2 ^ 32"
proof -
  have "length (initRequests n) = 1 \<or> length (initRequests n) = (unat n + 1) div 2 * unat n"
    using word_facts(1)[OF assms] by (auto simp: initRequests_def length_concat o_def sum_list_triv)
  moreover have "(unat n + 1) div 2 * unat n \<le> 28 * 28"
    using assms by (intro mult_le_mono) simp_all
  ultimately show ?thesis by auto
qed

lemma cluster_inv_new:
  assumes "0 < unat n" and "unat n < 28" and "card (completions (unat n) []) < 2 ^ 63"
  shows "cluster_inv n (cluster_new n)"
proof -
  have "unat (of_nat (length (initRequests n)) :: 32 word) = length (initRequests n)"
    using length_initRequests[OF assms(2)] by (simp add: unat_of_nat take_bit_nat_eq_self)
  moreover have "\<forall>r\<in>set (initRequests n). nQueen r = n" by (auto simp: initRequests_def)
  ultimately show ?thesis
    using assms initRequests_shares[OF assms(1,2)]
    by (simp add: cluster_inv_def cluster_new_def client_new_def open_requests_def)
qed

text \<open>
  C18: client, codec-level requests and servers together. Take any sequence of connections (each server
  telling any number of cores), replies to requests in work, in any order, and lost connections. No
  operation of the client or the solver fails; the answers counted so far never exceed the number of
  solutions; and when as many replies have come in as there were sub-problems, the sum the client
  announces is the number of ways to place the queens, no sub-problem having been lost.
\<close>

theorem nqueen_answer_right:
  assumes "0 < unat n" and "unat n < 28" and "card (completions (unat n) []) < 2 ^ 63"
    and "legal_fold cluster_legal (cluster_step first) es (cluster_new n)"
  shows "\<exists>s. foldE (cluster_step first) es (cluster_new n) = Inr s \<and>
    answers (client s) \<le> int (card (completions (unat n) [])) \<and>
    (totalResponse (client s) = totalRequests (client s) \<longrightarrow>
       answers (client s) = int (card (completions (unat n) [])) \<and> lost s = [])"
proof -
  obtain s where "foldE (cluster_step first) es (cluster_new n) = Inr s" "cluster_inv n s"
    using nq_run.run_total[OF cluster_inv_new[OF assms(1-3)] assms(4)] by blast
  then show ?thesis by (auto simp: cluster_inv_def open_requests_def)
qed

theorem nqueen_answer_right_witness:
  "\<exists>s. foldE (cluster_step (\<lambda>S. 0)) (Up (0::nat) 3 # Up 1 1 # Reply 2 # replicate 7 (Reply 0)) (cluster_new 4) = Inr s \<and>
     totalResponse (client s) = totalRequests (client s) \<and> answers (client s) = int (card (completions 4 []))"
proof -
  let ?es = "Up (0::nat) 3 # Up 1 1 # Reply 2 # replicate 7 (Reply 0)"
  have "fact 4 < (2 ^ 63 :: nat)" by (simp add: fact_numeral)
  then have c: "card (completions (unat (4 :: 32 word)) []) < 2 ^ 63" using completions_bound[of 4 "[]"] by simp
  have l: "legal_fold cluster_legal (cluster_step (\<lambda>S. 0)) ?es (cluster_new 4)" by code_simp
  have "thenP (foldE (cluster_step (\<lambda>S. 0)) ?es (cluster_new 4))
      (\<lambda>s. totalResponse (client s) = totalRequests (client s))" by code_simp
  then show ?thesis using nqueen_answer_right[of 4, OF _ _ c l] by auto
qed

text \<open>
  a peer can stop the server. A request for a board of 0 or of more than 32 rows is a valid line of
  the protocol, is handed to the solver unchecked, and fails the assert of its constructor.
\<close>

theorem bad_board_aborts:
  assumes "unat (nQueen r) = 0 \<or> 32 < unat (nQueen r)" and "hasRequest cd"
  shows "nq_line cd (nq_enc (Q_Request r)) = Inr ([Q_Request r], True) \<and> onRequest r = Inl Assert_Failed"
proof -
  have "nq_line cd (nq_enc (Q_Request r)) = Inr ([Q_Request r], True)"
    using assms(2) by (intro nq.handle_enc) simp
  moreover have "bt_new (unat (nQueen r)) = Inl Assert_Failed"
    using assms(1) by (auto simp: bt_new_def kMaxQueens_def)
  ultimately show ?thesis by (simp add: onRequest_def solve_def)
qed

theorem bad_board_aborts_witness:
  "nq_line nq_demo (nq_enc (Q_Request \<lparr>nQueen = 33, rq_cols = [0]\<rparr>)) =
     Inr ([Q_Request \<lparr>nQueen = 33, rq_cols = [0]\<rparr>], True) \<and>
   onRequest \<lparr>nQueen = 33, rq_cols = [0]\<rparr> = Inl Assert_Failed"
  using bad_board_aborts[of "\<lparr>nQueen = 33, rq_cols = [0]\<rparr>" nq_demo] by (simp add: nq_demo_def)

end
