(* ===== verification/Ev_ThreadPool.thy ===== *)
theory Ev_ThreadPool
  imports Ev_Prelude
begin

text \<open>
  \<^verbatim>\<open>tinyev/ThreadPool.cc\<close>: the bounded task queue with its two condition variables, the workers, the threads
  that are inside \<open>runTask\<close>, and \<open>stop\<close>. What a thread does while it holds the mutex is one step; the
  threads are interleaved in any order, a notification wakes any one of the waiters, and a waiter may
  wake without one. \<open>running_\<close> is changed outside the mutex, so \<open>stop\<close> is two steps.
\<close>

section \<open>State\<close>

text \<open>Where a worker is: before the test of \<open>running_\<close>, before the mutex, in \<open>notEmpty_.wait\<close>, on its way
  out of it, with the result of \<open>take\<close>, or finished.\<close>

datatype 't worker =
    W_Check
  | W_Lock
  | W_Wait
  | W_Woken
  | W_Run "'t option"
  | W_Exit

text \<open>Where a call of \<open>runTask\<close> is.\<close>

datatype 't producer =
    P_Lock 't
  | P_Wait 't
  | P_Woken 't
  | P_Done

text \<open>\<open>notified\<close>: \<open>stop\<close> has called \<open>notify_all\<close>. \<open>pushed\<close> and \<open>started\<close> are the history of the queue, and
  \<open>inline_runs\<close> the tasks run by the caller itself in a pool without threads.\<close>

record 't pool =
  taskQueue :: "'t list"
  maxQueueSize :: nat
  running :: bool
  workers :: "'t worker list"
  producers :: "'t producer list"
  notified :: bool
  pushed :: "'t list"
  started :: "'t list"
  inline_runs :: "'t list"

definition pool_new :: "nat \<Rightarrow> nat \<Rightarrow> error + 't pool" where
  "pool_new numThread mx =
     bindE (assertE (0 < mx)) (\<lambda>_.
     Inr \<lparr>taskQueue = [], maxQueueSize = mx, running = True, workers = replicate numThread W_Check,
          producers = [], notified = False, pushed = [], started = [], inline_runs = []\<rparr>)"

section \<open>Condition variables\<close>

fun wake_worker :: "'t worker \<Rightarrow> 't worker" where
  "wake_worker W_Wait = W_Woken"
| "wake_worker w = w"

fun wake_producer :: "'t producer \<Rightarrow> 't producer" where
  "wake_producer (P_Wait t) = P_Woken t"
| "wake_producer p = p"

fun worker_waits :: "'t worker \<Rightarrow> bool" where
  "worker_waits W_Wait = True"
| "worker_waits _ = False"

fun producer_waits :: "'t producer \<Rightarrow> bool" where
  "producer_waits (P_Wait t) = True"
| "producer_waits _ = False"

text \<open>\<open>notify_one\<close> wakes the \<open>k\<close>-th thread, which must be a waiter if there is one.\<close>

definition notify_one :: "('a \<Rightarrow> 'a) \<Rightarrow> nat \<Rightarrow> 'a list \<Rightarrow> 'a list" where
  "notify_one wake k ts = (if k < length ts then ts[k := wake (ts ! k)] else ts)"

definition a_waiter :: "('a \<Rightarrow> bool) \<Rightarrow> nat \<Rightarrow> 'a list \<Rightarrow> bool" where
  "a_waiter waits k ts \<longleftrightarrow> (if list_ex waits ts then k < length ts \<and> waits (ts ! k) else length ts \<le> k)"

section \<open>Operations\<close>

text \<open>The entry of \<open>runTask\<close>; without threads the task runs at once.\<close>

definition runTask :: "'t \<Rightarrow> 't pool \<Rightarrow> error + 't pool" where
  "runTask t s =
     bindE (assertE (running s)) (\<lambda>_.
     if workers s = [] then Inr (s\<lparr>inline_runs := inline_runs s @ [t]\<rparr>)
     else Inr (s\<lparr>producers := producers s @ [P_Lock t]\<rparr>))"

text \<open>What the \<open>j\<close>-th call does with the mutex: wait while the queue is full, or push and notify worker \<open>k\<close>.\<close>

definition pool_push :: "nat \<Rightarrow> 't \<Rightarrow> nat \<Rightarrow> 't pool \<Rightarrow> 't pool" where
  "pool_push j t k s =
     (if maxQueueSize s \<le> length (taskQueue s) then s\<lparr>producers := (producers s)[j := P_Wait t]\<rparr>
      else s\<lparr>taskQueue := taskQueue s @ [t], producers := (producers s)[j := P_Done],
             workers := notify_one wake_worker k (workers s), pushed := pushed s @ [t]\<rparr>)"

text \<open>\<open>take\<close> by worker \<open>i\<close>, with the mutex; producer \<open>k\<close> is notified.\<close>

definition pool_take :: "nat \<Rightarrow> nat \<Rightarrow> 't pool \<Rightarrow> 't pool" where
  "pool_take i k s =
     (case taskQueue s of
        [] \<Rightarrow> if running s then s\<lparr>workers := (workers s)[i := W_Wait]\<rparr>
              else s\<lparr>workers := (workers s)[i := W_Run None]\<rparr>
      | t # q \<Rightarrow>
          s\<lparr>taskQueue := q, workers := (workers s)[i := W_Run (Some t)],
            producers := notify_one wake_producer k (producers s), started := started s @ [t]\<rparr>)"

text \<open>The loop of \<open>runInThread\<close>: the test, and the return of the task.\<close>

definition check_running :: "nat \<Rightarrow> 't pool \<Rightarrow> 't pool" where
  "check_running i s = s\<lparr>workers := (workers s)[i := if running s then W_Lock else W_Exit]\<rparr>"

definition task_returns :: "nat \<Rightarrow> 't pool \<Rightarrow> 't pool" where
  "task_returns i s = s\<lparr>workers := (workers s)[i := W_Check]\<rparr>"

definition stop_flag :: "'t pool \<Rightarrow> error + 't pool" where
  "stop_flag s = bindE (assertE (running s)) (\<lambda>_. Inr (s\<lparr>running := False\<rparr>))"

definition stop_notify :: "'t pool \<Rightarrow> 't pool" where
  "stop_notify s = s\<lparr>workers := map wake_worker (workers s), notified := True\<rparr>"

text \<open>The destructor stops a pool that still runs.\<close>

definition pool_destroy :: "'t pool \<Rightarrow> error + 't pool" where
  "pool_destroy s = (if running s then stop_flag s else Inr s)"

text \<open>\<open>stop\<close> can return: every thread can be joined.\<close>

definition joined :: "'t pool \<Rightarrow> bool" where
  "joined s \<longleftrightarrow> list_all (\<lambda>w. w = W_Exit) (workers s)"

section \<open>All interleavings\<close>

text \<open>A step of worker \<open>i\<close>, and a step of anything else.\<close>

inductive worker_step :: "nat \<Rightarrow> 't pool \<Rightarrow> 't pool \<Rightarrow> bool" for i where
  check: "i < length (workers s) \<Longrightarrow> workers s ! i = W_Check \<Longrightarrow> worker_step i s (check_running i s)"
| take: "i < length (workers s) \<Longrightarrow> workers s ! i \<in> {W_Lock, W_Woken} \<Longrightarrow>
    a_waiter producer_waits k (producers s) \<Longrightarrow> worker_step i s (pool_take i k s)"
| finish: "i < length (workers s) \<Longrightarrow> workers s ! i = W_Run r \<Longrightarrow> worker_step i s (task_returns i s)"

inductive other_step :: "'t pool \<Rightarrow> 't pool \<Rightarrow> bool" where
  call: "runTask t s = Inr s' \<Longrightarrow> other_step s s'"
| push: "j < length (producers s) \<Longrightarrow> producers s ! j \<in> {P_Lock t, P_Woken t} \<Longrightarrow>
    a_waiter worker_waits k (workers s) \<Longrightarrow> other_step s (pool_push j t k s)"
| spurious_worker: "i < length (workers s) \<Longrightarrow>
    other_step s (s\<lparr>workers := (workers s)[i := wake_worker (workers s ! i)]\<rparr>)"
| spurious_producer: "j < length (producers s) \<Longrightarrow>
    other_step s (s\<lparr>producers := (producers s)[j := wake_producer (producers s ! j)]\<rparr>)"
| stop: "stop_flag s = Inr s' \<Longrightarrow> other_step s s'"
| destroy: "pool_destroy s = Inr s' \<Longrightarrow> other_step s s'"
| notify: "\<not> running s \<Longrightarrow> \<not> notified s \<Longrightarrow> other_step s (stop_notify s)"

inductive pool_reach :: "nat \<Rightarrow> nat \<Rightarrow> 't pool \<Rightarrow> bool" for n mx where
  init: "pool_new n mx = Inr s \<Longrightarrow> pool_reach n mx s"
| worker: "pool_reach n mx s \<Longrightarrow> worker_step i s s' \<Longrightarrow> pool_reach n mx s'"
| other: "pool_reach n mx s \<Longrightarrow> other_step s s' \<Longrightarrow> pool_reach n mx s'"

inductive_cases worker_stepE: "worker_step i s s'"
inductive_cases other_stepE: "other_step s s'"

section \<open>Invariant\<close>

definition how_many :: "('a \<Rightarrow> bool) \<Rightarrow> 'a list \<Rightarrow> nat" where
  "how_many P xs = length (filter P xs)"

lemma how_many_update:
  "i < length xs \<Longrightarrow> how_many P (xs[i := y]) + (if P (xs ! i) then 1 else 0) = how_many P xs + (if P y then 1 else 0)"
proof (induction xs arbitrary: i)
  case Nil
  then show ?case by simp
next
  case (Cons x xs)
  then show ?case by (cases i) (auto simp: how_many_def)
qed

fun worker_woken :: "'t worker \<Rightarrow> bool" where
  "worker_woken W_Woken = True"
| "worker_woken _ = False"

fun producer_woken :: "'t producer \<Rightarrow> bool" where
  "producer_woken (P_Woken t) = True"
| "producer_woken _ = False"

text \<open>
  Nobody waits for what is there: while a worker waits, every queued task has a notified worker; while
  a call of \<open>runTask\<close> waits, every free slot has a notified call.
\<close>

definition pool_inv :: "nat \<Rightarrow> nat \<Rightarrow> 't pool \<Rightarrow> bool" where
  "pool_inv n mx s \<longleftrightarrow>
     length (workers s) = n \<and> maxQueueSize s = mx \<and> length (taskQueue s) \<le> mx \<and>
     pushed s = started s @ taskQueue s \<and>
     (list_ex worker_waits (workers s) \<longrightarrow> length (taskQueue s) \<le> how_many worker_woken (workers s)) \<and>
     (list_ex producer_waits (producers s) \<longrightarrow> mx - length (taskQueue s) \<le> how_many producer_woken (producers s)) \<and>
     (notified s \<longrightarrow> \<not> running s \<and> \<not> list_ex worker_waits (workers s))"

lemma waits_wait: "worker_waits w \<longleftrightarrow> w = W_Wait" "worker_woken w \<longleftrightarrow> w = W_Woken"
  by (cases w, simp_all)+

lemma list_ex_update: "list_ex P (xs[i := y]) \<Longrightarrow> P y \<or> list_ex P xs"
  using set_update_subset_insert[of xs i y] by (auto simp: list_ex_iff)

lemma update_same: "\<not> P y \<Longrightarrow> list_ex P (xs[i := y]) \<Longrightarrow> list_ex P xs"
  using list_ex_update[of P xs i y] by simp

text \<open>A notification adds a woken thread if any waits, and makes none wait.\<close>

lemma notify_worker_waits: "list_ex worker_waits (notify_one wake_worker k ws) \<Longrightarrow> list_ex worker_waits ws"
proof -
  have "\<not> worker_waits (wake_worker w)" for w :: "'a worker" by (cases w) simp_all
  then show "list_ex worker_waits (notify_one wake_worker k ws) \<Longrightarrow> list_ex worker_waits ws"
    unfolding notify_one_def by (metis update_same)
qed

lemma notify_producer_waits: "list_ex producer_waits (notify_one wake_producer k ps) \<Longrightarrow> list_ex producer_waits ps"
proof -
  have "\<not> producer_waits (wake_producer p)" for p :: "'a producer" by (cases p) simp_all
  then show "list_ex producer_waits (notify_one wake_producer k ps) \<Longrightarrow> list_ex producer_waits ps"
    unfolding notify_one_def by (metis update_same)
qed

lemma notify_worker_woken:
  "a_waiter worker_waits k ws \<Longrightarrow> list_ex worker_waits ws \<Longrightarrow>
     how_many worker_woken (notify_one wake_worker k ws) = Suc (how_many worker_woken ws)"
  using how_many_update[of k ws worker_woken W_Woken]
  by (auto simp: a_waiter_def notify_one_def waits_wait)

lemma notify_producer_woken:
  assumes "a_waiter producer_waits k ps" "list_ex producer_waits ps"
  shows "how_many producer_woken (notify_one wake_producer k ps) = Suc (how_many producer_woken ps)"
proof -
  from assms obtain t where "k < length ps" "ps ! k = P_Wait t"
    by (cases "ps ! k") (auto simp: a_waiter_def)
  then show ?thesis using how_many_update[of k ps producer_woken "P_Woken t"] by (simp add: notify_one_def)
qed

lemma spurious_producer_woken:
  "j < length ps \<Longrightarrow> how_many producer_woken ps \<le> how_many producer_woken (ps[j := wake_producer (ps ! j)])"
  using how_many_update[of j ps producer_woken "wake_producer (ps ! j)"] by (cases "ps ! j") simp_all

text \<open>A worker that does not begin to wait and gives up no notification.\<close>

lemma worker_update_inv:
  assumes inv: "pool_inv n mx s" and "i < length (workers s)" and w: "\<not> worker_waits w"
    and "worker_woken (workers s ! i) \<Longrightarrow> taskQueue s = []"
  shows "pool_inv n mx (s\<lparr>workers := (workers s)[i := w]\<rparr>)"
proof -
  have "list_ex worker_waits ((workers s)[i := w]) \<Longrightarrow> list_ex worker_waits (workers s)"
    using w by (rule update_same)
  moreover have "taskQueue s = [] \<or> how_many worker_woken (workers s) \<le> how_many worker_woken ((workers s)[i := w])"
    using how_many_update[of i "workers s" worker_woken w] assms(2,4) by (auto split: if_splits)
  ultimately show ?thesis using inv unfolding pool_inv_def by auto
qed

lemma worker_step_inv:
  assumes "worker_step i s s'" and inv: "pool_inv n mx s"
  shows "pool_inv n mx s'"
  using assms(1)
proof cases
  case check
  then show ?thesis
    unfolding check_running_def by (simp only:) (rule worker_update_inv[OF inv], simp_all)
next
  case (finish r)
  then show ?thesis
    unfolding task_returns_def by (simp only:) (rule worker_update_inv[OF inv], simp_all)
next
  case (take k)
  show ?thesis
  proof (cases "taskQueue s")
    case Nil
    show ?thesis
    proof (cases "running s")
      case True
      then show ?thesis using inv take(1) Nil by (simp add: pool_inv_def pool_take_def)
    next
      case False
      then show ?thesis
        using Nil worker_update_inv[OF inv take(2), of "W_Run None"] take(1) by (simp add: pool_take_def)
    qed
  next
    case (Cons t q)
    have w: "list_ex worker_waits ((workers s)[i := W_Run (Some t)]) \<Longrightarrow> list_ex worker_waits (workers s)"
      by (rule update_same) simp_all
    have "how_many worker_woken (workers s) \<le> Suc (how_many worker_woken ((workers s)[i := W_Run (Some t)]))"
      using how_many_update[of i "workers s" worker_woken "W_Run (Some t)"] take(2) by (auto split: if_splits)
    moreover have "list_ex producer_waits (producers s) \<Longrightarrow>
        how_many producer_woken (notify_one wake_producer k (producers s)) = Suc (how_many producer_woken (producers s))"
      using notify_producer_woken[OF take(4)] .
    ultimately show ?thesis
      using inv Cons take(1,2) w notify_producer_waits[of k "producers s"]
      unfolding pool_inv_def pool_take_def by auto
  qed
qed

lemma pool_push_inv:
  assumes inv: "pool_inv n mx s" and j: "j < length (producers s)" and p: "producers s ! j \<in> {P_Lock t, P_Woken t}"
    and k: "a_waiter worker_waits k (workers s)"
  shows "pool_inv n mx (pool_push j t k s)"
proof (cases "maxQueueSize s \<le> length (taskQueue s)")
  case True
  then show ?thesis using inv by (auto simp: pool_inv_def pool_push_def)
next
  case False
  have "list_ex producer_waits ((producers s)[j := P_Done]) \<Longrightarrow> list_ex producer_waits (producers s)"
    by (rule update_same) simp_all
  moreover have "how_many producer_woken (producers s) \<le> Suc (how_many producer_woken ((producers s)[j := P_Done]))"
    using how_many_update[of j "producers s" producer_woken P_Done] j by (auto split: if_splits)
  moreover have "length (notify_one wake_worker k (workers s)) = length (workers s)"
    by (simp add: notify_one_def)
  ultimately show ?thesis
    using inv False notify_worker_waits[of k "workers s"] notify_worker_woken[OF k]
    unfolding pool_inv_def pool_push_def by auto
qed

lemma other_step_inv:
  assumes "other_step s s'" and inv: "pool_inv n mx s"
  shows "pool_inv n mx s'"
  using assms(1)
proof cases
  case (call t)
  then show ?thesis
    using inv by (cases "running s"; cases "workers s = []") (auto simp: runTask_def pool_inv_def how_many_def)
next
  case (push j t k)
  then show ?thesis using pool_push_inv[OF inv] by simp
next
  case (spurious_worker i)
  have "\<not> worker_waits (wake_worker (workers s ! i))" by (cases "workers s ! i") simp_all
  then show ?thesis
  proof (cases "worker_woken (workers s ! i)")
    case True
    then have "workers s ! i = W_Woken" by (simp add: waits_wait)
    then have "(workers s)[i := wake_worker (workers s ! i)] = workers s" by (metis list_update_id wake_worker.simps(4))
    then show ?thesis using spurious_worker inv by simp
  next
    case False
    then show ?thesis
      unfolding spurious_worker(1)
      using \<open>\<not> worker_waits (wake_worker (workers s ! i))\<close> spurious_worker(2)
      by (intro worker_update_inv[OF inv]) simp_all
  qed
next
  case (spurious_producer j)
  have "\<not> producer_waits (wake_producer (producers s ! j))" by (cases "producers s ! j") simp_all
  then have "list_ex producer_waits ((producers s)[j := wake_producer (producers s ! j)]) \<Longrightarrow>
      list_ex producer_waits (producers s)"
    by (rule update_same)
  then show ?thesis
    using spurious_producer spurious_producer_woken[of j "producers s"] inv unfolding pool_inv_def by auto
next
  case stop
  then show ?thesis using inv by (cases "running s") (auto simp: stop_flag_def pool_inv_def)
next
  case destroy
  then show ?thesis using inv by (cases "running s") (auto simp: pool_destroy_def stop_flag_def pool_inv_def)
next
  case notify
  have "\<not> list_ex worker_waits (map wake_worker (workers s))"
  proof -
    have "\<not> worker_waits (wake_worker w)" for w :: "'a worker" by (cases w) simp_all
    then show ?thesis by (simp add: list_ex_iff)
  qed
  then show ?thesis using notify inv by (simp add: stop_notify_def pool_inv_def)
qed

lemma pool_reach_inv: "pool_reach n mx s \<Longrightarrow> pool_inv n mx s"
proof (induction rule: pool_reach.induct)
  case (init s)
  then show ?case
    by (cases "0 < mx") (auto simp: pool_new_def pool_inv_def list_ex_iff how_many_def)
qed (auto intro: worker_step_inv other_step_inv)

section \<open>Properties\<close>

text \<open>
  C15: In every interleaving of workers, callers and \<open>stop\<close>, with spurious wake-ups, the queue never
  exceeds its bound, tasks are started in the order they were pushed, each once, and no wake-up is
  lost: while a worker waits, every queued task has a worker on its way, and while a caller waits,
  every free slot has a caller on its way.
\<close>

theorem pool_no_lost_wakeup:
  assumes "pool_reach n mx s"
  shows "length (taskQueue s) \<le> mx \<and> pushed s = started s @ taskQueue s \<and>
    (W_Wait \<in> set (workers s) \<longrightarrow> length (taskQueue s) \<le> how_many (\<lambda>w. w = W_Woken) (workers s)) \<and>
    ((\<exists>t. P_Wait t \<in> set (producers s)) \<longrightarrow>
       mx - length (taskQueue s) \<le> how_many (\<lambda>p. \<exists>t. p = P_Woken t) (producers s))"
proof -
  have "producer_woken p \<longleftrightarrow> (\<exists>t. p = P_Woken t)" for p :: "'a producer" by (cases p) simp_all
  then have "producer_woken = (\<lambda>p :: 'a producer. \<exists>t. p = P_Woken t)" by (rule ext)
  moreover have "worker_woken = (\<lambda>w :: 'a worker. w = W_Woken)" by (rule ext) (rule waits_wait)
  moreover have "W_Wait \<in> set (workers s) \<Longrightarrow> list_ex worker_waits (workers s)"
    by (auto simp: list_ex_iff waits_wait)
  moreover have "\<exists>t. P_Wait t \<in> set (producers s) \<Longrightarrow> list_ex producer_waits (producers s)"
    by (force simp: list_ex_iff)
  ultimately show ?thesis
    using pool_reach_inv[OF assms] unfolding pool_inv_def by auto
qed

text \<open>A pool of two workers and one slot: one task queued, a caller waiting for the slot.\<close>

definition pool_demo :: "nat pool" where
  "pool_demo =
     \<lparr>taskQueue = [7], maxQueueSize = 1, running = True, workers = [W_Woken, W_Wait],
      producers = [P_Done, P_Wait 8], notified = False, pushed = [7], started = [], inline_runs = []\<rparr>"

lemma wait_at_start:
  assumes "pool_reach n mx s" and "i < length (workers s)" "workers s ! i = W_Check" "running s"
    and "producers s = []" "taskQueue s = []"
  shows "pool_reach n mx (s\<lparr>workers := (workers s)[i := W_Wait]\<rparr>)"
proof -
  have "pool_reach n mx (s\<lparr>workers := (workers s)[i := W_Lock]\<rparr>)"
    using worker[OF assms(1) check[OF assms(2,3)]] assms(4) by (simp add: check_running_def)
  from worker[OF this take[of i _ 0]] show ?thesis
    using assms by (simp add: a_waiter_def pool_take_def)
qed

lemma pool_demo_reach: "pool_reach 2 1 pool_demo"
proof -
  let ?s0 = "\<lparr>taskQueue = [], maxQueueSize = 1, running = True, workers = [W_Check, W_Check],
      producers = [], notified = False, pushed = [], started = [], inline_runs = []\<rparr> :: nat pool"
  have "pool_reach 2 1 ?s0" by (rule init) (simp add: pool_new_def numeral_2_eq_2)
  from wait_at_start[OF this, of 0]
  have "pool_reach 2 1 (?s0\<lparr>workers := [W_Wait, W_Check]\<rparr>)" by simp
  from wait_at_start[OF this, of 1]
  have "pool_reach 2 1 (?s0\<lparr>workers := [W_Wait, W_Wait]\<rparr>)" by simp
  from other[OF this call[of 7]]
  have "pool_reach 2 1 (?s0\<lparr>workers := [W_Wait, W_Wait], producers := [P_Lock 7]\<rparr>)"
    by (simp add: runTask_def)
  from other[OF this push[of 0 _ 7 0]]
  have "pool_reach 2 1 (pool_demo\<lparr>producers := [P_Done]\<rparr>)"
    by (simp add: a_waiter_def pool_push_def notify_one_def pool_demo_def)
  from other[OF this call[of 8]]
  have "pool_reach 2 1 (pool_demo\<lparr>producers := [P_Done, P_Lock 8]\<rparr>)"
    by (simp add: runTask_def pool_demo_def)
  from other[OF this push[of 1 _ 8 1]]
  show ?thesis by (simp add: a_waiter_def pool_push_def pool_demo_def)
qed

theorem pool_no_lost_wakeup_witness:
  "pool_reach 2 1 pool_demo \<and> length (taskQueue pool_demo) \<le> how_many (\<lambda>w. w = W_Woken) (workers pool_demo)"
  using pool_no_lost_wakeup[OF pool_demo_reach] pool_demo_reach by (simp add: pool_demo_def)

text \<open>How many more steps a worker has after \<open>stop\<close> has notified.\<close>

fun work :: "'t worker \<Rightarrow> nat" where
  "work W_Exit = 0"
| "work W_Check = 1"
| "work (W_Run r) = 2"
| "work _ = 3"

definition work_left :: "'t pool \<Rightarrow> nat" where
  "work_left s = sum_list (map work (workers s))"

lemma work_left_update:
  "i < length ws \<Longrightarrow> sum_list (map work (ws[i := w])) + work (ws ! i) = sum_list (map work ws) + work w"
  by (induction ws arbitrary: i) (auto simp: nth_Cons split: nat.split)

lemma no_wait_wake: "\<not> list_ex worker_waits ws \<Longrightarrow> w \<in> set ws \<Longrightarrow> wake_worker w = w"
  by (cases w) (auto simp: list_ex_iff)

lemma a_waiter_exists: "\<exists>k. a_waiter waits k ts"
proof (cases "list_ex waits ts")
  case True
  then show ?thesis by (auto simp: a_waiter_def list_ex_iff in_set_conv_nth)
next
  case False
  then show ?thesis by (auto simp: a_waiter_def)
qed

lemma stopped_worker_step:
  assumes "worker_step i s s'" and "\<not> running s"
  shows "work_left s' < work_left s"
  using assms(1)
proof cases
  case check
  then show ?thesis
    using work_left_update[of i "workers s" W_Exit] assms(2) by (simp add: work_left_def check_running_def)
next
  case (finish r)
  then show ?thesis
    using work_left_update[of i "workers s" W_Check] by (simp add: work_left_def task_returns_def)
next
  case (take k)
  then show ?thesis
    using work_left_update[of i "workers s" "W_Run None"] assms(2)
      work_left_update[of i "workers s" "W_Run (Some (hd (taskQueue s)))"]
    by (cases "taskQueue s") (auto simp: work_left_def pool_take_def)
qed

lemma stopped_other_step:
  assumes "other_step s s'" and "\<not> running s" and nw: "\<not> list_ex worker_waits (workers s)" and "notified s"
  shows "workers s' = workers s \<and> notified s'"
  using assms(1)
proof cases
  case (push j t k)
  have "notify_one wake_worker k (workers s) = workers s"
    using no_wait_wake[OF nw, of "workers s ! k"] by (simp add: notify_one_def)
  then show ?thesis using push assms(4) by (simp add: pool_push_def)
next
  case (spurious_worker i)
  then show ?thesis using no_wait_wake[OF nw, of "workers s ! i"] assms(4) by simp
qed (use assms in \<open>simp_all add: runTask_def stop_flag_def pool_destroy_def\<close>)

lemma stopped_progress:
  assumes "\<not> running s" and nw: "\<not> list_ex worker_waits (workers s)" and "\<not> joined s"
  shows "\<exists>i s'. worker_step i s s'"
proof -
  obtain i where i: "i < length (workers s)" "workers s ! i \<noteq> W_Exit"
    using assms(3) by (auto simp: joined_def list_all_iff in_set_conv_nth)
  obtain k where k: "a_waiter producer_waits k (producers s)" using a_waiter_exists by blast
  show ?thesis
  proof (cases "workers s ! i")
    case W_Wait
    then show ?thesis using nw nth_mem[OF i(1)] by (simp add: list_ex_iff) (metis worker_waits.simps(1))
  qed (use i k check[of i s] take[of i s k] finish[of i s] in blast)+
qed

text \<open>
  C26: \<open>stop\<close> returns once every task has: after its \<open>notify_all\<close> each step of a worker uses up some of a
  finite amount of work, nothing else adds to it, and as long as a worker has not ended one of them can
  take a step.
\<close>

theorem stop_joins_workers:
  assumes "pool_reach n mx s" and "notified s"
  shows "(\<forall>i s'. worker_step i s s' \<longrightarrow> work_left s' < work_left s) \<and>
    (\<forall>s'. other_step s s' \<longrightarrow> work_left s' = work_left s \<and> notified s') \<and>
    (joined s \<or> (\<exists>i s'. worker_step i s s'))"
proof -
  have "\<not> running s" "\<not> list_ex worker_waits (workers s)"
    using pool_reach_inv[OF assms(1)] assms(2) by (simp_all add: pool_inv_def)
  then show ?thesis
    using stopped_worker_step stopped_other_step[of s] stopped_progress[of s] assms(2)
    by (auto simp: work_left_def)
qed

text \<open>The pool of two workers after \<open>stop\<close>.\<close>

definition pool_stopping :: "nat pool" where
  "pool_stopping = pool_demo\<lparr>running := False, workers := [W_Woken, W_Woken], notified := True\<rparr>"

lemma pool_stopping_reach: "pool_reach 2 1 pool_stopping"
proof -
  have "pool_reach 2 1 (pool_demo\<lparr>running := False\<rparr>)"
    by (rule other[OF pool_demo_reach stop]) (simp add: stop_flag_def pool_demo_def)
  from other[OF this notify] show ?thesis by (simp add: pool_demo_def pool_stopping_def stop_notify_def)
qed

theorem stop_joins_workers_witness:
  "notified pool_stopping \<and> \<not> joined pool_stopping \<and> work_left pool_stopping = 6 \<and>
     (\<exists>i s'. worker_step i pool_stopping s')"
  using stop_joins_workers[OF pool_stopping_reach]
  by (simp add: pool_stopping_def pool_demo_def joined_def work_left_def)

definition pool_step :: "'t pool \<Rightarrow> 't pool \<Rightarrow> bool" where
  "pool_step s s' \<longleftrightarrow> (\<exists>i. worker_step i s s') \<or> other_step s s'"

text \<open>The state of a stopped pool in which the \<open>j\<close>-th caller is still inside \<open>runTask\<close>.\<close>

definition stranded :: "nat \<Rightarrow> 't pool \<Rightarrow> bool" where
  "stranded j s \<longleftrightarrow> joined s \<and> \<not> running s \<and> maxQueueSize s \<le> length (taskQueue s) \<and> j < length (producers s) \<and>
     producers s ! j \<noteq> P_Done"

lemma stranded_step:
  assumes "pool_step s s'" and st: "stranded j s"
  shows "stranded j s' \<and> taskQueue s' = taskQueue s \<and> started s' = started s"
proof -
  have dead: "i < length (workers s) \<Longrightarrow> workers s ! i = W_Exit" for i
    using st by (simp add: stranded_def joined_def list_all_length)
  consider i where "worker_step i s s'" | "other_step s s'" using assms(1) pool_step_def by blast
  then show ?thesis
  proof cases
    case 1
    then show ?thesis by cases (use dead in auto)
  next
    case 2
    then show ?thesis
    proof cases
      case (push k t l)
      then show ?thesis using st by (auto simp: pool_push_def stranded_def joined_def nth_list_update)
    next
      case (spurious_worker i)
      then have "(workers s)[i := wake_worker (workers s ! i)] = workers s"
        using dead[of i] by (metis list_update_id wake_worker.simps(6))
      then show ?thesis using st spurious_worker by (simp add: stranded_def joined_def)
    next
      case (spurious_producer k)
      have "wake_producer p = P_Done \<longleftrightarrow> p = P_Done" for p :: "'a producer" by (cases p) simp_all
      then show ?thesis using st spurious_producer by (auto simp: stranded_def joined_def nth_list_update)
    next
      case notify
      have "map wake_worker (workers s) = workers s"
        using st by (intro map_idI) (auto simp: stranded_def joined_def list_all_iff)
      then show ?thesis using st notify by (simp add: stranded_def joined_def stop_notify_def)
    qed (use st in \<open>auto simp: stranded_def runTask_def stop_flag_def pool_destroy_def\<close>)
  qed
qed

text \<open>
  C28: \<open>stop\<close> does not notify \<open>notFull_\<close> and drops the queue: a call of \<open>runTask\<close> that is still waiting for
  a slot when the workers of a stopped pool with a full queue have ended never returns, whatever
  happens afterwards, and the tasks in the queue are never started.
\<close>

theorem stop_strands_caller:
  assumes "stranded j s" and "pool_step\<^sup>*\<^sup>* s s'"
  shows "producers s' ! j \<noteq> P_Done \<and> taskQueue s' = taskQueue s \<and> started s' = started s"
proof -
  have "stranded j s' \<and> taskQueue s' = taskQueue s \<and> started s' = started s"
    using assms(2) by induction (use assms(1) stranded_step in auto)
  then show ?thesis by (simp add: stranded_def)
qed

text \<open>One worker, one slot: the second task waits for the slot when the pool is stopped before the worker begins.\<close>

definition pool_stranded :: "nat pool" where
  "pool_stranded =
     \<lparr>taskQueue = [7], maxQueueSize = 1, running = False, workers = [W_Exit], producers = [P_Done, P_Wait 8],
      notified = True, pushed = [7], started = [], inline_runs = []\<rparr>"

theorem stop_strands_caller_witness:
  "\<exists>s'. pool_reach 1 1 pool_stranded \<and> pool_step\<^sup>*\<^sup>* pool_stranded s' \<and> s' \<noteq> pool_stranded \<and>
     producers s' ! 1 \<noteq> P_Done \<and> started s' = []"
proof -
  let ?s0 = "\<lparr>taskQueue = [], maxQueueSize = 1, running = True, workers = [W_Check],
      producers = [], notified = False, pushed = [], started = [], inline_runs = []\<rparr> :: nat pool"
  have "pool_reach 1 1 ?s0" by (rule init) (simp add: pool_new_def)
  from other[OF this call[of 7]] have "pool_reach 1 1 (?s0\<lparr>producers := [P_Lock 7]\<rparr>)"
    by (simp add: runTask_def)
  from other[OF this push[of 0 _ 7 1]]
  have "pool_reach 1 1 (?s0\<lparr>taskQueue := [7], pushed := [7], producers := [P_Done]\<rparr>)"
    by (simp add: a_waiter_def pool_push_def notify_one_def)
  from other[OF this call[of 8]]
  have "pool_reach 1 1 (?s0\<lparr>taskQueue := [7], pushed := [7], producers := [P_Done, P_Lock 8]\<rparr>)"
    by (simp add: runTask_def)
  from other[OF this push[of 1 _ 8 1]]
  have "pool_reach 1 1 (?s0\<lparr>taskQueue := [7], pushed := [7], producers := [P_Done, P_Wait 8]\<rparr>)"
    by (simp add: a_waiter_def pool_push_def)
  from other[OF this stop]
  have "pool_reach 1 1 (?s0\<lparr>taskQueue := [7], pushed := [7], producers := [P_Done, P_Wait 8], running := False\<rparr>)"
    by (simp add: stop_flag_def)
  from worker[OF this check[of 0]] have "pool_reach 1 1 (pool_stranded\<lparr>notified := False\<rparr>)"
    by (simp add: check_running_def pool_stranded_def)
  from other[OF this notify] have r: "pool_reach 1 1 pool_stranded"
    by (simp add: stop_notify_def pool_stranded_def)
  have "stranded 1 pool_stranded" by (simp add: stranded_def pool_stranded_def joined_def)
  moreover have "pool_step pool_stranded (pool_stranded\<lparr>producers := [P_Done, P_Woken 8]\<rparr>)"
    using other_step.spurious_producer[of 1 pool_stranded] by (simp add: pool_step_def pool_stranded_def)
  ultimately show ?thesis using stop_strands_caller[of 1 pool_stranded] r
    by (intro exI[of _ "pool_stranded\<lparr>producers := [P_Done, P_Woken 8]\<rparr>"]) (auto simp: pool_stranded_def)
qed

end
