(* ===== verification/Ev_NQueenServer.thy ===== *)
theory Ev_NQueenServer
  imports Ev_NQueenApp Ev_ThreadPool
begin

text \<open>
  \<^verbatim>\<open>NQueenServer\<close> and \<^verbatim>\<open>main\<close> of \<^verbatim>\<open>example/nqueen/NQueenServer.cc\<close>: the requests that arrive in the loop's thread are
  handed to the thread pool of \<^verbatim>\<open>Ev_ThreadPool\<close>, whose workers solve them and send the responses. A task is the pair
  its closure captures, the connection and the request. \<open>nq_sent\<close> is what has been given to \<open>codec_.send\<close>,
  \<open>nq_up\<close> and \<open>nq_asked\<close> are history variables: the connections announced as up, and the requests received.
\<close>

section \<open>The program\<close>

record 'c nqserver =
  threadPool :: "('c \<times> request) pool"
  nq_sent :: "('c \<times> qmsg) list"
  nq_up :: "'c list"
  nq_asked :: "('c \<times> request) list"

text \<open>\<open>main\<close>: the size of the pool; \<open>hw\<close> is \<open>std::thread::hardware_concurrency()\<close>, which may be 0.\<close>

definition nq_poolSize :: "nat \<Rightarrow> string list \<Rightarrow> error + nat" where
  "nq_poolSize hw argv =
     bindE (if length argv = 2 then bindE (atoi (argv ! 1)) (\<lambda>n. Inr (if 0 < n then nat n else 0)) else Inr 0) (\<lambda>size.
     Inr (if size = 0 then hw else size))"

definition default_maxQueueSize :: nat where
  "default_maxQueueSize = 65536"

definition nqserver_new :: "nat \<Rightarrow> error + 'c nqserver" where
  "nqserver_new threadPoolSize =
     bindE (pool_new threadPoolSize default_maxQueueSize) (\<lambda>p.
     Inr \<lparr>threadPool = p, nq_sent = [], nq_up = [], nq_asked = []\<rparr>)"

definition numThreads :: "'t pool \<Rightarrow> nat" where
  "numThreads p = length (workers p)"

definition nq_onConnection :: "'c \<Rightarrow> bool \<Rightarrow> 'c nqserver \<Rightarrow> 'c nqserver" where
  "nq_onConnection c up s =
     (if up then s\<lparr>nq_sent := nq_sent s @ [(c, Q_Cores (of_nat (numThreads (threadPool s))))], nq_up := c # nq_up s\<rparr>
      else s)"

text \<open>The body of the closure of \<open>onRequest\<close>.\<close>

definition nq_task :: "'c \<times> request \<Rightarrow> 'c nqserver \<Rightarrow> error + 'c nqserver" where
  "nq_task t s =
     bindE (onRequest (snd t)) (\<lambda>rsps. Inr (s\<lparr>nq_sent := nq_sent s @ [(fst t, Q_Response rsps)]\<rparr>))"

text \<open>\<open>onRequest\<close>; a pool without threads runs the task in the caller.\<close>

definition nq_onRequest :: "'c \<Rightarrow> request \<Rightarrow> 'c nqserver \<Rightarrow> error + 'c nqserver" where
  "nq_onRequest c rqst s =
     bindE (runTask (c, rqst) (threadPool s)) (\<lambda>p.
     let s1 = s\<lparr>threadPool := p, nq_asked := nq_asked s @ [(c, rqst)]\<rparr> in
     if workers (threadPool s) = [] then nq_task (c, rqst) s1 else Inr s1)"

section \<open>All interleavings\<close>

text \<open>
  A request the solver accepts and whose answer fits into \<open>int64_t\<close>. Besides connections and requests, a step is one of a worker
  or of a caller of \<open>runTask\<close> in the pool; a worker that has a task runs it before it returns for the next one.
  The pool is not stopped while the server runs.
\<close>

definition solvable :: "request \<Rightarrow> bool" where
  "solvable r \<longleftrightarrow> 0 < unat (nQueen r) \<and> unat (nQueen r) \<le> 32 \<and>
     card (completions (unat (nQueen r)) (map unat (rq_cols r))) < 2 ^ 63"

definition caller_step :: "'t pool \<Rightarrow> 't pool \<Rightarrow> bool" where
  "caller_step p p' \<longleftrightarrow> other_step p p' \<and> length (producers p') = length (producers p) \<and>
     inline_runs p' = inline_runs p \<and> running p' = running p"

inductive nq_step :: "'c nqserver \<Rightarrow> error + 'c nqserver \<Rightarrow> bool" where
  connect: "c \<notin> set (nq_up s) \<Longrightarrow> nq_step s (Inr (nq_onConnection c True s))"
| request: "c \<in> set (nq_up s) \<Longrightarrow> solvable r \<Longrightarrow> nq_step s (nq_onRequest c r s)"
| worker: "worker_step i (threadPool s) p' \<Longrightarrow> (\<And>t. workers (threadPool s) ! i \<noteq> W_Run (Some t)) \<Longrightarrow>
    nq_step s (Inr (s\<lparr>threadPool := p'\<rparr>))"
| run_task: "i < length (workers (threadPool s)) \<Longrightarrow> workers (threadPool s) ! i = W_Run (Some t) \<Longrightarrow>
    nq_step s (bindE (nq_task t s) (\<lambda>s'. Inr (s'\<lparr>threadPool := task_returns i (threadPool s')\<rparr>)))"
| caller: "caller_step (threadPool s) p' \<Longrightarrow> nq_step s (Inr (s\<lparr>threadPool := p'\<rparr>))"

inductive nq_reach :: "nat \<Rightarrow> 'c nqserver \<Rightarrow> bool" for n where
  init: "nqserver_new n = Inr s \<Longrightarrow> nq_reach n s"
| step: "nq_reach n s \<Longrightarrow> nq_step s (Inr s') \<Longrightarrow> nq_reach n s'"

inductive_cases nq_stepE: "nq_step s r"

section \<open>Where the requests are\<close>

fun worker_tasks :: "'t worker \<Rightarrow> 't list" where
  "worker_tasks (W_Run (Some t)) = [t]"
| "worker_tasks _ = []"

fun producer_tasks :: "'t producer \<Rightarrow> 't list" where
  "producer_tasks P_Done = []"
| "producer_tasks (P_Lock t) = [t]"
| "producer_tasks (P_Wait t) = [t]"
| "producer_tasks (P_Woken t) = [t]"

definition in_pool :: "'t pool \<Rightarrow> 't list" where
  "in_pool p = taskQueue p @ concat (map producer_tasks (producers p)) @ concat (map worker_tasks (workers p))"

lemma concat_map_update:
  "i < length xs \<Longrightarrow> mset (concat (map f (xs[i := y]))) + mset (f (xs ! i)) = mset (concat (map f xs)) + mset (f y)"
proof (induction xs arbitrary: i)
  case Nil
  then show ?case by simp
next
  case (Cons x xs)
  then show ?case by (cases i) (auto simp: ac_simps)
qed

lemma wake_tasks: "worker_tasks (wake_worker w) = worker_tasks w" "producer_tasks (wake_producer p) = producer_tasks p"
  by (cases w rule: wake_worker.cases, simp_all) (cases p, simp_all)

lemma notify_tasks:
  "map worker_tasks (notify_one wake_worker k ws) = map worker_tasks ws"
  "map producer_tasks (notify_one wake_producer k ps) = map producer_tasks ps"
  by (simp_all add: notify_one_def map_update wake_tasks) (metis list_update_id nth_map length_map list_update_beyond not_le)+

lemma worker_keeps_tasks:
  assumes "worker_step i p p'" and "\<And>t. workers p ! i \<noteq> W_Run (Some t)"
  shows "mset (in_pool p') = mset (in_pool p)"
  using assms(1)
proof cases
  case check
  then show ?thesis
    using concat_map_update[of i "workers p" worker_tasks "if running p then W_Lock else W_Exit"]
    by (simp add: check_running_def in_pool_def)
next
  case (finish r)
  then have "r = None" using assms(2) by (cases r) auto
  then show ?thesis
    using finish concat_map_update[of i "workers p" worker_tasks W_Check] by (simp add: task_returns_def in_pool_def)
next
  case (take k)
  have w: "worker_tasks (workers p ! i) = []" using take(3) by auto
  show ?thesis
  proof (cases "taskQueue p")
    case Nil
    then show ?thesis
      using take w concat_map_update[of i "workers p" worker_tasks W_Wait]
        concat_map_update[of i "workers p" worker_tasks "W_Run None"] by (simp add: pool_take_def in_pool_def)
  next
    case (Cons t q)
    then show ?thesis
      using take w concat_map_update[of i "workers p" worker_tasks "W_Run (Some t)"]
      by (simp add: pool_take_def in_pool_def notify_tasks)
  qed
qed

lemma caller_keeps_tasks:
  assumes "caller_step p p'"
  shows "mset (in_pool p') = mset (in_pool p)"
proof -
  have o: "other_step p p'" and f: "length (producers p') = length (producers p)" "inline_runs p' = inline_runs p"
      "running p' = running p"
    using assms by (simp_all add: caller_step_def)
  from o show ?thesis
  proof cases
    case (call t)
    then show ?thesis using f by (cases "running p"; cases "workers p = []") (auto simp: runTask_def)
  next
    case (push j t k)
    have t: "producer_tasks (producers p ! j) = [t]" using push(3) by auto
    show ?thesis
      using push t concat_map_update[of j "producers p" producer_tasks "P_Wait t"]
        concat_map_update[of j "producers p" producer_tasks P_Done]
      by (simp add: pool_push_def in_pool_def notify_tasks)
  next
    case (spurious_worker i)
    then show ?thesis
      using concat_map_update[of i "workers p" worker_tasks "wake_worker (workers p ! i)"]
      by (simp add: in_pool_def wake_tasks)
  next
    case (spurious_producer j)
    then show ?thesis
      using concat_map_update[of j "producers p" producer_tasks "wake_producer (producers p ! j)"]
      by (simp add: in_pool_def wake_tasks)
  next
    case stop
    then show ?thesis by (cases "running p") (auto simp: stop_flag_def in_pool_def)
  next
    case destroy
    then show ?thesis by (cases "running p") (auto simp: pool_destroy_def stop_flag_def in_pool_def)
  next
    case notify
    then show ?thesis by (simp add: stop_notify_def in_pool_def o_def wake_tasks)
  qed
qed

section \<open>Invariant\<close>

fun replies :: "('c \<times> qmsg) list \<Rightarrow> ('c \<times> response) list" where
  "replies [] = []"
| "replies ((c, Q_Response r) # ms) = (c, r) # replies ms"
| "replies (m # ms) = replies ms"

definition messages_to :: "'c \<Rightarrow> 'c nqserver \<Rightarrow> qmsg list" where
  "messages_to c s = map snd (filter (\<lambda>m. fst m = c) (nq_sent s))"

text \<open>The right response to a request.\<close>

definition right_answer :: "'c \<times> request \<Rightarrow> 'c \<times> response" where
  "right_answer t = (fst t, \<lparr>rs_count = int (card (completions (unat (nQueen (snd t))) (map unat (rq_cols (snd t))))),
     rs_cols = rq_cols (snd t)\<rparr>)"

lemma replies_append [simp]: "replies (ms @ ns) = replies ms @ replies ns"
  by (induction ms rule: replies.induct) simp_all

lemma onRequest_right: "solvable (snd t) \<Longrightarrow> onRequest (snd t) = Inr (snd (right_answer t))"
  by (simp add: solvable_def onRequest_def solve_count right_answer_def)

text \<open>A connection that is up was told the number of threads first, and nothing was sent to others.\<close>

definition greeted :: "nat \<Rightarrow> 'c nqserver \<Rightarrow> bool" where
  "greeted n s \<longleftrightarrow>
     (\<forall>c. if c \<in> set (nq_up s) then \<exists>rs. messages_to c s = Q_Cores (of_nat n) # map Q_Response rs
          else messages_to c s = [])"

lemma greeted_update [simp]:
  "greeted n (s\<lparr>threadPool := p\<rparr>) = greeted n s" "greeted n (s\<lparr>nq_asked := ts\<rparr>) = greeted n s"
  "greeted n (s\<lparr>threadPool := p, nq_asked := ts\<rparr>) = greeted n s"
  by (simp_all add: greeted_def messages_to_def)

definition nq_inv :: "nat \<Rightarrow> 'c nqserver \<Rightarrow> bool" where
  "nq_inv n s \<longleftrightarrow> pool_reach n default_maxQueueSize (threadPool s) \<and> running (threadPool s) \<and>
     (\<forall>t\<in>set (nq_asked s). solvable (snd t) \<and> fst t \<in> set (nq_up s)) \<and>
     set (in_pool (threadPool s)) \<subseteq> set (nq_asked s) \<and>
     mset (replies (nq_sent s)) + mset (map right_answer (in_pool (threadPool s))) = mset (map right_answer (nq_asked s)) \<and>
     greeted n s"

lemma nq_invD:
  assumes "nq_inv n s"
  shows "pool_reach n default_maxQueueSize (threadPool s)" "running (threadPool s)" "length (workers (threadPool s)) = n"
    "t \<in> set (nq_asked s) \<Longrightarrow> solvable (snd t) \<and> fst t \<in> set (nq_up s)"
    "set (in_pool (threadPool s)) \<subseteq> set (nq_asked s)"
  using assms pool_reach_inv[of n default_maxQueueSize "threadPool s"] by (auto simp: nq_inv_def pool_inv_def)

text \<open>Moving tasks about in the pool.\<close>

lemma nq_inv_pool:
  assumes inv: "nq_inv n s" and "pool_reach n default_maxQueueSize p'" and "running p'"
    and m: "mset (in_pool p') = mset (in_pool (threadPool s))"
  shows "nq_inv n (s\<lparr>threadPool := p'\<rparr>)"
proof -
  have "mset (map right_answer (in_pool p')) = mset (map right_answer (in_pool (threadPool s)))"
    using m by (simp only: mset_map)
  moreover have "set (in_pool p') = set (in_pool (threadPool s))" using m by (rule mset_eq_setD)
  ultimately show ?thesis using assms(1-3) unfolding nq_inv_def by simp
qed

text \<open>A response is sent.\<close>

lemma nq_task_ok:
  assumes "solvable (snd t)"
  shows "nq_task t s = Inr (s\<lparr>nq_sent := nq_sent s @ [(fst t, Q_Response (snd (right_answer t)))]\<rparr>)"
  using onRequest_right[OF assms] by (simp add: nq_task_def)

lemma right_answer_fst: "(fst t, snd (right_answer t)) = right_answer t"
  by (simp add: right_answer_def)

lemma messages_after:
  "messages_to c (s\<lparr>nq_sent := nq_sent s @ [(d, m)]\<rparr>) = messages_to c s @ (if d = c then [m] else [])"
  by (simp add: messages_to_def)

lemma nq_inv_answer:
  assumes up: "fst t \<in> set (nq_up s)"
    and msgs: "greeted n s"
  defines "s' \<equiv> s\<lparr>nq_sent := nq_sent s @ [(fst t, Q_Response (snd (right_answer t)))]\<rparr>"
  shows "greeted n s'"
    and "mset (replies (nq_sent s')) = add_mset (right_answer t) (mset (replies (nq_sent s)))"
proof -
  show "mset (replies (nq_sent s')) = add_mset (right_answer t) (mset (replies (nq_sent s)))"
    by (simp add: s'_def right_answer_fst)
  have up': "nq_up s' = nq_up s" by (simp add: s'_def)
  show "greeted n s'" unfolding greeted_def up'
  proof
    fix c
    show "if c \<in> set (nq_up s) then \<exists>rs. messages_to c s' = Q_Cores (of_nat n) # map Q_Response rs else messages_to c s' = []"
    proof (cases "fst t = c")
      case True
      then obtain rs where "messages_to c s = Q_Cores (of_nat n) # map Q_Response rs" using msgs up unfolding greeted_def by metis
      then have "messages_to c s' = Q_Cores (of_nat n) # map Q_Response (rs @ [snd (right_answer t)])"
        using True by (simp add: s'_def messages_after)
      then have "\<exists>rs. messages_to c s' = Q_Cores (of_nat n) # map Q_Response rs" by (rule exI)
      then show ?thesis using up True by simp
    next
      case False
      then have "messages_to c s' = messages_to c s" by (simp add: s'_def messages_after)
      then show ?thesis using msgs by (simp add: greeted_def)
    qed
  qed
qed

lemma connect_ok:
  assumes inv: "nq_inv n s" and c: "c \<notin> set (nq_up s)"
  shows "nq_inv n (nq_onConnection c True s)"
proof -
  let ?s = "nq_onConnection c True s"
  have n: "numThreads (threadPool s) = n" using nq_invD(3)[OF inv] by (simp add: numThreads_def)
  have "messages_to d ?s = messages_to d s @ (if c = d then [Q_Cores (of_nat n)] else [])" for d
    by (simp add: nq_onConnection_def messages_to_def n)
  moreover have "messages_to c s = []" using inv c by (simp add: nq_inv_def greeted_def split: if_splits)
  moreover have sel: "nq_up ?s = c # nq_up s" "threadPool ?s = threadPool s" "nq_asked ?s = nq_asked s"
      "replies (nq_sent ?s) = replies (nq_sent s)"
    by (simp_all add: nq_onConnection_def)
  ultimately have "greeted n ?s" using inv unfolding nq_inv_def greeted_def by (auto split: if_splits)
  then show ?thesis using inv unfolding nq_inv_def sel by auto
qed

text \<open>A request is taken over by the pool, or by the caller when there is no thread.\<close>

lemma request_ok:
  assumes inv: "nq_inv n s" and c: "c \<in> set (nq_up s)" and r: "solvable r"
  shows "\<exists>s'. nq_onRequest c r s = Inr s' \<and> nq_inv n s'"
proof -
  note D = nq_invD[OF inv]
  have run: "running (threadPool s)" by (rule D(2))
  have msgs: "greeted n s"
    and bal: "mset (replies (nq_sent s)) + mset (map right_answer (in_pool (threadPool s))) = mset (map right_answer (nq_asked s))"
    using inv by (simp_all add: nq_inv_def)
  show ?thesis
  proof (cases "workers (threadPool s) = []")
    case False
    let ?p = "threadPool s\<lparr>producers := producers (threadPool s) @ [P_Lock (c, r)]\<rparr>"
    let ?s = "s\<lparr>threadPool := ?p, nq_asked := nq_asked s @ [(c, r)]\<rparr>"
    have p: "runTask (c, r) (threadPool s) = Inr ?p" using run False by (simp add: runTask_def)
    have "pool_reach n default_maxQueueSize ?p" by (rule other[OF D(1) call[OF p]])
    moreover have "mset (in_pool ?p) = add_mset (c, r) (mset (in_pool (threadPool s)))" by (simp add: in_pool_def)
    moreover from this have "set (in_pool ?p) = insert (c, r) (set (in_pool (threadPool s)))"
      by (metis set_mset_add_mset_insert set_mset_mset)
    ultimately have "nq_inv n ?s"
      using inv D(5) c r msgs bal run unfolding nq_inv_def by auto
    then show ?thesis using p False by (simp add: nq_onRequest_def)
  next
    case True
    let ?p = "threadPool s\<lparr>inline_runs := inline_runs (threadPool s) @ [(c, r)]\<rparr>"
    let ?s = "s\<lparr>threadPool := ?p, nq_asked := nq_asked s @ [(c, r)]\<rparr>"
    let ?s' = "?s\<lparr>nq_sent := nq_sent ?s @ [(fst (c, r), Q_Response (snd (right_answer (c, r))))]\<rparr>"
    have p: "runTask (c, r) (threadPool s) = Inr ?p" using run True by (simp add: runTask_def)
    have m: "greeted n ?s" using msgs by simp
    have t: "nq_task (c, r) ?s = Inr ?s'" using r by (intro nq_task_ok) simp
    have "pool_reach n default_maxQueueSize ?p" by (rule other[OF D(1) call[OF p]])
    moreover have "in_pool ?p = in_pool (threadPool s)" by (simp add: in_pool_def)
    moreover have "greeted n ?s'" using c by (intro nq_inv_answer(1)[OF _ m]) simp
    moreover have "mset (replies (nq_sent ?s')) = add_mset (right_answer (c, r)) (mset (replies (nq_sent s)))"
      by (simp add: right_answer_fst[of "(c, r)", simplified])
    ultimately have "nq_inv n ?s'"
      using inv D(5) c r bal run unfolding nq_inv_def by auto
    then show ?thesis using p True t by (simp add: nq_onRequest_def)
  qed
qed

lemma run_task_ok2:
  assumes inv: "nq_inv n s" and i: "i < length (workers (threadPool s))" and w: "workers (threadPool s) ! i = W_Run (Some t)"
  shows "\<exists>s'. bindE (nq_task t s) (\<lambda>s'. Inr (s'\<lparr>threadPool := task_returns i (threadPool s')\<rparr>)) = Inr s' \<and> nq_inv n s'"
proof -
  note D = nq_invD[OF inv]
  let ?p = "task_returns i (threadPool s)"
  have m: "mset (in_pool (threadPool s)) = add_mset t (mset (in_pool ?p))"
    using i w concat_map_update[of i "workers (threadPool s)" worker_tasks W_Check]
    by (simp add: task_returns_def in_pool_def)
  have t: "t \<in> set (in_pool (threadPool s))" "set (in_pool ?p) \<subseteq> set (in_pool (threadPool s))"
    using m by (metis set_mset_mset union_single_eq_member, metis set_mset_mset set_mset_add_mset_insert subset_insertI)
  then have a: "solvable (snd t)" "fst t \<in> set (nq_up s)" using D(4)[of t] D(5) by auto
  let ?s = "s\<lparr>nq_sent := nq_sent s @ [(fst t, Q_Response (snd (right_answer t)))]\<rparr>"
  have msgs: "greeted n s"
    and bal: "mset (replies (nq_sent s)) + mset (map right_answer (in_pool (threadPool s))) = mset (map right_answer (nq_asked s))"
    using inv by (simp_all add: nq_inv_def)
  note A = nq_inv_answer[OF a(2) msgs]
  have "pool_reach n default_maxQueueSize ?p" by (rule pool_reach.worker[OF D(1) finish[OF i w]])
  moreover have "mset (map right_answer (in_pool (threadPool s))) = add_mset (right_answer t) (mset (map right_answer (in_pool ?p)))"
    using m by (simp only: mset_map image_mset_add_mset)
  moreover have "running ?p" using D(2) by (simp add: task_returns_def)
  ultimately have "nq_inv n (?s\<lparr>threadPool := ?p\<rparr>)"
    using inv A bal t(2) D(5) unfolding nq_inv_def by auto
  then show ?thesis using nq_task_ok[OF a(1), of s] by simp
qed

lemma nq_step_ok:
  assumes "nq_step s r" and inv: "nq_inv n s"
  shows "\<exists>s'. r = Inr s' \<and> nq_inv n s'"
  using assms(1)
proof cases
  case (connect c)
  then show ?thesis using connect_ok[OF inv] by simp
next
  case (request c rq)
  then show ?thesis using request_ok[OF inv] by simp
next
  case (worker i p')
  have "running p' = running (threadPool s)"
    using worker(2) by cases (auto simp: check_running_def task_returns_def pool_take_def split: list.splits)
  then show ?thesis
    using nq_inv_pool[OF inv pool_reach.worker[OF nq_invD(1)[OF inv] worker(2)]] worker_keeps_tasks[OF worker(2,3)] nq_invD(2)[OF inv] worker(1)
    by simp
next
  case (run_task i t)
  then show ?thesis using run_task_ok2[OF inv] by simp
next
  case (caller p')
  then have "other_step (threadPool s) p'" "running p' = running (threadPool s)" by (simp_all add: caller_step_def)
  then show ?thesis
    using nq_inv_pool[OF inv pool_reach.other[OF nq_invD(1)[OF inv]]] caller_keeps_tasks[OF caller(2)] nq_invD(2)[OF inv] caller(1)
    by simp
qed

lemma nq_reach_inv: "nq_reach n s \<Longrightarrow> nq_inv n s"
proof (induction rule: nq_reach.induct)
  case (init s)
  then obtain p where p: "pool_new n default_maxQueueSize = Inr p" "s = \<lparr>threadPool = p, nq_sent = [], nq_up = [], nq_asked = []\<rparr>"
    by (auto simp: nqserver_new_def bindE_eq_Inr)
  moreover have "in_pool p = []" "running p"
    using p(1) by (auto simp: pool_new_def in_pool_def assertE_def bindE_eq_Inr split: if_splits)
  ultimately show ?case by (auto simp: nq_inv_def greeted_def messages_to_def intro: pool_reach.init)
next
  case (step s s')
  then show ?case using nq_step_ok by blast
qed

section \<open>Properties\<close>

definition idle :: "'t pool \<Rightarrow> bool" where
  "idle p \<longleftrightarrow> list_all (\<lambda>w. w = W_Wait) (workers p) \<and> list_all (\<lambda>q. producer_waits q \<or> q = P_Done) (producers p)"

text \<open>A pool in which nobody can move is empty.\<close>

lemma idle_empty:
  assumes r: "pool_reach n mx p" and run: "0 < mx" "0 < n" and i: "idle p"
  shows "in_pool p = []"
proof -
  have inv: "pool_inv n mx p" by (rule pool_reach_inv[OF r])
  have w: "worker_tasks v = []" "\<not> worker_woken v" "worker_waits v" if "v \<in> set (workers p)" for v
    using i that by (auto simp: idle_def list_all_iff)
  have "\<exists>v. v \<in> set (workers p)" using inv run(2) by (cases "workers p") (auto simp: pool_inv_def)
  then have "list_ex worker_waits (workers p)" using w(3) by (auto simp: list_ex_iff)
  moreover have "how_many worker_woken (workers p) = 0" using w(2) by (simp add: how_many_def filter_empty_conv)
  ultimately have q: "taskQueue p = []" using inv by (simp add: pool_inv_def)
  have nw: "\<not> producer_woken v" if "v \<in> set (producers p)" for v
    using i that by (cases v) (auto simp: idle_def list_all_iff)
  then have "how_many producer_woken (producers p) = 0" by (simp add: how_many_def filter_empty_conv)
  then have "\<not> list_ex producer_waits (producers p)" using inv q run(1) by (auto simp: pool_inv_def)
  then have "v = P_Done" if "v \<in> set (producers p)" for v using i that by (auto simp: idle_def list_all_iff list_ex_iff)
  then have "producer_tasks v = []" if "v \<in> set (producers p)" for v using that by force
  then show ?thesis using q w(1) by (auto simp: in_pool_def)
qed

text \<open>
  C19: The n-queens server answers every request once and rightly. In every interleaving of connections,
  requests that the solver accepts, the workers and the callers of the pool, no step fails;
  every connection that is up has been told the number of threads first and got only responses after that; the responses
  sent and the right responses to the requests still in the pool are, as multisets, the right responses to the requests
  received; and when nobody in the pool can move on, which with at least one thread means that all workers wait and no caller
  is on its way, every request has been answered.
\<close>

theorem nqserver_answers:
  assumes "nq_reach n s"
  shows "(\<forall>e. \<not> nq_step s (Inl e)) \<and>
    (\<forall>c\<in>set (nq_up s). \<exists>rs. messages_to c s = Q_Cores (of_nat n) # map Q_Response rs) \<and>
    mset (replies (nq_sent s)) + mset (map right_answer (in_pool (threadPool s))) = mset (map right_answer (nq_asked s)) \<and>
    (0 < n \<and> idle (threadPool s) \<longrightarrow> mset (replies (nq_sent s)) = mset (map right_answer (nq_asked s)))"
proof -
  have inv: "nq_inv n s" by (rule nq_reach_inv[OF assms])
  have b: "mset (replies (nq_sent s)) + mset (map right_answer (in_pool (threadPool s))) = mset (map right_answer (nq_asked s))"
    using inv by (simp add: nq_inv_def)
  have "\<not> nq_step s (Inl e)" for e using nq_step_ok[OF _ inv, of "Inl e"] by auto
  moreover have "\<forall>c\<in>set (nq_up s). \<exists>rs. messages_to c s = Q_Cores (of_nat n) # map Q_Response rs"
    using inv by (simp add: nq_inv_def greeted_def)
  moreover have "0 < n \<and> idle (threadPool s) \<Longrightarrow> in_pool (threadPool s) = []"
    using idle_empty[OF nq_invD(1)[OF inv]] by (simp add: default_maxQueueSize_def)
  ultimately show ?thesis using b by auto
qed

text \<open>A server with one thread is asked for the solutions of the board of one square, and answers.\<close>

definition nq_demo_pool :: "(nat \<times> request) pool" where
  "nq_demo_pool =
     \<lparr>taskQueue = [], maxQueueSize = 65536, running = True, workers = [W_Wait], producers = [P_Done], notified = False,
      pushed = [(7, \<lparr>nQueen = 1, rq_cols = []\<rparr>)], started = [(7, \<lparr>nQueen = 1, rq_cols = []\<rparr>)], inline_runs = []\<rparr>"

lemma worker_moves:
  assumes "nq_reach n s" and "i < length (workers (threadPool s))"
  shows "workers (threadPool s) ! i = W_Check \<Longrightarrow> nq_reach n (s\<lparr>threadPool := check_running i (threadPool s)\<rparr>)"
    and "workers (threadPool s) ! i = W_Lock \<Longrightarrow> a_waiter producer_waits k (producers (threadPool s)) \<Longrightarrow>
      nq_reach n (s\<lparr>threadPool := pool_take i k (threadPool s)\<rparr>)"
  using nq_reach.step[OF assms(1) nq_step.worker[OF worker_step.check[OF assms(2)]]]
    nq_reach.step[OF assms(1) nq_step.worker[OF worker_step.take[OF assms(2)]]] by auto

lemma nq_demo_reach:
  fixes r :: request
  defines "r \<equiv> \<lparr>nQueen = 1, rq_cols = []\<rparr>"
  shows "nq_reach 1 \<lparr>threadPool = nq_demo_pool, nq_sent = [(7, Q_Cores 1), (7, Q_Response (snd (right_answer (7 :: nat, r))))],
    nq_up = [7], nq_asked = [(7, r)]\<rparr>"
proof -
  let ?p = "\<lparr>taskQueue = [], maxQueueSize = 65536, running = True, workers = [W_Check], producers = [],
      notified = False, pushed = [], started = [], inline_runs = []\<rparr> :: (nat \<times> request) pool"
  let ?s = "\<lambda>p ms ts. \<lparr>threadPool = p, nq_sent = ms, nq_up = [7], nq_asked = ts\<rparr>"
  have "completions 1 [] \<subseteq> {[0]}"
  proof
    fix cs
    assume "cs \<in> completions 1 []"
    then have "length cs = 1" "cs ! 0 < 1" by (auto simp: completions_def safe_def)
    then show "cs \<in> {[0]}" by (cases cs) auto
  qed
  then have "card (completions 1 []) \<le> 1" using card_mono[of "{[0::nat]}"] by simp
  then have sv: "solvable r" by (simp add: solvable_def r_def)
  have "nq_reach 1 \<lparr>threadPool = ?p, nq_sent = [], nq_up = [], nq_asked = []\<rparr>"
    by (rule nq_reach.init) (simp add: nqserver_new_def pool_new_def default_maxQueueSize_def)
  from nq_reach.step[OF this connect[of 7]]
  have 1: "nq_reach 1 (?s ?p [(7, Q_Cores 1)] [])" by (simp add: nq_onConnection_def numThreads_def)
  have "nq_onRequest 7 r (?s ?p [(7, Q_Cores 1)] []) = Inr (?s (?p\<lparr>producers := [P_Lock (7, r)]\<rparr>) [(7, Q_Cores 1)] [(7, r)])"
    by (simp add: nq_onRequest_def runTask_def)
  with nq_reach.step[OF 1, of "?s (?p\<lparr>producers := [P_Lock (7, r)]\<rparr>) [(7, Q_Cores 1)] [(7, r)]"] request[of 7 "?s ?p [(7, Q_Cores 1)] []" r] sv
  have 2: "nq_reach 1 (?s (?p\<lparr>producers := [P_Lock (7, r)]\<rparr>) [(7, Q_Cores 1)] [(7, r)])" by simp
  let ?p2 = "?p\<lparr>producers := [P_Lock (7, r)]\<rparr>" let ?p3 = "?p\<lparr>producers := [P_Done], taskQueue := [(7, r)], pushed := [(7, r)]\<rparr>"
  have "other_step ?p2 (pool_push 0 (7, r) 1 ?p2)" by (rule other_step.push) (simp_all add: a_waiter_def)
  then have "caller_step ?p2 ?p3" by (simp add: caller_step_def pool_push_def notify_one_def)
  from nq_reach.step[OF 2 nq_step.caller[of _ ?p3]] this
  have 3: "nq_reach 1 (?s ?p3 [(7, Q_Cores 1)] [(7, r)])" by simp
  from worker_moves(1)[OF 3, of 0]
  have 4: "nq_reach 1 (?s (?p3\<lparr>workers := [W_Lock]\<rparr>) [(7, Q_Cores 1)] [(7, r)])" by (simp add: check_running_def)
  from worker_moves(2)[OF 4, of 0 1]
  have 5: "nq_reach 1 (?s (?p3\<lparr>workers := [W_Run (Some (7, r))], taskQueue := [], started := [(7, r)]\<rparr>) [(7, Q_Cores 1)] [(7, r)])"
    by (simp add: pool_take_def notify_one_def a_waiter_def)
  let ?p6 = "?p3\<lparr>workers := [W_Check], taskQueue := [], started := [(7, r)]\<rparr>"
  let ?ms = "[(7, Q_Cores 1), (7, Q_Response (snd (right_answer (7 :: nat, r))))]"
  have "nq_task (7, r) s = Inr (s\<lparr>nq_sent := nq_sent s @ [(7, Q_Response (snd (right_answer (7 :: nat, r))))]\<rparr>)" for s :: "nat nqserver"
    using nq_task_ok[of "(7, r)" s] sv by simp
  with nq_reach.step[OF 5, of "?s ?p6 ?ms [(7, r)]"]
    run_task[of 0 "?s (?p3\<lparr>workers := [W_Run (Some (7, r))], taskQueue := [], started := [(7, r)]\<rparr>) [(7, Q_Cores 1)] [(7, r)]" "(7, r)"]
  have 6: "nq_reach 1 (?s ?p6 ?ms [(7, r)])" by (simp add: task_returns_def)
  from worker_moves(1)[OF 6, of 0]
  have 7: "nq_reach 1 (?s (?p6\<lparr>workers := [W_Lock]\<rparr>) ?ms [(7, r)])" by (simp add: check_running_def)
  from worker_moves(2)[OF 7, of 0 1]
  show ?thesis by (simp add: pool_take_def a_waiter_def nq_demo_pool_def r_def)
qed

lemma nqserver_answers_witness:
  "\<exists>s. nq_reach 1 s \<and> idle (threadPool s) \<and> nq_asked s = [(7 :: nat, \<lparr>nQueen = 1, rq_cols = []\<rparr>)] \<and>
     mset (replies (nq_sent s)) = {#right_answer (7, \<lparr>nQueen = 1, rq_cols = []\<rparr>)#} \<and> (\<forall>e. \<not> nq_step s (Inl e))"
proof -
  have "idle nq_demo_pool" by (simp add: idle_def nq_demo_pool_def)
  then show ?thesis
    using nqserver_answers[OF nq_demo_reach] nq_demo_reach
    by (intro exI[of _ "\<lparr>threadPool = nq_demo_pool, nq_sent = [(7, Q_Cores 1), (7, Q_Response (snd (right_answer (7 :: nat, \<lparr>nQueen = 1, rq_cols = []\<rparr>))))],
      nq_up = [7], nq_asked = [(7, \<lparr>nQueen = 1, rq_cols = []\<rparr>)]\<rparr>"]) simp
qed

end
