(* ===== verification/Ev_KthServer.thy ===== *)
theory Ev_KthServer
  imports Ev_KthCodec "HOL-Library.Multiset"
begin

text \<open>
  \<^verbatim>\<open>tinyev/CountDownLatch.h\<close> and \<^verbatim>\<open>example/kth_element/KthServer.cc\<close>: a server of the distributed selection
  generates its numbers, sorts them in one vector per thread, tells a client its state and answers
  how many numbers are below and how many equal to a guess. The answer is computed by all threads at
  once, which add to two atomic counters and then count a latch down. \<open>rnd\<close> is the sequence of
  values of \<open>nrand48\<close>.
\<close>

section \<open>Latch\<close>

definition latch_count :: "int \<Rightarrow> int" where
  "latch_count n = n - 1"

definition latch_open :: "int \<Rightarrow> bool" where
  "latch_open n \<longleftrightarrow> n \<le> 0"

section \<open>Server state\<close>

record kserver =
  ks_numbers :: "int list list"
  ks_sum :: int
  ks_count :: int
  ks_min :: int
  ks_max :: int
  ks_drawn :: nat

definition generateOne :: "(nat \<Rightarrow> int) \<Rightarrow> int \<Rightarrow> int \<Rightarrow> kserver \<Rightarrow> error + (int \<times> kserver)" where
  "generateOne rnd mn rng s =
     (let (value, k) = (if 0 < rng then (mn + rnd (ks_drawn s) smod rng, Suc (ks_drawn s)) else (mn, ks_drawn s)) in
      bindE (i128 (ks_sum s + value)) (\<lambda>t.
      Inr (value, s\<lparr>ks_sum := t, ks_min := min (ks_min s) value, ks_max := max (ks_max s) value, ks_drawn := k\<rparr>)))"

text \<open>\<open>n\<close> more numbers at the end of vector \<open>i\<close>.\<close>

fun generateInto :: "(nat \<Rightarrow> int) \<Rightarrow> int \<Rightarrow> int \<Rightarrow> nat \<Rightarrow> nat \<Rightarrow> kserver \<Rightarrow> error + kserver" where
  "generateInto rnd mn rng i 0 s = Inr s"
| "generateInto rnd mn rng i (Suc n) s =
     bindE (generateOne rnd mn rng s) (\<lambda>(x, s1).
     generateInto rnd mn rng i n (s1\<lparr>ks_numbers := (ks_numbers s1)[i := ks_numbers s1 ! i @ [x]]\<rparr>))"

text \<open>The loop counter over the elements of a vector is an \<open>int\<close>.\<close>

definition generateNumbers :: "(nat \<Rightarrow> int) \<Rightarrow> int \<Rightarrow> nat \<Rightarrow> int \<Rightarrow> int \<Rightarrow> kserver \<Rightarrow> error + kserver" where
  "generateNumbers rnd cnt nThreads mn mx s =
     bindE (assertE (mn \<le> mx)) (\<lambda>_.
     let rng = mx - mn; vecSize = cnt div int nThreads in
     bindE (if vecSize < 2 ^ 31 then Inr () else Inl Signed_Overflow) (\<lambda>_.
     bindE (foldE (\<lambda>i. generateInto rnd mn rng i (nat vecSize)) [0..<nThreads]
              (s\<lparr>ks_numbers := replicate nThreads []\<rparr>)) (\<lambda>s1.
     generateInto rnd mn rng 0 (nat (cnt - vecSize * int nThreads)) s1)))"

text \<open>The constructor: check the arguments, generate, sort every vector in its thread.\<close>

definition kserver_new :: "(nat \<Rightarrow> int) \<Rightarrow> int \<Rightarrow> int \<Rightarrow> error + kserver" where
  "kserver_new rnd cnt nThreads =
     (if cnt \<le> 0 \<or> nThreads \<le> 0 then Inl Aborted
      else
        bindE (generateNumbers rnd cnt (nat nThreads) 0 (2 ^ 31 - 1)
          \<lparr>ks_numbers = [], ks_sum = 0, ks_count = cnt, ks_min = 2 ^ 63 - 1, ks_max = - (2 ^ 63), ks_drawn = 0\<rparr>) (\<lambda>s.
        let s1 = s\<lparr>ks_numbers := map sort (ks_numbers s)\<rparr> in
        bindE (assertE (list_all sorted (ks_numbers s1))) (\<lambda>_. Inr s1)))"

definition ks_onConnection :: "bool \<Rightarrow> kserver \<Rightarrow> string" where
  "ks_onConnection up s = (if up then sendState (ks_sum s) (ks_count s) (ks_min s) (ks_max s) else [])"

section \<open>Answering a query\<close>

text \<open>\<open>std::lower_bound\<close> and \<open>std::upper_bound\<close> of a sorted vector, as positions.\<close>

definition lower_bound :: "int list \<Rightarrow> int \<Rightarrow> nat" where
  "lower_bound vec g = length (takeWhile (\<lambda>x. x < g) vec)"

definition upper_bound :: "int list \<Rightarrow> int \<Rightarrow> nat" where
  "upper_bound vec g = length (takeWhile (\<lambda>x. x \<le> g) vec)"

text \<open>A worker thread: before its search, with its counts, between the two additions, before the
  latch, done.\<close>

datatype kstage =
    K_Search
  | K_AddLess int int
  | K_AddEqual int
  | K_Count
  | K_Done

record kround =
  latch :: int
  lessCount :: int
  equalCount :: int
  stages :: "kstage list"

definition round_start :: "kserver \<Rightarrow> kround" where
  "round_start s =
     \<lparr>latch = int (length (ks_numbers s)), lessCount = 0, equalCount = 0,
      stages = replicate (length (ks_numbers s)) K_Search\<rparr>"

definition work_stage :: "int \<Rightarrow> int list \<Rightarrow> nat \<Rightarrow> kround \<Rightarrow> kround" where
  "work_stage g vec i r =
     (case stages r ! i of
        K_Search \<Rightarrow>
          r\<lparr>stages := (stages r)[i := K_AddLess (int (lower_bound vec g)) (int (upper_bound vec g) - int (lower_bound vec g))]\<rparr>
      | K_AddLess l e \<Rightarrow> r\<lparr>lessCount := lessCount r + l, stages := (stages r)[i := K_AddEqual e]\<rparr>
      | K_AddEqual e \<Rightarrow> r\<lparr>equalCount := equalCount r + e, stages := (stages r)[i := K_Count]\<rparr>
      | K_Count \<Rightarrow> r\<lparr>latch := latch_count (latch r), stages := (stages r)[i := K_Done]\<rparr>
      | K_Done \<Rightarrow> r)"

text \<open>All interleavings of the threads.\<close>

inductive round_reach :: "kserver \<Rightarrow> int \<Rightarrow> kround \<Rightarrow> bool" for s g where
  start: "round_reach s g (round_start s)"
| work: "round_reach s g r \<Longrightarrow> i < length (stages r) \<Longrightarrow> round_reach s g (work_stage g (ks_numbers s ! i) i r)"

text \<open>What \<open>lessEqualCount\<close> sends once the latch lets it pass.\<close>

definition lessEqualCount :: "kround \<Rightarrow> string option" where
  "lessEqualCount r = (if latch_open (latch r) then Some (sendAnswer (lessCount r) (equalCount r)) else None)"

section \<open>Counting\<close>

definition less_in :: "int \<Rightarrow> int list \<Rightarrow> nat" where
  "less_in g xs = length (filter (\<lambda>x. x < g) xs)"

definition equal_in :: "int \<Rightarrow> int list \<Rightarrow> nat" where
  "equal_in g xs = length (filter (\<lambda>x. x = g) xs)"

lemma less_in_append [simp]: "less_in g (xs @ ys) = less_in g xs + less_in g ys"
  "equal_in g (xs @ ys) = equal_in g xs + equal_in g ys"
  by (simp_all add: less_in_def equal_in_def)

lemma less_in_nil [simp]: "less_in g [] = 0" "equal_in g [] = 0"
  by (simp_all add: less_in_def equal_in_def)

lemma less_in_mset: "mset xs = mset ys \<Longrightarrow> less_in g xs = less_in g ys \<and> equal_in g xs = equal_in g ys"
  unfolding less_in_def equal_in_def by (metis mset_filter size_mset)

lemma sorted_takeWhile_below:
  assumes "sorted xs"
  shows "takeWhile (\<lambda>x. x < g) xs = filter (\<lambda>x. x < g) xs" "takeWhile (\<lambda>x. x \<le> g) xs = filter (\<lambda>x. x \<le> g) xs"
  using assms by (induction xs) (fastforce simp: filter_empty_conv eq_commute[of "[]"])+

lemma bounds_count:
  assumes "sorted (xs :: int list)"
  shows "lower_bound xs g = less_in g xs" "upper_bound xs g = less_in g xs + equal_in g xs"
proof -
  show "lower_bound xs g = less_in g xs"
    using sorted_takeWhile_below(1)[OF assms] by (simp add: lower_bound_def less_in_def)
  have "length (filter (\<lambda>x. x \<le> g) xs) = less_in g xs + equal_in g xs"
    by (induction xs) (auto simp: less_in_def equal_in_def)
  then show "upper_bound xs g = less_in g xs + equal_in g xs"
    using sorted_takeWhile_below(2)[OF assms] by (simp add: upper_bound_def)
qed

section \<open>The round of the threads\<close>

lemma sum_update:
  fixes f :: "nat \<Rightarrow> 'a \<Rightarrow> int"
  assumes "i < length xs"
  shows "(\<Sum>j<length xs. f j (xs[i := y] ! j)) + f i (xs ! i) = (\<Sum>j<length xs. f j (xs ! j)) + f i y"
proof -
  have i: "i \<in> {..<length xs}" using assms by simp
  have "(\<Sum>j\<in>{..<length xs} - {i}. f j (xs[i := y] ! j)) = (\<Sum>j\<in>{..<length xs} - {i}. f j (xs ! j))"
    by (rule sum.cong) auto
  then show ?thesis
    using sum.remove[OF _ i, of "\<lambda>j. f j (xs[i := y] ! j)"] sum.remove[OF _ i, of "\<lambda>j. f j (xs ! j)"] assms
    by simp
qed

text \<open>What a thread has still to add, and to count.\<close>

fun owes_less :: "int \<Rightarrow> int list \<Rightarrow> kstage \<Rightarrow> int" where
  "owes_less g vec K_Search = int (less_in g vec)"
| "owes_less g vec (K_AddLess l e) = l"
| "owes_less g vec _ = 0"

fun owes_equal :: "int \<Rightarrow> int list \<Rightarrow> kstage \<Rightarrow> int" where
  "owes_equal g vec K_Search = int (equal_in g vec)"
| "owes_equal g vec (K_AddLess l e) = e"
| "owes_equal g vec (K_AddEqual e) = e"
| "owes_equal g vec _ = 0"

fun owes_count :: "kstage \<Rightarrow> int" where
  "owes_count K_Done = 0"
| "owes_count _ = 1"

definition round_inv :: "kserver \<Rightarrow> int \<Rightarrow> kround \<Rightarrow> bool" where
  "round_inv s g r \<longleftrightarrow>
     (let vs = ks_numbers s; n = length vs in
      length (stages r) = n \<and>
      lessCount r + (\<Sum>i<n. owes_less g (vs ! i) (stages r ! i)) = int (less_in g (concat vs)) \<and>
      equalCount r + (\<Sum>i<n. owes_equal g (vs ! i) (stages r ! i)) = int (equal_in g (concat vs)) \<and>
      latch r = (\<Sum>i<n. owes_count (stages r ! i)))"

lemma concat_counts:
  "int (less_in g (concat vs)) = (\<Sum>i<length vs. int (less_in g (vs ! i)))"
  "int (equal_in g (concat vs)) = (\<Sum>i<length vs. int (equal_in g (vs ! i)))"
proof -
  have "int (less_in g (concat vs)) = (\<Sum>v\<leftarrow>vs. int (less_in g v))"
    "int (equal_in g (concat vs)) = (\<Sum>v\<leftarrow>vs. int (equal_in g v))"
    by (induction vs) simp_all
  then show "int (less_in g (concat vs)) = (\<Sum>i<length vs. int (less_in g (vs ! i)))"
    "int (equal_in g (concat vs)) = (\<Sum>i<length vs. int (equal_in g (vs ! i)))"
    by (simp_all add: sum_list_sum_nth atLeast0LessThan)
qed

lemma round_reach_inv:
  assumes "list_all sorted (ks_numbers s)"
  shows "round_reach s g r \<Longrightarrow> round_inv s g r"
proof (induction rule: round_reach.induct)
  case start
  show ?case by (simp add: round_inv_def round_start_def concat_counts)
next
  case (work r i)
  let ?vs = "ks_numbers s"
  note inv = work.IH[unfolded round_inv_def Let_def]
  have i: "i < length ?vs" using work.hyps inv by simp
  have b: "lower_bound (?vs ! i) g = less_in g (?vs ! i)" "upper_bound (?vs ! i) g = less_in g (?vs ! i) + equal_in g (?vs ! i)"
    using bounds_count[of "?vs ! i" g] assms i by (simp_all add: list_all_length)
  note up = sum_update[OF work.hyps(2), of "\<lambda>j. owes_less g (?vs ! j)"]
    sum_update[OF work.hyps(2), of "\<lambda>j. owes_equal g (?vs ! j)"] sum_update[OF work.hyps(2), of "\<lambda>j. owes_count"]
  have len: "length (stages r) = length ?vs" using inv by simp
  show ?case
  proof (cases "stages r ! i")
    case K_Search
    then show ?thesis
      using inv up[of "K_AddLess (int (less_in g (?vs ! i))) (int (equal_in g (?vs ! i)))"] len
      by (simp add: round_inv_def work_stage_def b)
  next
    case (K_AddLess l e)
    then show ?thesis using inv up[of "K_AddEqual e"] len by (simp add: round_inv_def work_stage_def)
  next
    case (K_AddEqual e)
    then show ?thesis using inv up[of K_Count] len by (simp add: round_inv_def work_stage_def)
  next
    case K_Count
    then show ?thesis using inv up[of K_Done] len by (simp add: round_inv_def work_stage_def latch_count_def)
  next
    case K_Done
    then show ?thesis using work.IH by (simp add: work_stage_def)
  qed
qed

lemma round_answer:
  assumes "list_all sorted (ks_numbers s)" and "round_reach s g r" and "latch_open (latch r)"
  shows "lessCount r = int (less_in g (concat (ks_numbers s))) \<and> equalCount r = int (equal_in g (concat (ks_numbers s)))"
proof -
  note inv = round_reach_inv[OF assms(1,2), unfolded round_inv_def Let_def]
  have nn: "0 \<le> owes_count st" for st by (cases st) simp_all
  have "(\<Sum>i<length (ks_numbers s). owes_count (stages r ! i)) = 0"
    using inv assms(3) nn by (intro antisym sum_nonneg) (simp_all add: latch_open_def)
  then have "owes_count (stages r ! i) = 0" if "i < length (ks_numbers s)" for i
    using that nn by (simp add: sum_nonneg_eq_0_iff)
  then have "stages r ! i = K_Done" if "i < length (ks_numbers s)" for i
    using that by (metis owes_count.elims zero_neq_one)
  then show ?thesis using inv by simp
qed

text \<open>While the latch is closed some thread has work to do, and its step is one of at most four per thread.\<close>

fun stage_left :: "kstage \<Rightarrow> nat" where
  "stage_left K_Search = 4"
| "stage_left (K_AddLess l e) = 3"
| "stage_left (K_AddEqual e) = 2"
| "stage_left K_Count = 1"
| "stage_left K_Done = 0"

definition round_left :: "kround \<Rightarrow> nat" where
  "round_left r = sum_list (map stage_left (stages r))"

lemma round_left_update:
  "i < length st \<Longrightarrow> stage_left k < stage_left (st ! i) \<Longrightarrow>
     sum_list (map stage_left (st[i := k])) < sum_list (map stage_left st)"
proof (induction st arbitrary: i)
  case (Cons x st)
  then show ?case by (cases i) simp_all
qed simp

lemma work_stage_progress:
  "i < length (stages r) \<Longrightarrow> stages r ! i \<noteq> K_Done \<Longrightarrow> round_left (work_stage g vec i r) < round_left r"
  by (cases "stages r ! i") (simp_all add: work_stage_def round_left_def round_left_update)

lemma round_progress:
  assumes "list_all sorted (ks_numbers s)" and "round_reach s g r" and "lessEqualCount r = None"
  shows "\<exists>i<length (stages r). round_left (work_stage g (ks_numbers s ! i) i r) < round_left r"
proof -
  note inv = round_reach_inv[OF assms(1,2), unfolded round_inv_def Let_def]
  have "\<exists>i<length (ks_numbers s). stages r ! i \<noteq> K_Done"
  proof (rule ccontr)
    assume "\<not> (\<exists>i<length (ks_numbers s). stages r ! i \<noteq> K_Done)"
    then have "latch r = 0" using inv by simp
    then show False using assms(3) by (simp add: lessEqualCount_def latch_open_def)
  qed
  then show ?thesis using inv work_stage_progress by auto
qed

section \<open>The generated numbers\<close>

definition summary :: "int list \<Rightarrow> int \<Rightarrow> int \<Rightarrow> int \<Rightarrow> bool" where
  "summary xs t mn mx \<longleftrightarrow>
     t = sum_list xs \<and> (\<forall>x\<in>set xs. 0 \<le> x \<and> x < 2 ^ 31) \<and>
     mn = (if xs = [] then 2 ^ 63 - 1 else Min (set xs)) \<and> mx = (if xs = [] then - (2 ^ 63) else Max (set xs))"

definition gen_inv :: "kserver \<Rightarrow> bool" where
  "gen_inv s \<longleftrightarrow> summary (concat (ks_numbers s)) (ks_sum s) (ks_min s) (ks_max s)"

lemma mset_concat_append:
  "i < length vs \<Longrightarrow> mset (concat (vs[i := vs ! i @ [x]])) = add_mset x (mset (concat vs))"
proof (induction vs arbitrary: i)
  case Nil
  then show ?case by simp
next
  case (Cons v vs)
  then show ?case by (cases i) simp_all
qed

lemma sum_list_mset_eq: "mset xs = mset ys \<Longrightarrow> sum_list xs = (sum_list ys :: int)"
  by (metis sum_mset_sum_list)

lemma sum_list_bound: "\<forall>x\<in>set xs. 0 \<le> x \<and> x < c \<Longrightarrow> 0 \<le> sum_list xs \<and> sum_list xs \<le> int (length xs) * c"
  for xs :: "int list"
  by (induction xs) (auto simp: algebra_simps)

lemma generateOne_append:
  assumes rnd: "\<And>k. 0 \<le> rnd k" and inv: "gen_inv s" and i: "i < length (ks_numbers s)"
    and len: "length (concat (ks_numbers s)) < 2 ^ 63"
  shows "\<exists>x s1. generateOne rnd 0 (2 ^ 31 - 1) s = Inr (x, s1) \<and> ks_numbers s1 = ks_numbers s \<and> ks_count s1 = ks_count s \<and>
    gen_inv (s1\<lparr>ks_numbers := (ks_numbers s)[i := ks_numbers s ! i @ [x]]\<rparr>)"
proof -
  define x where "x = rnd (ks_drawn s) smod (2 ^ 31 - 1)"
  define xs where "xs = concat (ks_numbers s)"
  define ys where "ys = concat ((ks_numbers s)[i := ks_numbers s ! i @ [x]])"
  have x: "0 \<le> x" "x < 2 ^ 31"
    using rnd[of "ks_drawn s"] pos_mod_bound[of "2147483647 :: int" "rnd (ks_drawn s)"] unfolding x_def
    by (cases "rnd (ks_drawn s) = 0"; simp add: signed_modulo_int_def)+
  have ks: "ks_sum s = sum_list xs" and el: "\<forall>y\<in>set xs. 0 \<le> y \<and> y < 2 ^ 31"
    and mn0: "ks_min s = (if xs = [] then 2 ^ 63 - 1 else Min (set xs))"
    and mx0: "ks_max s = (if xs = [] then - (2 ^ 63) else Max (set xs))"
    using inv unfolding gen_inv_def summary_def xs_def by blast+
  have "int (length xs) < 2 ^ 63" using len unfolding xs_def by (metis of_nat_less_iff of_nat_numeral of_nat_power)
  then have "int (length xs) * 2 ^ 31 \<le> 2 ^ 63 * 2 ^ 31" by simp
  then have sm: "0 \<le> ks_sum s + x" "ks_sum s + x < 2 ^ 127"
    using sum_list_bound[OF el] x unfolding ks by simp_all
  let ?s1 = "s\<lparr>ks_sum := ks_sum s + x, ks_min := min (ks_min s) x, ks_max := max (ks_max s) x, ks_drawn := Suc (ks_drawn s)\<rparr>"
  have m: "mset ys = add_mset x (mset xs)" unfolding ys_def xs_def by (rule mset_concat_append[OF i])
  have set: "set ys = insert x (set xs)" using m by (metis set_mset_mset set_mset_add_mset_insert)
  have ne: "ys \<noteq> []" using m by auto
  have sl: "sum_list ys = sum_list xs + x" using sum_list_mset_eq[of ys "x # xs"] m by simp
  have mn: "min (ks_min s) x = Min (set ys)" and mx: "max (ks_max s) x = Max (set ys)"
    using x unfolding set mn0 mx0 by (cases "xs = []"; simp add: min.commute max.commute)+
  have "generateOne rnd 0 (2 ^ 31 - 1) s = Inr (x, ?s1)"
    using sm by (simp add: generateOne_def i128_def x_def)
  moreover have "gen_inv (?s1\<lparr>ks_numbers := (ks_numbers s)[i := ks_numbers s ! i @ [x]]\<rparr>)"
  proof -
    have "summary ys (ks_sum s + x) (min (ks_min s) x) (max (ks_max s) x)"
      using ne sl mn mx ks el x set by (simp add: summary_def)
    then show ?thesis by (simp add: gen_inv_def ys_def)
  qed
  ultimately show ?thesis by (intro exI[of _ x] exI[of _ ?s1]) simp
qed

lemma generateInto_ok:
  assumes rnd: "\<And>k. 0 \<le> rnd k"
  shows "gen_inv s \<Longrightarrow> i < length (ks_numbers s) \<Longrightarrow> length (concat (ks_numbers s)) + n < 2 ^ 63 \<Longrightarrow>
    \<exists>s'. generateInto rnd 0 (2 ^ 31 - 1) i n s = Inr s' \<and> gen_inv s' \<and> length (ks_numbers s') = length (ks_numbers s) \<and>
      ks_count s' = ks_count s \<and> length (concat (ks_numbers s')) = length (concat (ks_numbers s)) + n"
proof (induction n arbitrary: s)
  case 0
  then show ?case by simp
next
  case (Suc n)
  obtain x s1 where s1: "generateOne rnd 0 (2 ^ 31 - 1) s = Inr (x, s1)" "ks_numbers s1 = ks_numbers s"
    "ks_count s1 = ks_count s" "gen_inv (s1\<lparr>ks_numbers := (ks_numbers s)[i := ks_numbers s ! i @ [x]]\<rparr>)"
    using generateOne_append[of rnd s i, OF rnd Suc.prems(1,2)] Suc.prems(3) by auto
  let ?s = "s1\<lparr>ks_numbers := (ks_numbers s)[i := ks_numbers s ! i @ [x]]\<rparr>"
  have len: "length (concat (ks_numbers ?s)) = Suc (length (concat (ks_numbers s)))"
    using mset_eq_length[of "concat (ks_numbers ?s)" "x # concat (ks_numbers s)"]
      mset_concat_append[OF Suc.prems(2), of x] by simp
  have "length (concat (ks_numbers ?s)) + n < 2 ^ 63" using Suc.prems(3) unfolding len by simp
  moreover have "i < length (ks_numbers ?s)" using Suc.prems(2) by simp
  ultimately obtain s' where s': "generateInto rnd 0 (2 ^ 31 - 1) i n ?s = Inr s'" "gen_inv s'"
    "length (ks_numbers s') = length (ks_numbers ?s)" "ks_count s' = ks_count ?s"
    "length (concat (ks_numbers s')) = length (concat (ks_numbers ?s)) + n"
    using Suc.IH[OF s1(4)] by blast
  then show ?case using s1 len by simp
qed

text \<open>What a server tells and answers, in terms of its numbers.\<close>

definition server_ok :: "kserver \<Rightarrow> bool" where
  "server_ok s \<longleftrightarrow>
     (let xs = concat (ks_numbers s) in
      xs \<noteq> [] \<and> list_all sorted (ks_numbers s) \<and> ks_sum s = sum_list xs \<and> ks_count s = int (length xs) \<and>
      ks_min s = Min (set xs) \<and> ks_max s = Max (set xs))"

lemma generate_all:
  assumes rnd: "\<And>k. 0 \<le> rnd k"
  shows "gen_inv s \<Longrightarrow> (\<forall>i\<in>set is. i < length (ks_numbers s)) \<Longrightarrow>
    length (concat (ks_numbers s)) + length is * n < 2 ^ 63 \<Longrightarrow>
    \<exists>s'. foldE (\<lambda>i. generateInto rnd 0 (2 ^ 31 - 1) i n) is s = Inr s' \<and> gen_inv s' \<and>
      length (ks_numbers s') = length (ks_numbers s) \<and> ks_count s' = ks_count s \<and>
      length (concat (ks_numbers s')) = length (concat (ks_numbers s)) + length is * n"
proof (induction "is" arbitrary: s)
  case Nil
  then show ?case by simp
next
  case (Cons i "is")
  have i: "i < length (ks_numbers s)" and len: "length (concat (ks_numbers s)) + n < 2 ^ 63"
    using Cons.prems(2,3) by simp_all
  obtain s1 where s1: "generateInto rnd 0 (2 ^ 31 - 1) i n s = Inr s1" "gen_inv s1"
    "length (ks_numbers s1) = length (ks_numbers s)" "ks_count s1 = ks_count s"
    "length (concat (ks_numbers s1)) = length (concat (ks_numbers s)) + n"
    using generateInto_ok[of rnd s i n, OF rnd Cons.prems(1) i len] by blast
  have "\<forall>i\<in>set is. i < length (ks_numbers s1)" using Cons.prems(2) s1(3) by simp
  moreover have "length (concat (ks_numbers s1)) + length is * n < 2 ^ 63"
    using Cons.prems(3) unfolding s1(5) by simp
  ultimately obtain s2 where "foldE (\<lambda>i. generateInto rnd 0 (2 ^ 31 - 1) i n) is s1 = Inr s2" "gen_inv s2"
    "length (ks_numbers s2) = length (ks_numbers s1)" "ks_count s2 = ks_count s1"
    "length (concat (ks_numbers s2)) = length (concat (ks_numbers s1)) + length is * n"
    using Cons.IH[OF s1(2)] by blast
  then show ?case using s1 by simp
qed

lemma mset_concat_sort: "mset (concat (map sort vs)) = mset (concat vs)"
  by (induction vs) simp_all

lemma kserver_new_ok:
  assumes rnd: "\<And>k. 0 \<le> rnd k" and c: "0 < cnt" "cnt < 2 ^ 63" and t: "0 < nT" and v: "cnt div nT < 2 ^ 31"
  shows "\<exists>s. kserver_new rnd cnt nT = Inr s \<and> server_ok s \<and> ks_count s = cnt \<and> length (ks_numbers s) = nat nT"
proof -
  let ?n = "nat nT" let ?q = "cnt div nT"
  let ?s0 = "\<lparr>ks_numbers = replicate ?n [], ks_sum = 0, ks_count = cnt, ks_min = 2 ^ 63 - 1, ks_max = - (2 ^ 63), ks_drawn = 0\<rparr>"
  have e0: "concat (replicate ?n []) = ([] :: int list)" by (induction ?n) simp_all
  have q0: "0 \<le> ?q" using c t by (simp add: pos_imp_zdiv_nonneg_iff)
  have dm: "?q * nT + cnt mod nT = cnt" by simp
  have m0: "0 \<le> cnt mod nT" using t by simp
  have "int (?n * nat ?q) = ?q * nT" using q0 t by simp
  then have le: "int (?n * nat ?q) \<le> cnt" using dm m0 by linarith
  have "int (?n * nat ?q) < 2 ^ 63" using le c(2) by linarith
  then have small: "?n * nat ?q < 2 ^ 63" by (metis of_nat_less_iff of_nat_numeral of_nat_power)
  have i0: "gen_inv ?s0" by (simp add: gen_inv_def summary_def e0)
  have b0: "length (concat (ks_numbers ?s0)) + length [0..<?n] * nat ?q < 2 ^ 63"
    unfolding kserver.simps e0 using small by simp
  obtain s1 where s1: "foldE (\<lambda>i. generateInto rnd 0 (2 ^ 31 - 1) i (nat ?q)) [0..<?n] ?s0 = Inr s1" "gen_inv s1"
    "length (ks_numbers s1) = ?n" "ks_count s1 = cnt" "length (concat (ks_numbers s1)) = ?n * nat ?q"
    using generate_all[of rnd ?s0 "[0..<?n]" "nat ?q", OF rnd i0 _ b0] by (auto simp: e0)
  have rem: "cnt - ?q * nT = cnt mod nT" using dm by linarith
  have "int (?n * nat ?q + nat (cnt - ?q * nT)) = cnt"
    using \<open>int (?n * nat ?q) = ?q * nT\<close> rem m0 by simp
  then have tot: "?n * nat ?q + nat (cnt - ?q * nT) = nat cnt" by linarith
  have n0: "0 < length (ks_numbers s1)" using s1(3) t by simp
  have b1: "length (concat (ks_numbers s1)) + nat (cnt - ?q * nT) < 2 ^ 63"
    unfolding s1(5) tot using c(2) by simp
  obtain s2 where s2: "generateInto rnd 0 (2 ^ 31 - 1) 0 (nat (cnt - ?q * nT)) s1 = Inr s2" "gen_inv s2"
    "length (ks_numbers s2) = ?n" "ks_count s2 = cnt" "length (concat (ks_numbers s2)) = nat cnt"
    using generateInto_ok[of rnd s1 0, OF rnd s1(2) n0 b1] s1(3,4,5) tot by auto
  have g: "generateNumbers rnd cnt ?n 0 (2 ^ 31 - 1) (?s0\<lparr>ks_numbers := []\<rparr>) = Inr s2"
    using v t s1(1) s2(1) by (simp add: generateNumbers_def Let_def)
  let ?s3 = "s2\<lparr>ks_numbers := map sort (ks_numbers s2)\<rparr>"
  define xs where "xs = concat (ks_numbers s2)"
  define ys where "ys = concat (map sort (ks_numbers s2))"
  have m: "mset ys = mset xs" unfolding xs_def ys_def by (rule mset_concat_sort)
  have "set ys = set xs" "length ys = nat cnt" "sum_list ys = sum_list xs" "ys \<noteq> []" "xs \<noteq> []"
    using mset_eq_setD[OF m] mset_eq_length[OF m] sum_list_mset_eq[OF m] s2(5) c(1) unfolding xs_def[symmetric] by auto
  moreover have "summary xs (ks_sum s2) (ks_min s2) (ks_max s2)" using s2(2) by (simp add: gen_inv_def xs_def)
  ultimately have "ys \<noteq> [] \<and> ks_sum s2 = sum_list ys \<and> cnt = int (length ys) \<and> ks_min s2 = Min (set ys) \<and> ks_max s2 = Max (set ys)"
    using c by (simp add: summary_def)
  then have "server_ok ?s3"
    using s2(4) unfolding server_ok_def Let_def ys_def by (simp add: list_all_iff)
  moreover have "kserver_new rnd cnt nT = Inr ?s3"
    using g c t by (simp add: kserver_new_def Let_def list_all_iff)
  ultimately show ?thesis using s2(3,4) by auto
qed

text \<open>
  C21: a server built with any number of threads answers every query with the exact numbers of elements
  below and equal to the guess among all it generated, however its threads interleave: when the latch
  lets \<open>lessEqualCount\<close> pass, no addition is missing; and while it does not, some thread has one of the
  at most four steps left that it takes. What the server tells of itself on connecting is true.
\<close>

theorem server_answers_exactly:
  assumes "\<And>k. 0 \<le> rnd k" and "0 < cnt" "cnt < 2 ^ 63" and "0 < nT" and "cnt div nT < 2 ^ 31"
  shows "\<exists>s. kserver_new rnd cnt nT = Inr s \<and>
    (let xs = concat (ks_numbers s) in
     int (length xs) = cnt \<and>
     ks_onConnection True s = sendState (sum_list xs) cnt (Min (set xs)) (Max (set xs)) \<and>
     (\<forall>g r m. round_reach s g r \<and> lessEqualCount r = Some m \<longrightarrow>
        m = sendAnswer (int (less_in g xs)) (int (equal_in g xs))) \<and>
     (\<forall>g r. round_reach s g r \<and> lessEqualCount r = None \<longrightarrow>
        (\<exists>i<length (stages r). round_left (work_stage g (ks_numbers s ! i) i r) < round_left r)))"
proof -
  obtain s where s: "kserver_new rnd cnt nT = Inr s" "server_ok s" "ks_count s = cnt"
    using kserver_new_ok[of rnd, OF assms] by blast
  have "m = sendAnswer (int (less_in g (concat (ks_numbers s)))) (int (equal_in g (concat (ks_numbers s))))"
    if "round_reach s g r" "lessEqualCount r = Some m" for g r m
    using that round_answer[of s g r] s(2)
    by (auto simp: lessEqualCount_def server_ok_def Let_def split: if_splits)
  moreover have "\<exists>i<length (stages r). round_left (work_stage g (ks_numbers s ! i) i r) < round_left r"
    if "round_reach s g r" "lessEqualCount r = None" for g r
    using that round_progress[of s g r] s(2) by (simp add: server_ok_def Let_def)
  ultimately show ?thesis using s by (auto simp: server_ok_def Let_def ks_onConnection_def)
qed

theorem server_answers_exactly_witness:
  "\<exists>s. kserver_new (\<lambda>k. 3 * int k) 5 2 = Inr s \<and> length (concat (ks_numbers s)) = 5 \<and>
    (\<forall>r m. round_reach s 6 r \<and> lessEqualCount r = Some m \<longrightarrow>
       m = sendAnswer (int (less_in 6 (concat (ks_numbers s)))) (int (equal_in 6 (concat (ks_numbers s)))))"
  using server_answers_exactly[of "\<lambda>k. 3 * int k" 5 2] by (auto simp: Let_def simp del: length_concat set_concat)

end
