(* ===== verification/Ev_KthClient.thy ===== *)
theory Ev_KthClient
  imports Ev_KthServer
begin

text \<open>
  \<^verbatim>\<open>example/kth_element/KthClient.cc\<close>: the client finds the k-th smallest of all numbers of its servers by
  bisection: it asks every server how many of its numbers are below and equal to a guess, and halves
  the interval. Messages of different servers arrive in any order. \<open>order\<close> is the iteration order of
  the hash set of connections.
\<close>

section \<open>Client\<close>

definition to_i64 :: "int \<Rightarrow> error + int" where
  "to_i64 x = (if i64 x then Inr x else Inl Signed_Overflow)"

datatype 'c keffect =
    KQuery 'c int
  | KShutdown 'c
  | KFound int
  | KQuit

record 'c kclient =
  kc_clients :: nat
  kc_conns :: "'c set"
  kth :: int
  kc_sum :: int
  totalCount :: int
  kc_min :: int
  kc_max :: int
  nServerState :: nat
  low :: int
  high :: int
  guess :: int
  nLess :: int
  nEqual :: int
  nAnswered :: nat
  nIteration :: nat

definition kclient_new :: "nat \<Rightarrow> int \<Rightarrow> 'c kclient" where
  "kclient_new n k =
     \<lparr>kc_clients = n, kc_conns = {}, kth = k, kc_sum = 0, totalCount = 0, kc_min = 2 ^ 63 - 1, kc_max = - (2 ^ 63),
      nServerState = 0, low = 0, high = 0, guess = 0, nLess = 0, nEqual = 0, nAnswered = 0, nIteration = 0\<rparr>"

definition kc_onConnectError :: "('c set \<Rightarrow> 'c list) \<Rightarrow> 'c kclient \<Rightarrow> 'c keffect list" where
  "kc_onConnectError order cl =
     (if kc_conns cl = {} then [KQuit] else [KShutdown (hd (order (kc_conns cl)))])"

definition kc_onConnection :: "('c set \<Rightarrow> 'c list) \<Rightarrow> 'c \<Rightarrow> bool \<Rightarrow> 'c kclient \<Rightarrow> 'c kclient \<times> 'c keffect list" where
  "kc_onConnection order c up cl =
     (if up then (cl\<lparr>kc_conns := insert c (kc_conns cl)\<rparr>, [])
      else let cl' = cl\<lparr>kc_conns := kc_conns cl - {c}\<rparr> in (cl', kc_onConnectError order cl'))"

definition allToldState :: "'c kclient \<Rightarrow> bool" where
  "allToldState cl \<longleftrightarrow> nServerState cl = kc_clients cl"

definition allAnswered :: "'c kclient \<Rightarrow> bool" where
  "allAnswered cl \<longleftrightarrow> nAnswered cl = kc_clients cl"

definition ask_all :: "('c set \<Rightarrow> 'c list) \<Rightarrow> 'c kclient \<Rightarrow> 'c keffect list" where
  "ask_all order cl = map (\<lambda>c. KQuery c (guess cl)) (order (kc_conns cl))"

text \<open>The first guess is computed in \<open>uint64_t\<close>, from a difference computed in \<open>int64_t\<close>.\<close>

definition first_guess :: "int \<Rightarrow> int \<Rightarrow> error + int" where
  "first_guess lo hi =
     bindE (to_i64 (hi - lo)) (\<lambda>d.
     Inr (sint (word_of_int lo + (word_of_int d :: 64 word) div 2)))"

definition choose_kth :: "int \<Rightarrow> int \<Rightarrow> error + int" where
  "choose_kth k n =
     (if k \<le> 0 then bindE (to_i64 (n + 1)) (\<lambda>m. Inr (m sdiv 2))
      else if n < k then Inr n else Inr k)"

definition onServerState ::
  "('c set \<Rightarrow> 'c list) \<Rightarrow> int \<Rightarrow> int \<Rightarrow> int \<Rightarrow> int \<Rightarrow> 'c kclient \<Rightarrow> error + ('c kclient \<times> 'c keffect list)" where
  "onServerState order tot cnt mn mx cl =
     bindE (i128 (kc_sum cl + tot)) (\<lambda>t.
     bindE (to_i64 (totalCount cl + cnt)) (\<lambda>n.
     let cl1 = cl\<lparr>kc_sum := t, totalCount := n, kc_min := min (kc_min cl) mn, kc_max := max (kc_max cl) mx,
                 nServerState := nServerState cl + 1\<rparr> in
     if allToldState cl1 then
       bindE (first_guess (kc_min cl1) (kc_max cl1)) (\<lambda>g.
       bindE (if n = 0 then Inl Division_By_Zero else Inr ()) (\<lambda>_.
       bindE (choose_kth (kth cl1) n) (\<lambda>k.
       let cl2 = cl1\<lparr>low := kc_min cl1, high := kc_max cl1, guess := g, kth := k\<rparr> in
       Inr (cl2, ask_all order cl2))))
     else Inr (cl1, [])))"

text \<open>The comparison of the counts with k: whether the guess is the element, and the new interval.\<close>

definition narrow :: "'c kclient \<Rightarrow> error + (bool \<times> 'c kclient)" where
  "narrow cl =
     (if nLess cl < kth cl then
        bindE (to_i64 (nLess cl + nEqual cl)) (\<lambda>m.
        if kth cl \<le> m then Inr (True, cl)
        else bindE (to_i64 (guess cl + 1)) (\<lambda>l. Inr (False, cl\<lparr>low := l\<rparr>)))
      else bindE (to_i64 (guess cl - 1)) (\<lambda>h. Inr (False, cl\<lparr>high := h\<rparr>)))"

definition onAnswer ::
  "('c set \<Rightarrow> 'c list) \<Rightarrow> 'c \<Rightarrow> int \<Rightarrow> int \<Rightarrow> 'c kclient \<Rightarrow> error + ('c kclient \<times> 'c keffect list)" where
  "onAnswer order c l e cl =
     bindE (to_i64 (nLess cl + l)) (\<lambda>nl.
     bindE (to_i64 (nEqual cl + e)) (\<lambda>ne.
     let cl1 = cl\<lparr>nLess := nl, nEqual := ne, nAnswered := nAnswered cl + 1\<rparr> in
     if allAnswered cl1 then
       bindE (narrow cl1) (\<lambda>(done, cl2).
       let cl3 = cl2\<lparr>nIteration := nIteration cl2 + 1\<rparr> in
       bindE (assertE (nIteration cl3 \<le> 64)) (\<lambda>_.
       bindE (assertE (low cl3 \<le> high cl3)) (\<lambda>_.
       if done then Inr (cl3, [KFound (guess cl3), KShutdown c])
       else
         bindE (to_i64 (high cl3 - low cl3)) (\<lambda>d.
         bindE (to_i64 (low cl3 + d sdiv 2)) (\<lambda>g.
         let cl4 = cl3\<lparr>nLess := 0, nEqual := 0, nAnswered := 0, guess := g\<rparr> in
         Inr (cl4, ask_all order cl4))))))
     else Inr (cl1, [])))"

section \<open>Client and servers\<close>

text \<open>
  \<open>told\<close>: servers whose state is on its way; \<open>asked\<close>: queries not answered yet. The other fields are
  history: whose state has arrived, who has answered the present guess, the element announced and
  the number of events so far.
\<close>

record 'c ksys =
  kcl :: "'c kclient"
  told :: "'c list"
  asked :: "('c \<times> int) list"
  heard :: "'c list"
  replied :: "'c list"
  found :: "int option"
  turns :: nat

datatype 'c kevent =
    K_Up 'c
  | K_Told nat
  | K_Reply nat

fun queries :: "'c keffect list \<Rightarrow> ('c \<times> int) list" where
  "queries [] = []"
| "queries (KQuery c g # es) = (c, g) # queries es"
| "queries (_ # es) = queries es"

fun announced :: "'c keffect list \<Rightarrow> int option" where
  "announced [] = None"
| "announced (KFound v # es) = Some v"
| "announced (_ # es) = announced es"

definition remove_nth :: "nat \<Rightarrow> 'a list \<Rightarrow> 'a list" where
  "remove_nth i xs = take i xs @ drop (Suc i) xs"

fun ksys_step :: "('c \<Rightarrow> kserver) \<Rightarrow> ('c set \<Rightarrow> 'c list) \<Rightarrow> 'c kevent \<Rightarrow> 'c ksys \<Rightarrow> error + 'c ksys" where
  "ksys_step srv order (K_Up c) s =
     Inr (s\<lparr>kcl := fst (kc_onConnection order c True (kcl s)), told := told s @ [c], turns := turns s + 1\<rparr>)"
| "ksys_step srv order (K_Told i) s =
     (let c = told s ! i; v = srv c in
      bindE (onServerState order (ks_sum v) (ks_count v) (ks_min v) (ks_max v) (kcl s)) (\<lambda>(cl, es).
      Inr (s\<lparr>kcl := cl, told := remove_nth i (told s), asked := asked s @ queries es,
             heard := heard s @ [c], turns := turns s + 1\<rparr>)))"
| "ksys_step srv order (K_Reply i) s =
     (let (c, g) = asked s ! i; xs = concat (ks_numbers (srv c)) in
      bindE (onAnswer order c (int (less_in g xs)) (int (equal_in g xs)) (kcl s)) (\<lambda>(cl, es).
      Inr (s\<lparr>kcl := cl, asked := remove_nth i (asked s) @ queries es,
             replied := (if nAnswered cl = 0 then [] else replied s @ [c]),
             found := (if announced es = None then found s else announced es), turns := turns s + 1\<rparr>)))"

fun ksys_legal :: "'c list \<Rightarrow> 'c kevent \<Rightarrow> 'c ksys \<Rightarrow> bool" where
  "ksys_legal ps (K_Up c) s \<longleftrightarrow> c \<in> set ps \<and> c \<notin> kc_conns (kcl s)"
| "ksys_legal ps (K_Told i) s \<longleftrightarrow> i < length (told s)"
| "ksys_legal ps (K_Reply i) s \<longleftrightarrow> i < length (asked s)"

definition ksys_new :: "'c list \<Rightarrow> int \<Rightarrow> 'c ksys" where
  "ksys_new ps k =
     \<lparr>kcl = kclient_new (length ps) k, told = [], asked = [], heard = [], replied = [], found = None, turns = 0\<rparr>"

section \<open>Bisection\<close>

lemma sorted_nth_less:
  assumes "sorted ys" and "k < length ys"
  shows "ys ! k < g \<longleftrightarrow> k < less_in g ys" and "ys ! k \<le> g \<longleftrightarrow> k < less_in g ys + equal_in g ys"
proof -
  have gen: "P (ys ! k) \<longleftrightarrow> k < length (takeWhile P ys)"
    if down: "\<And>x y. x \<le> y \<Longrightarrow> P y \<Longrightarrow> P x" for P :: "int \<Rightarrow> bool"
  proof
    assume "P (ys ! k)"
    show "k < length (takeWhile P ys)"
    proof (rule ccontr)
      assume n: "\<not> k < length (takeWhile P ys)"
      then have l: "length (takeWhile P ys) < length ys" using assms(2) by simp
      have "ys ! length (takeWhile P ys) \<le> ys ! k" using assms n by (intro sorted_nth_mono) simp_all
      then show False using nth_length_takeWhile[OF l] down \<open>P (ys ! k)\<close> by blast
    qed
  next
    assume "k < length (takeWhile P ys)"
    then show "P (ys ! k)" using nth_mem[of k "takeWhile P ys"] set_takeWhileD takeWhile_nth by fastforce
  qed
  show "ys ! k < g \<longleftrightarrow> k < less_in g ys"
    using gen[of "\<lambda>x. x < g"] bounds_count(1)[OF assms(1), of g] by (simp add: lower_bound_def)
  show "ys ! k \<le> g \<longleftrightarrow> k < less_in g ys + equal_in g ys"
    using gen[of "\<lambda>x. x \<le> g"] bounds_count(2)[OF assms(1), of g] by (simp add: upper_bound_def)
qed

text \<open>The k-th smallest, for the k the client ends up with.\<close>

definition kth_of :: "int \<Rightarrow> nat \<Rightarrow> nat" where
  "kth_of k n = (if k \<le> 0 then (n + 1) div 2 else min (nat k) n)"

definition kth_smallest :: "int \<Rightarrow> int list \<Rightarrow> int" where
  "kth_smallest k xs = sort xs ! (kth_of k (length xs) - 1)"

lemma kth_of_range: "0 < n \<Longrightarrow> 0 < kth_of k n \<and> kth_of k n \<le> n"
  by (auto simp: kth_of_def)

lemma compare_counts:
  assumes "xs \<noteq> []"
  shows "less_in g xs < kth_of k (length xs) \<longleftrightarrow> g \<le> kth_smallest k xs"
    and "kth_of k (length xs) \<le> less_in g xs + equal_in g xs \<longleftrightarrow> kth_smallest k xs \<le> g"
proof -
  let ?k = "kth_of k (length xs)"
  have k: "0 < ?k" "?k \<le> length xs" using kth_of_range[of "length xs" k] assms by auto
  note s = sorted_nth_less[of "sort xs" "?k - 1" g]
  have m: "less_in g (sort xs) = less_in g xs" "equal_in g (sort xs) = equal_in g xs"
    using less_in_mset[of "sort xs" xs g] by simp_all
  show "less_in g xs < ?k \<longleftrightarrow> g \<le> kth_smallest k xs"
    using s(1) k unfolding m kth_smallest_def by (simp add: not_less[symmetric]) linarith
  show "?k \<le> less_in g xs + equal_in g xs \<longleftrightarrow> kth_smallest k xs \<le> g"
    using s(2) k unfolding m kth_smallest_def by simp linarith
qed

lemma sint_of_int: "i64 x \<Longrightarrow> sint (word_of_int x :: 64 word) = x"
  unfolding i64_def by (simp add: signed_of_int signed_take_bit_int_eq_self)

lemma first_guess_ok:
  assumes "i64 lo" "i64 hi" "lo \<le> hi" "hi - lo < 2 ^ 63"
  shows "first_guess lo hi = Inr (lo + (hi - lo) div 2)"
proof -
  define d where "d = hi - lo"
  have d: "0 \<le> d" "d < 2 ^ 63" using assms(3,4) by (simp_all add: d_def)
  then have "uint (word_of_int d :: 64 word) = d" by (simp add: uint_word_of_int)
  then have h: "(word_of_int d :: 64 word) div 2 = word_of_int (d div 2)"
    by (simp add: word_div_def)
  have g: "i64 (lo + d div 2)" using assms unfolding i64_def d_def by linarith
  have "i64 d" using d unfolding i64_def by linarith
  then have "first_guess lo hi = Inr (sint (word_of_int lo + (word_of_int (d div 2) :: 64 word)))"
    by (simp add: first_guess_def to_i64_def h flip: d_def)
  also have "word_of_int lo + (word_of_int (d div 2) :: 64 word) = word_of_int (lo + d div 2)" by simp
  finally show ?thesis unfolding sint_of_int[OF g] by (simp add: d_def)
qed

text \<open>The cast to \<open>uint64_t\<close> comes after the subtraction, so elements further apart overflow it.\<close>

lemma wide_range_overflows: "2 ^ 63 \<le> hi - lo \<Longrightarrow> first_guess lo hi = Inl Signed_Overflow"
  by (simp add: first_guess_def to_i64_def i64_def)

text \<open>One comparison halves the interval or finds the element.\<close>

lemma narrow_ok:
  assumes "xs \<noteq> []" and len: "int (length xs) < 2 ^ 63"
    and cl: "nLess cl = int (less_in (guess cl) xs)" "nEqual cl = int (equal_in (guess cl) xs)"
      "kth cl = int (kth_of k (length xs))" "guess cl = low cl + (high cl - low cl) div 2"
    and v: "low cl \<le> kth_smallest k xs" "kth_smallest k xs \<le> high cl" "i64 (low cl)" "i64 (high cl)"
    and m: "high cl - low cl < 2 ^ m"
  shows "guess cl = kth_smallest k xs \<and> narrow cl = Inr (True, cl) \<or>
    (\<exists>lo hi. guess cl \<noteq> kth_smallest k xs \<and> narrow cl = Inr (False, cl\<lparr>low := lo, high := hi\<rparr>) \<and> lo \<le> kth_smallest k xs \<and>
       kth_smallest k xs \<le> hi \<and> i64 lo \<and> i64 hi \<and> 0 < m \<and> hi - lo < 2 ^ (m - 1))"
proof -
  define v where "v = kth_smallest k xs"
  note cmp = compare_counts[OF assms(1), where g = "guess cl" and k = k, folded v_def]
  note bnd = v[folded v_def]
  have le: "less_in (guess cl) xs + equal_in (guess cl) xs \<le> length xs"
    by (induction xs) (auto simp: less_in_def equal_in_def)
  then have i: "i64 (nLess cl + nEqual cl)" using len cl(1,2) unfolding i64_def by linarith
  have mp: "0 < m \<and> (2 :: int) ^ m = 2 * 2 ^ (m - 1)" if "low cl < high cl"
    using m that by (cases m) auto
  consider "guess cl = v" | "guess cl < v" | "v < guess cl" by linarith
  then have "guess cl = v \<and> narrow cl = Inr (True, cl) \<or>
    (\<exists>lo hi. guess cl \<noteq> v \<and> narrow cl = Inr (False, cl\<lparr>low := lo, high := hi\<rparr>) \<and> lo \<le> v \<and>
       v \<le> hi \<and> i64 lo \<and> i64 hi \<and> 0 < m \<and> hi - lo < 2 ^ (m - 1))"
  proof cases
    case 1
    then have "nLess cl < kth cl" "kth cl \<le> nLess cl + nEqual cl" using cmp cl by simp_all
    then have "narrow cl = Inr (True, cl)" using i by (simp add: narrow_def to_i64_def)
    then show ?thesis using 1 by blast
  next
    case 2
    then have "nLess cl < kth cl" "\<not> kth cl \<le> nLess cl + nEqual cl" using cmp cl by simp_all
    moreover have g: "i64 (guess cl + 1)" "guess cl + 1 \<le> v" using 2 bnd cl(4) unfolding i64_def by linarith+
    moreover have "high cl - (guess cl + 1) < 2 ^ (m - 1)" "0 < m"
      using 2 bnd cl(4) m mp by linarith+
    ultimately have "narrow cl = Inr (False, cl\<lparr>low := guess cl + 1, high := high cl\<rparr>)"
      using i by (simp add: narrow_def to_i64_def)
    then show ?thesis using 2 g bnd \<open>0 < m\<close> \<open>high cl - (guess cl + 1) < 2 ^ (m - 1)\<close> by blast
  next
    case 3
    then have "\<not> nLess cl < kth cl" using cmp cl by simp
    moreover have g: "i64 (guess cl - 1)" "v \<le> guess cl - 1" using 3 bnd cl(4) unfolding i64_def by linarith+
    moreover have "guess cl - 1 - low cl < 2 ^ (m - 1)" "0 < m"
      using 3 bnd cl(4) m mp by linarith+
    ultimately have "narrow cl = Inr (False, cl\<lparr>low := low cl, high := guess cl - 1\<rparr>)"
      by (simp add: narrow_def to_i64_def)
    then show ?thesis using 3 g bnd \<open>0 < m\<close> \<open>guess cl - 1 - low cl < 2 ^ (m - 1)\<close> by blast
  qed
  then show ?thesis unfolding v_def .
qed

section \<open>Invariant\<close>

definition all_numbers :: "('c \<Rightarrow> kserver) \<Rightarrow> 'c list \<Rightarrow> int list" where
  "all_numbers srv cs = concat (map (\<lambda>c. concat (ks_numbers (srv c))) cs)"

text \<open>
  The servers tell the truth about their numbers, which span less than \<open>2^63\<close>; and the iteration order
  of a hash set visits every element once.
\<close>

definition world :: "('c \<Rightarrow> kserver) \<Rightarrow> 'c list \<Rightarrow> ('c set \<Rightarrow> 'c list) \<Rightarrow> bool" where
  "world srv ps order \<longleftrightarrow>
     ps \<noteq> [] \<and> distinct ps \<and> (\<forall>c\<in>set ps. server_ok (srv c)) \<and>
     int (length (all_numbers srv ps)) + 1 < 2 ^ 63 \<and> (\<forall>x\<in>set (all_numbers srv ps). i64 x) \<and>
     Max (set (all_numbers srv ps)) - Min (set (all_numbers srv ps)) < 2 ^ 63 \<and>
     (\<forall>S. finite S \<longrightarrow> set (order S) = S \<and> distinct (order S))"

lemma all_numbers_snoc [simp]: "all_numbers srv (cs @ [c]) = all_numbers srv cs @ concat (ks_numbers (srv c))"
  "all_numbers srv [] = []"
  by (simp_all add: all_numbers_def)

lemma mset_concat_map: "mset (concat (map f cs)) = (\<Sum>c\<in>#mset cs. mset (f c))"
  by (induction cs) simp_all

lemma all_numbers_mset: "mset cs = mset ds \<Longrightarrow> mset (all_numbers srv cs) = mset (all_numbers srv ds)"
  by (simp only: all_numbers_def mset_concat_map)

lemma all_numbers_sub:
  assumes "distinct cs" "set cs \<subseteq> set ps" "distinct ps"
  shows "length (all_numbers srv cs) \<le> length (all_numbers srv ps)" "set (all_numbers srv cs) \<subseteq> set (all_numbers srv ps)"
proof -
  have l: "length (all_numbers srv cs) = (\<Sum>c\<in>set cs. length (concat (ks_numbers (srv c))))" if "distinct cs" for cs
    using that by (induction cs) (simp_all add: all_numbers_def)
  show "length (all_numbers srv cs) \<le> length (all_numbers srv ps)"
    unfolding l[OF assms(1)] l[OF assms(3)] by (rule sum_mono2) (use assms(2) in simp_all)
  show "set (all_numbers srv cs) \<subseteq> set (all_numbers srv ps)" using assms(2) by (auto simp: all_numbers_def)
qed

definition told_inv :: "('c \<Rightarrow> kserver) \<Rightarrow> 'c list \<Rightarrow> 'c ksys \<Rightarrow> bool" where
  "told_inv srv ps s \<longleftrightarrow>
     (let cl = kcl s; xs = all_numbers srv (heard s) in
      kc_clients cl = length ps \<and> distinct (heard s @ told s) \<and> set (heard s @ told s) \<subseteq> set ps \<and>
      kc_conns cl = set (heard s @ told s) \<and> nServerState cl = length (heard s) \<and>
      kc_sum cl = sum_list xs \<and> totalCount cl = int (length xs) \<and>
      kc_min cl = Min (insert (2 ^ 63 - 1) (set xs)) \<and> kc_max cl = Max (insert (- (2 ^ 63)) (set xs)))"

definition gathering :: "'c list \<Rightarrow> int \<Rightarrow> 'c ksys \<Rightarrow> bool" where
  "gathering ps k s \<longleftrightarrow>
     length (heard s) < length ps \<and> asked s = [] \<and> replied s = [] \<and> found s = None \<and> kth (kcl s) = k \<and>
     nLess (kcl s) = 0 \<and> nEqual (kcl s) = 0 \<and> nAnswered (kcl s) = 0 \<and> nIteration (kcl s) = 0 \<and>
     turns s = 2 * length (heard s) + length (told s)"

definition searching :: "('c \<Rightarrow> kserver) \<Rightarrow> 'c list \<Rightarrow> int \<Rightarrow> 'c ksys \<Rightarrow> bool" where
  "searching srv ps k s \<longleftrightarrow>
     (let cl = kcl s; xs = all_numbers srv ps; v = kth_smallest k xs in
      length (heard s) = length ps \<and> found s = None \<and> kth cl = int (kth_of k (length xs)) \<and>
      low cl \<le> v \<and> v \<le> high cl \<and> i64 (low cl) \<and> i64 (high cl) \<and> guess cl = low cl + (high cl - low cl) div 2 \<and>
      nIteration cl \<le> 63 \<and> high cl - low cl < 2 ^ (63 - nIteration cl) \<and>
      distinct (replied s @ map fst (asked s)) \<and> set (replied s @ map fst (asked s)) = set ps \<and>
      (\<forall>(c, g)\<in>set (asked s). g = guess cl) \<and> asked s \<noteq> [] \<and> nAnswered cl = length (replied s) \<and>
      nLess cl = int (less_in (guess cl) (all_numbers srv (replied s))) \<and>
      nEqual cl = int (equal_in (guess cl) (all_numbers srv (replied s))) \<and>
      turns s = (2 + nIteration cl) * length ps + length (replied s))"

definition finished :: "('c \<Rightarrow> kserver) \<Rightarrow> 'c list \<Rightarrow> int \<Rightarrow> 'c ksys \<Rightarrow> bool" where
  "finished srv ps k s \<longleftrightarrow>
     length (heard s) = length ps \<and> asked s = [] \<and> found s = Some (kth_smallest k (all_numbers srv ps)) \<and>
     turns s \<le> 66 * length ps"

definition ksys_inv :: "('c \<Rightarrow> kserver) \<Rightarrow> 'c list \<Rightarrow> int \<Rightarrow> 'c ksys \<Rightarrow> bool" where
  "ksys_inv srv ps k s \<longleftrightarrow> told_inv srv ps s \<and> (gathering ps k s \<or> searching srv ps k s \<or> finished srv ps k s)"

text \<open>When every server has been heard, the client's statistics are those of all numbers.\<close>

lemma heard_all:
  assumes "told_inv srv ps s" "distinct ps" "length (heard s) = length ps"
  shows "mset (heard s) = mset ps" and "told s = []" and "kc_conns (kcl s) = set ps"
proof -
  have d: "distinct (heard s)" "set (heard s) \<subseteq> set ps" "distinct (heard s @ told s)"
    "set (heard s @ told s) \<subseteq> set ps" "kc_conns (kcl s) = set (heard s @ told s)"
    using assms(1) by (auto simp: told_inv_def Let_def)
  have "card (set (heard s)) = card (set ps)" using d(1) assms(2,3) by (simp add: distinct_card)
  then have eq: "set (heard s) = set ps" using d(2) card_subset_eq[of "set ps" "set (heard s)"] by simp
  then show "mset (heard s) = mset ps" using d(1) assms(2) by (simp add: set_eq_iff_mset_eq_distinct[symmetric])
  show t: "told s = []" using d eq by (cases "told s") auto
  show "kc_conns (kcl s) = set ps" using d(5) t eq by simp
qed

lemma Up_inv:
  assumes "world srv ps order" "ksys_inv srv ps k s" "ksys_legal ps (K_Up c) s"
  shows "\<exists>s'. ksys_step srv order (K_Up c) s = Inr s' \<and> ksys_inv srv ps k s' \<and> turns s' = turns s + 1"
proof -
  have c: "c \<in> set ps" "c \<notin> kc_conns (kcl s)" and ps: "distinct ps" and t: "told_inv srv ps s"
    using assms by (auto simp: world_def ksys_inv_def)
  then have "length (heard s) \<noteq> length ps" using heard_all(3)[OF t ps] by auto
  then have g: "gathering ps k s"
    using assms(2) by (auto simp: ksys_inv_def searching_def finished_def Let_def)
  let ?s = "s\<lparr>kcl := fst (kc_onConnection order c True (kcl s)), told := told s @ [c], turns := turns s + 1\<rparr>"
  have "told_inv srv ps ?s" using t c by (simp add: told_inv_def Let_def kc_onConnection_def) (auto)?
  moreover have "gathering ps k ?s" using g by (simp add: gathering_def kc_onConnection_def)
  ultimately show ?thesis by (simp add: ksys_inv_def)
qed

section \<open>A server's state arrives\<close>

lemma remove_nth_mset: "i < length xs \<Longrightarrow> mset xs = add_mset (xs ! i) (mset (remove_nth i xs))"
  using arg_cong[OF id_take_nth_drop[of i xs], of mset] by (simp add: remove_nth_def)

lemma remove_nth_set: "i < length xs \<Longrightarrow> set xs = insert (xs ! i) (set (remove_nth i xs))"
  using remove_nth_mset[of i xs] by (metis set_mset_add_mset_insert set_mset_mset)

lemma length_remove_nth: "i < length xs \<Longrightarrow> length xs = Suc (length (remove_nth i xs))"
  using remove_nth_mset[of i xs] by (metis size_add_mset size_mset)

lemma sum_list_abs_bound:
  "\<forall>x\<in>set xs. i64 x \<Longrightarrow> \<bar>sum_list xs\<bar> \<le> int (length xs) * 2 ^ 63"
proof (induction xs)
  case (Cons x xs)
  then have "\<bar>x\<bar> \<le> 2 ^ 63" by (auto simp: i64_def)
  then show ?case using Cons by (auto simp: algebra_simps)
qed simp

lemma choose_kth_ok:
  assumes "0 < n" "int n + 1 < 2 ^ 63"
  shows "choose_kth k (int n) = Inr (int (kth_of k n))"
proof -
  have "i64 (int n + 1)" using assms by (simp add: i64_def)
  moreover have "(int n + 1) sdiv 2 = int ((n + 1) div 2)"
    by (simp add: signed_divide_int_def zdiv_int)
  ultimately show ?thesis by (auto simp: choose_kth_def to_i64_def kth_of_def min_def)
qed

definition hear :: "kserver \<Rightarrow> 'c kclient \<Rightarrow> 'c kclient" where
  "hear v cl = cl\<lparr>kc_sum := kc_sum cl + ks_sum v, totalCount := totalCount cl + ks_count v,
     kc_min := min (kc_min cl) (ks_min v), kc_max := max (kc_max cl) (ks_max v), nServerState := nServerState cl + 1\<rparr>"

lemma hear_inv:
  assumes w: "world srv ps order" and t: "told_inv srv ps s" and i: "i < length (told s)"
  defines "c \<equiv> told s ! i"
  defines "s1 \<equiv> s\<lparr>kcl := hear (srv c) (kcl s), told := remove_nth i (told s), heard := heard s @ [c]\<rparr>"
  shows "told_inv srv ps s1" and "i128 (kc_sum (kcl s) + ks_sum (srv c)) = Inr (kc_sum (kcl s1))"
    and "to_i64 (totalCount (kcl s) + ks_count (srv c)) = Inr (totalCount (kcl s1))"
proof -
  define xs where "xs = all_numbers srv (heard s)"
  define ns where "ns = concat (ks_numbers (srv c))"
  note ti = t[unfolded told_inv_def Let_def, folded xs_def]
  have m: "mset (heard s @ told s) = mset ((heard s @ [c]) @ remove_nth i (told s))"
    using remove_nth_mset[OF i] by (simp add: c_def)
  have d: "distinct ((heard s @ [c]) @ remove_nth i (told s))"
    using ti m by (metis mset_eq_imp_distinct_iff)
  have st: "set ((heard s @ [c]) @ remove_nth i (told s)) = set (heard s @ told s)"
    using m by (metis set_mset_mset)
  have cps: "c \<in> set ps" using ti st by auto
  then have "server_ok (srv c)" using w by (simp add: world_def)
  then have so: "ns \<noteq> []" "ks_sum (srv c) = sum_list ns" "ks_count (srv c) = int (length ns)"
    "ks_min (srv c) = Min (set ns)" "ks_max (srv c) = Max (set ns)"
    unfolding server_ok_def Let_def ns_def by blast+
  have xs1: "all_numbers srv (heard s @ [c]) = xs @ ns" by (simp add: xs_def ns_def)
  have hs: "all_numbers srv (heard s1) = xs @ ns" by (simp add: s1_def xs_def ns_def)
  have "distinct (heard s @ [c])" using d by simp
  moreover have "set (heard s @ [c]) \<subseteq> set ps" using ti st by auto
  ultimately have sub: "length (xs @ ns) \<le> length (all_numbers srv ps)" "set (xs @ ns) \<subseteq> set (all_numbers srv ps)"
    using all_numbers_sub[of "heard s @ [c]" ps srv] w unfolding xs1 world_def by blast+
  have len: "int (length (xs @ ns)) + 1 < 2 ^ 63" using sub(1) w unfolding world_def by linarith
  have "\<forall>x\<in>set (xs @ ns). i64 x" using sub(2) w unfolding world_def by blast
  from sum_list_abs_bound[OF this] have "\<bar>sum_list (xs @ ns)\<bar> \<le> 2 ^ 63 * 2 ^ 63"
    using len by (smt (verit) mult_right_mono zero_le_power)
  then have "- (2 ^ 127) \<le> sum_list (xs @ ns)" "sum_list (xs @ ns) < 2 ^ 127" by (auto simp: abs_le_iff)
  then show "i128 (kc_sum (kcl s) + ks_sum (srv c)) = Inr (kc_sum (kcl s1))"
    using ti so by (simp add: i128_def s1_def hear_def)
  show "to_i64 (totalCount (kcl s) + ks_count (srv c)) = Inr (totalCount (kcl s1))"
    using ti so len by (simp add: to_i64_def i64_def s1_def hear_def)
  have mn: "min (Min (insert (2 ^ 63 - 1) (set xs))) (Min (set ns)) = Min (insert (2 ^ 63 - 1) (set (xs @ ns)))"
    using so(1) by (subst Min_Un[symmetric]) simp_all
  have mx: "max (Max (insert (- (2 ^ 63)) (set xs))) (Max (set ns)) = Max (insert (- (2 ^ 63)) (set (xs @ ns)))"
    using so(1) by (subst Max_Un[symmetric]) simp_all
  show "told_inv srv ps s1"
    unfolding told_inv_def Let_def hs using ti so d st mn mx by (simp add: s1_def hear_def)
qed

lemma queries_ask_all: "queries (ask_all order cl) = map (\<lambda>c. (c, guess cl)) (order (kc_conns cl))"
proof -
  have "queries (map (\<lambda>c. KQuery c g) cs) = map (\<lambda>c. (c, g)) cs" for g and cs :: "'a list"
    by (induction cs) simp_all
  then show ?thesis by (simp add: ask_all_def)
qed

lemma announced_ask_all: "announced (ask_all order cl) = None"
proof -
  have "announced (map (\<lambda>c. KQuery c g) cs) = None" for g and cs :: "'a list"
    by (induction cs) simp_all
  then show ?thesis by (simp add: ask_all_def)
qed

text \<open>The extremes of all numbers, and where the wanted element is.\<close>

lemma world_range:
  assumes "world srv ps order"
  defines "xs \<equiv> all_numbers srv ps"
  shows "xs \<noteq> []" and "Min (insert (2 ^ 63 - 1) (set xs)) = Min (set xs)" and "Max (insert (- (2 ^ 63)) (set xs)) = Max (set xs)"
    and "i64 (Min (set xs))" and "i64 (Max (set xs))" and "Min (set xs) \<le> kth_smallest k xs" and "kth_smallest k xs \<le> Max (set xs)"
proof -
  have ps: "ps \<noteq> []" "\<forall>c\<in>set ps. server_ok (srv c)" and r: "\<forall>x\<in>set xs. i64 x"
    using assms(1) by (auto simp: world_def xs_def)
  have "server_ok (srv (hd ps))" using ps by simp
  then have "concat (ks_numbers (srv (hd ps))) \<noteq> []" unfolding server_ok_def Let_def by blast
  moreover have "set (concat (ks_numbers (srv (hd ps)))) \<subseteq> set xs"
    unfolding xs_def all_numbers_def using hd_in_set[OF ps(1)] by auto
  ultimately show ne: "xs \<noteq> []" by (metis subset_empty set_empty)
  have mem: "Min (set xs) \<in> set xs" "Max (set xs) \<in> set xs" using ne by simp_all
  then show i: "i64 (Min (set xs))" "i64 (Max (set xs))" using r by blast+
  have "Min (insert (2 ^ 63 - 1) (set xs)) = min (2 ^ 63 - 1) (Min (set xs))"
    "Max (insert (- (2 ^ 63)) (set xs)) = max (- (2 ^ 63)) (Max (set xs))"
    using ne by (intro Min_insert Max_insert; simp)+
  moreover have "Min (set xs) \<le> 2 ^ 63 - 1" "- (2 ^ 63) \<le> Max (set xs)" using i unfolding i64_def by linarith+
  ultimately show "Min (insert (2 ^ 63 - 1) (set xs)) = Min (set xs)" "Max (insert (- (2 ^ 63)) (set xs)) = Max (set xs)"
    by (simp_all only: min_absorb2 max_absorb2)
  have "kth_of k (length xs) - 1 < length (sort xs)" using kth_of_range[of "length xs" k] ne by auto
  then have "kth_smallest k xs \<in> set (sort xs)" unfolding kth_smallest_def by (rule nth_mem)
  then show "Min (set xs) \<le> kth_smallest k xs" "kth_smallest k xs \<le> Max (set xs)" by simp_all
qed

lemma Told_inv:
  assumes w: "world srv ps order" and inv: "ksys_inv srv ps k s" and i: "i < length (told s)"
  shows "\<exists>s'. ksys_step srv order (K_Told i) s = Inr s' \<and> ksys_inv srv ps k s' \<and> turns s' = turns s + 1"
proof -
  let ?c = "told s ! i" and ?N = "length ps"
  have ps: "distinct ps" and t: "told_inv srv ps s" using w inv by (auto simp: world_def ksys_inv_def)
  have "length (heard s) \<noteq> ?N" using heard_all(2)[OF t ps] i by auto
  then have g: "gathering ps k s" using inv by (auto simp: ksys_inv_def searching_def finished_def Let_def)
  define s1 where "s1 = s\<lparr>kcl := hear (srv ?c) (kcl s), told := remove_nth i (told s), heard := heard s @ [?c]\<rparr>"
  note h = hear_inv[OF w t i, folded s1_def]
  have k1: "kcl s1 = hear (srv ?c) (kcl s)" by (simp add: s1_def)
  have ns: "nServerState (kcl s1) = length (heard s) + 1" "kc_clients (kcl s1) = ?N"
    using h(1) by (simp_all add: told_inv_def Let_def s1_def)
  have lt: "length (told s) = Suc (length (remove_nth i (told s)))" by (rule length_remove_nth[OF i])
  show ?thesis
  proof (cases "length (heard s) + 1 = ?N")
    case False
    then have na: "\<not> allToldState (kcl s1)" using ns by (simp add: allToldState_def)
    have "onServerState order (ks_sum (srv ?c)) (ks_count (srv ?c)) (ks_min (srv ?c)) (ks_max (srv ?c)) (kcl s) = Inr (kcl s1, [])"
      using h(2,3) na by (simp add: onServerState_def Let_def k1 hear_def)
    moreover have "gathering ps k (s1\<lparr>turns := turns s + 1\<rparr>)"
      using g False lt by (simp add: gathering_def s1_def hear_def)
    moreover have "told_inv srv ps (s1\<lparr>turns := turns s + 1\<rparr>)" using h(1) by (simp add: told_inv_def)
    ultimately show ?thesis by (simp add: Let_def ksys_inv_def s1_def)
  next
    case True
    let ?xs = "all_numbers srv ps"
    note wr = world_range[OF w] and v = world_range(6,7)[OF w, of k]
    have lh: "length (heard s1) = ?N" using True by (simp add: s1_def)
    note ha = heard_all[OF h(1) ps lh]
    have m: "mset (all_numbers srv (heard s1)) = mset ?xs" by (rule all_numbers_mset[OF ha(1)])
    have st: "set (all_numbers srv (heard s1)) = set ?xs" "length (all_numbers srv (heard s1)) = length ?xs"
      using mset_eq_setD[OF m] mset_eq_length[OF m] by simp_all
    have mm: "kc_min (kcl s1) = Min (set ?xs)" "kc_max (kcl s1) = Max (set ?xs)" "totalCount (kcl s1) = int (length ?xs)"
      using h(1) wr(2,3) st by (simp_all add: told_inv_def Let_def)
    have sp: "Max (set ?xs) - Min (set ?xs) < 2 ^ 63" "int (length ?xs) + 1 < 2 ^ 63" using w by (simp_all add: world_def)
    have le: "Min (set ?xs) \<le> Max (set ?xs)" using v by linarith
    let ?g = "Min (set ?xs) + (Max (set ?xs) - Min (set ?xs)) div 2"
    have fg: "first_guess (kc_min (kcl s1)) (kc_max (kcl s1)) = Inr ?g"
      unfolding mm by (rule first_guess_ok[OF wr(4,5) le sp(1)])
    have ck: "choose_kth (kth (kcl s1)) (totalCount (kcl s1)) = Inr (int (kth_of k (length ?xs)))"
      using choose_kth_ok[of "length ?xs" k] wr(1) sp(2) g unfolding mm by (simp add: k1 hear_def gathering_def)
    let ?cl = "(kcl s1)\<lparr>low := Min (set ?xs), high := Max (set ?xs), guess := ?g, kth := int (kth_of k (length ?xs))\<rparr>"
    have all: "allToldState (kcl s1)" using ns True by (simp add: allToldState_def)
    have nz: "totalCount (kcl s1) \<noteq> 0" using mm(3) wr(1) by simp
    have on: "onServerState order (ks_sum (srv ?c)) (ks_count (srv ?c)) (ks_min (srv ?c)) (ks_max (srv ?c)) (kcl s)
        = Inr (?cl, ask_all order ?cl)"
      using h(2,3) all fg ck nz mm by (simp add: onServerState_def Let_def k1 hear_def)
    let ?s = "s1\<lparr>kcl := ?cl, asked := map (\<lambda>c. (c, ?g)) (order (set ps)), turns := turns s + 1\<rparr>"
    have or: "set (order (set ps)) = set ps" "distinct (order (set ps))" using w by (simp_all add: world_def)
    moreover have rt: "remove_nth i (told s) = []" using ha(2) by (simp add: s1_def)
    moreover have "set ps \<noteq> {}" using w by (simp add: world_def)
    ultimately have ne: "order (set ps) \<noteq> []" by (metis set_empty)
    then have "searching srv ps k ?s"
      using g lh wr(4,5) v sp or ne lt rt True unfolding searching_def Let_def
      by (simp add: gathering_def s1_def hear_def o_def)
    moreover have "told_inv srv ps ?s" using h(1) by (simp add: told_inv_def Let_def)
    moreover have qs: "queries (ask_all order ?cl) = map (\<lambda>c. (c, ?g)) (order (set ps))"
      using ha(3) by (simp add: queries_ask_all)
    have "ksys_step srv order (K_Told i) s = Inr ?s"
      using on qs g unfolding s1_def by (simp add: Let_def gathering_def)
    moreover have "turns ?s = turns s + 1" by simp
    ultimately show ?thesis unfolding ksys_inv_def by blast
  qed
qed

section \<open>An answer arrives\<close>

lemma Reply_inv:
  assumes w: "world srv ps order" and inv: "ksys_inv srv ps k s" and i: "i < length (asked s)"
  shows "\<exists>s'. ksys_step srv order (K_Reply i) s = Inr s' \<and> ksys_inv srv ps k s' \<and> turns s' = turns s + 1"
proof -
  let ?cl = "kcl s" let ?N = "length ps"
  define xs where "xs = all_numbers srv ps"
  have ps: "distinct ps" "ps \<noteq> []" and t: "told_inv srv ps s" and len: "int (length xs) + 1 < 2 ^ 63"
    using w inv by (auto simp: world_def ksys_inv_def xs_def)
  have "searching srv ps k s" using inv i by (auto simp: ksys_inv_def gathering_def finished_def)
  note se = this[unfolded searching_def Let_def, folded xs_def]
  obtain c where c: "asked s ! i = (c, guess ?cl)" using se nth_mem[OF i] by fastforce
  define ns where "ns = concat (ks_numbers (srv c))"
  let ?rest = "remove_nth i (asked s)" and ?rep = "replied s @ [c]"
  have mf: "mset (map fst (asked s)) = add_mset c (mset (map fst ?rest))"
    using arg_cong[OF remove_nth_mset[OF i], of "image_mset fst"] c by simp
  then have m: "mset (replied s @ map fst (asked s)) = mset (?rep @ map fst ?rest)" by simp
  have d: "distinct (?rep @ map fst ?rest)" using se m by (metis mset_eq_imp_distinct_iff)
  have st: "set (?rep @ map fst ?rest) = set ps" using se m by (metis set_mset_mset)
  have "length (?rep @ map fst ?rest) = ?N" using d st ps(1) by (metis distinct_card)
  then have lr: "length (replied s) + 1 + length ?rest = ?N" by simp
  have rs: "all_numbers srv ?rep = all_numbers srv (replied s) @ ns" by (simp add: ns_def)
  have "distinct ?rep" "set ?rep \<subseteq> set ps" using d st by auto
  then have sub: "length (all_numbers srv ?rep) \<le> length xs"
    unfolding xs_def using all_numbers_sub(1) ps(1) by blast
  have cnt: "less_in g ys \<le> length ys" "equal_in g ys \<le> length ys" for g ys
    by (simp_all add: less_in_def equal_in_def)
  define L where "L = less_in (guess ?cl) (all_numbers srv ?rep)"
  define E where "E = equal_in (guess ?cl) (all_numbers srv ?rep)"
  have le: "int L < 2 ^ 63" "int E < 2 ^ 63"
    using cnt[of "guess ?cl" "all_numbers srv ?rep"] sub len unfolding L_def E_def by linarith+
  have nl: "nLess ?cl + int (less_in (guess ?cl) ns) = int L" "nEqual ?cl + int (equal_in (guess ?cl) ns) = int E"
    unfolding L_def E_def rs using se by simp_all
  then have ok: "to_i64 (nLess ?cl + int (less_in (guess ?cl) ns)) = Inr (int L)"
    "to_i64 (nEqual ?cl + int (equal_in (guess ?cl) ns)) = Inr (int E)"
    using le by (simp_all add: to_i64_def i64_def)
  define cl1 where "cl1 = ?cl\<lparr>nLess := int L, nEqual := int E, nAnswered := Suc (nAnswered ?cl)\<rparr>"
  have ti: "told_inv srv ps (s\<lparr>kcl := cl', asked := a, replied := r, found := f, turns := n\<rparr>)"
    if "kc_clients cl' = kc_clients ?cl" "kc_conns cl' = kc_conns ?cl" "nServerState cl' = nServerState ?cl"
      "kc_sum cl' = kc_sum ?cl" "totalCount cl' = totalCount ?cl" "kc_min cl' = kc_min ?cl" "kc_max cl' = kc_max ?cl"
    for cl' a r f n
    using t that unfolding told_inv_def Let_def by simp
  have kc: "kc_clients ?cl = ?N" "kc_conns ?cl = set ps"
    using t heard_all(3)[OF t ps(1)] se by (simp_all add: told_inv_def Let_def)
  have na: "nAnswered cl1 = length (replied s) + 1" using se by (simp add: cl1_def)
  show ?thesis
  proof (cases "?rest = []")
    case False
    then have "length (replied s) + 1 \<noteq> ?N" using lr by (cases ?rest) auto
    then have "\<not> allAnswered cl1" using na kc by (simp add: allAnswered_def cl1_def)
    then have on: "onAnswer order c (int (less_in (guess ?cl) ns)) (int (equal_in (guess ?cl) ns)) ?cl = Inr (cl1, [])"
      using ok by (simp add: onAnswer_def Let_def cl1_def)
    let ?s = "s\<lparr>kcl := cl1, asked := ?rest, replied := ?rep, found := None, turns := turns s + 1\<rparr>"
    have "\<forall>(c, g)\<in>set ?rest. g = guess ?cl" using se remove_nth_set[OF i] by auto
    then have "searching srv ps k ?s"
      using se d st False na unfolding searching_def Let_def xs_def[symmetric] by (simp add: cl1_def L_def E_def)
    moreover have "told_inv srv ps ?s" by (rule ti) (simp_all add: cl1_def)
    ultimately show ?thesis
      using on na se by (simp add: c ns_def[symmetric] Let_def ksys_inv_def)
  next
    case True
    then have "length (replied s) + 1 = ?N" using lr by simp
    have all: "allAnswered cl1" using \<open>length (replied s) + 1 = ?N\<close> na kc by (simp add: allAnswered_def cl1_def)
    have "mset ?rep = mset ps"
      using d st True ps(1) by (intro iffD1[OF set_eq_iff_mset_eq_distinct]) simp_all
    from less_in_mset[OF all_numbers_mset[OF this, of srv], of "guess ?cl"]
    have "L = less_in (guess ?cl) xs" "E = equal_in (guess ?cl) xs" by (simp_all add: xs_def L_def E_def)
    then have cc: "nLess cl1 = int (less_in (guess cl1) xs)" "nEqual cl1 = int (equal_in (guess cl1) xs)"
      "kth cl1 = int (kth_of k (length xs))" "guess cl1 = low cl1 + (high cl1 - low cl1) div 2"
      "low cl1 \<le> kth_smallest k xs" "kth_smallest k xs \<le> high cl1" "i64 (low cl1)" "i64 (high cl1)"
      "high cl1 - low cl1 < 2 ^ (63 - nIteration ?cl)"
      using se by (simp_all add: cl1_def)
    have ne: "xs \<noteq> []" using world_range(1)[OF w] by (simp add: xs_def)
    have "int (length xs) < 2 ^ 63" using len by linarith
    note na2 = narrow_ok[OF ne this cc]
    have it: "nIteration cl1 + 1 \<le> 64" using se by (simp add: cl1_def)
    from na2 show ?thesis
    proof (elim disjE exE conjE)
      assume v: "guess cl1 = kth_smallest k xs" and nr: "narrow cl1 = Inr (True, cl1)"
      let ?cl3 = "cl1\<lparr>nIteration := nIteration cl1 + 1\<rparr>"
      have on: "onAnswer order c (int (less_in (guess ?cl) ns)) (int (equal_in (guess ?cl) ns)) ?cl =
          Inr (?cl3, [KFound (guess cl1), KShutdown c])"
        using ok all nr it cc(5,6) by (simp add: onAnswer_def Let_def flip: cl1_def)
      let ?s = "s\<lparr>kcl := ?cl3, asked := [], replied := ?rep, found := Some (guess cl1), turns := turns s + 1\<rparr>"
      have "nIteration ?cl * ?N \<le> 63 * ?N" using se by (intro mult_le_mono1) simp
      moreover have "turns s = 2 * ?N + nIteration ?cl * ?N + length (replied s)"
        using se by (simp add: add_mult_distrib)
      ultimately have "turns s + 1 \<le> 66 * ?N" using \<open>length (replied s) + 1 = ?N\<close> by linarith
      then have "finished srv ps k ?s"
        using se v lr True unfolding finished_def xs_def by simp
      moreover have "told_inv srv ps ?s" by (rule ti) (simp_all add: cl1_def)
      moreover have "nAnswered ?cl3 \<noteq> 0" using na by simp
      ultimately show ?thesis
        using on True by (simp add: c ns_def[symmetric] Let_def ksys_inv_def)
    next
      fix lo hi
      assume v: "guess cl1 \<noteq> kth_smallest k xs" and nr: "narrow cl1 = Inr (False, cl1\<lparr>low := lo, high := hi\<rparr>)"
        and b: "lo \<le> kth_smallest k xs" "kth_smallest k xs \<le> hi" "i64 lo" "i64 hi" "0 < 63 - nIteration ?cl"
          "hi - lo < 2 ^ (63 - nIteration ?cl - 1)"
      have "(2::int) ^ (63 - nIteration ?cl - 1) \<le> 2 ^ 62" by (rule power_increasing) simp_all
      then have sp: "i64 (hi - lo)" "i64 (lo + (hi - lo) sdiv 2)" "(hi - lo) sdiv 2 = (hi - lo) div 2"
        using b unfolding i64_def by (auto simp: signed_divide_int_def sgn_if)
      let ?g = "lo + (hi - lo) div 2"
      let ?cl4 = "cl1\<lparr>low := lo, high := hi, nIteration := nIteration cl1 + 1, nLess := 0, nEqual := 0, nAnswered := 0, guess := ?g\<rparr>"
      have on: "onAnswer order c (int (less_in (guess ?cl) ns)) (int (equal_in (guess ?cl) ns)) ?cl = Inr (?cl4, ask_all order ?cl4)"
        using ok all nr it b(1,2) sp by (simp add: onAnswer_def Let_def to_i64_def flip: cl1_def)
      have qs: "queries (ask_all order ?cl4) = map (\<lambda>c. (c, ?g)) (order (set ps))"
        using kc by (simp add: queries_ask_all cl1_def)
      let ?s = "s\<lparr>kcl := ?cl4, asked := map (\<lambda>c. (c, ?g)) (order (set ps)), replied := [], found := None, turns := turns s + 1\<rparr>"
      have or: "set (order (set ps)) = set ps" "distinct (order (set ps))" using w by (simp_all add: world_def)
      have "set ps \<noteq> {}" using ps by simp
      then have one: "order (set ps) \<noteq> []" using or(1) by (metis set_empty)
      have "turns s + 1 = (2 + (nIteration ?cl + 1)) * ?N"
        using se lr True by (simp add: algebra_simps)
      then have "searching srv ps k ?s"
        using se b or one unfolding searching_def Let_def xs_def[symmetric] by (simp add: cl1_def o_def)
      moreover have "told_inv srv ps ?s" by (rule ti) (simp_all add: cl1_def)
      ultimately show ?thesis
        using on qs True se by (simp add: c ns_def[symmetric] Let_def ksys_inv_def announced_ask_all)
    qed
  qed
qed

section \<open>Properties\<close>

interpretation kth_run: total_steps "ksys_step srv order" "ksys_legal ps"
  "\<lambda>s. world srv ps order \<and> ksys_inv srv ps k s" "\<lambda>s s'. turns s \<le> turns s'" for srv order ps k
proof unfold_locales
  show "\<exists>s'. ksys_step srv order e s = Inr s' \<and> (world srv ps order \<and> ksys_inv srv ps k s') \<and> turns s \<le> turns s'"
    if "world srv ps order \<and> ksys_inv srv ps k s" "ksys_legal ps e s" for e s
  proof (cases e)
    case (K_Up c)
    then show ?thesis using that Up_inv[of srv ps order k s c] by (auto simp del: ksys_step.simps)
  next
    case (K_Told i)
    then show ?thesis using that Told_inv[of srv ps order k s i] by (auto simp del: ksys_step.simps)
  next
    case (K_Reply i)
    then show ?thesis using that Reply_inv[of srv ps order k s i] by (auto simp del: ksys_step.simps)
  qed
qed simp_all

lemma ksys_step_turns: "ksys_step srv order e s = Inr s' \<Longrightarrow> turns s' = turns s + 1"
  by (cases e) (auto simp: bindE_eq_Inr Let_def split: prod.splits)

lemma ksys_run_turns: "foldE (ksys_step srv order) es s = Inr s' \<Longrightarrow> turns s' = turns s + length es"
proof (induction es arbitrary: s)
  case (Cons e es)
  then obtain s1 where "ksys_step srv order e s = Inr s1" "foldE (ksys_step srv order) es s1 = Inr s'"
    by (auto simp: bindE_eq_Inr)
  then show ?case using Cons.IH[of s1] ksys_step_turns[of srv order e s s1] by simp
qed simp

lemma ksys_inv_new: "world srv ps order \<Longrightarrow> ksys_inv srv ps k (ksys_new ps k)"
  by (auto simp: world_def ksys_inv_def told_inv_def gathering_def ksys_new_def kclient_new_def)

lemma ksys_inv_turns: "ksys_inv srv ps k s \<Longrightarrow> turns s \<le> 66 * length ps"
proof -
  assume inv: "ksys_inv srv ps k s"
  then have t: "told_inv srv ps s" by (simp add: ksys_inv_def)
  have "length (heard s @ told s) = card (set (heard s @ told s))"
    using t by (metis distinct_card told_inv_def)
  also have "\<dots> \<le> card (set ps)" using t by (intro card_mono) (simp_all add: told_inv_def Let_def)
  also have "\<dots> \<le> length ps" by (rule card_length)
  finally have h: "length (heard s) + length (told s) \<le> length ps" by simp
  consider "gathering ps k s" | "searching srv ps k s" | "finished srv ps k s" using inv by (auto simp: ksys_inv_def)
  then show ?thesis
  proof cases
    case 1
    then show ?thesis using h by (simp add: gathering_def)
  next
    case 2
    then have s: "nIteration (kcl s) \<le> 63" "turns s = (2 + nIteration (kcl s)) * length ps + length (replied s)"
      "distinct (replied s @ map fst (asked s))" "set (replied s @ map fst (asked s)) = set ps"
      unfolding searching_def Let_def by blast+
    have "length (replied s) \<le> length (replied s @ map fst (asked s))" by simp
    also have "\<dots> = card (set ps)" using s(3,4) by (metis distinct_card)
    also have "\<dots> \<le> length ps" by (rule card_length)
    finally have r: "length (replied s) \<le> length ps" .
    have "nIteration (kcl s) * length ps \<le> 63 * length ps" using s(1) by (intro mult_le_mono1) simp
    moreover have "turns s = 2 * length ps + nIteration (kcl s) * length ps + length (replied s)"
      using s(2) by (simp add: add_mult_distrib)
    ultimately show ?thesis using r by linarith
  next
    case 3
    then show ?thesis by (simp add: finished_def)
  qed
qed

text \<open>Two servers; the median of 1, 2, 5, 7 takes two iterations.\<close>

definition two_servers :: "nat \<Rightarrow> kserver" where
  "two_servers c =
     (if c = 0 then \<lparr>ks_numbers = [[1, 5], [7]], ks_sum = 13, ks_count = 3, ks_min = 1, ks_max = 7, ks_drawn = 3\<rparr>
      else \<lparr>ks_numbers = [[2]], ks_sum = 2, ks_count = 1, ks_min = 2, ks_max = 2, ks_drawn = 1\<rparr>)"

lemma two_servers_world: "world two_servers [0, 1] sorted_list_of_set"
  by (auto simp: world_def two_servers_def server_ok_def all_numbers_def i64_def)

definition kth_events :: "nat kevent list" where
  "kth_events = [K_Up 1, K_Up 0, K_Told 1, K_Told 0, K_Reply 1, K_Reply 0, K_Reply 0, K_Reply 0]"

lemma kth_events_legal:
  "legal_fold (ksys_legal [0, 1]) (ksys_step two_servers sorted_list_of_set) kth_events (ksys_new [0, 1] 0)"
  by code_simp

text \<open>
  C16: The client finds the k-th smallest of all numbers of its servers. Whatever the order in which
  connections come up, states are told and answers arrive, nothing overflows, no assert on the
  interval or on the number of iterations fails, and the element the client announces is the k-th
  smallest, with k cut to the number of elements, or the median if it is not positive.
\<close>

theorem kth_found_right:
  assumes "world srv ps order" and "legal_fold (ksys_legal ps) (ksys_step srv order) es (ksys_new ps k)"
  shows "\<exists>s. foldE (ksys_step srv order) es (ksys_new ps k) = Inr s \<and>
    (found s = None \<or> found s = Some (kth_smallest k (all_numbers srv ps)))"
proof -
  obtain s where "foldE (ksys_step srv order) es (ksys_new ps k) = Inr s" "ksys_inv srv ps k s"
    using kth_run.run_total[of srv ps order k "ksys_new ps k" es] ksys_inv_new[OF assms(1)] assms by blast
  then show ?thesis by (auto simp: ksys_inv_def gathering_def searching_def finished_def Let_def)
qed

theorem kth_found_right_witness:
  "\<exists>s. foldE (ksys_step two_servers sorted_list_of_set) kth_events (ksys_new [0, 1] 0) = Inr s \<and>
     found s = Some (kth_smallest 0 (all_numbers two_servers [0, 1])) \<and> found s = Some 2"
proof -
  have "thenP (foldE (ksys_step two_servers sorted_list_of_set) kth_events (ksys_new [0, 1] 0))
      (\<lambda>s. found s = Some 2)" by code_simp
  then show ?thesis using kth_found_right[OF two_servers_world kth_events_legal] by auto
qed

text \<open>
  C23: The search ends. There are at most 66 events per server (connection, state, and one answer in
  each of at most 64 iterations), and as long as the element has not been announced some server can
  connect or some message is on its way.
\<close>

theorem kth_search_ends:
  assumes "world srv ps order" and "legal_fold (ksys_legal ps) (ksys_step srv order) es (ksys_new ps k)"
    and "foldE (ksys_step srv order) es (ksys_new ps k) = Inr s"
  shows "length es \<le> 66 * length ps \<and> (found s \<noteq> None \<or> (\<exists>e. ksys_legal ps e s))"
proof -
  have inv: "ksys_inv srv ps k s"
    using kth_run.run_total[of srv ps order k "ksys_new ps k" es] ksys_inv_new[OF assms(1)] assms by auto
  have "turns s = length es" using ksys_run_turns[OF assms(3)] by (simp add: ksys_new_def)
  then have "length es \<le> 66 * length ps" using ksys_inv_turns[OF inv] by simp
  moreover have "found s \<noteq> None \<or> (\<exists>e. ksys_legal ps e s)"
  proof (cases "found s")
    case None
    consider "gathering ps k s" | "searching srv ps k s"
      using inv None by (auto simp: ksys_inv_def finished_def)
    then show ?thesis
    proof cases
      case 1
      show ?thesis
      proof (cases "told s")
        case Nil
        have t: "told_inv srv ps s" using inv by (simp add: ksys_inv_def)
        have "card (set (heard s)) < card (set ps)"
          using 1 assms(1) card_length[of "heard s"] by (simp add: gathering_def world_def distinct_card)
        then obtain c where "c \<in> set ps" "c \<notin> set (heard s)" using card_mono[of "set (heard s)" "set ps"] by fastforce
        then have "ksys_legal ps (K_Up c) s" using t Nil by (simp add: told_inv_def Let_def)
        then show ?thesis by blast
      next
        case (Cons c cs)
        then have "ksys_legal ps (K_Told 0) s" by simp
        then show ?thesis by blast
      qed
    next
      case 2
      then have "ksys_legal ps (K_Reply 0) s" by (simp add: searching_def Let_def)
      then show ?thesis by blast
    qed
  qed simp
  ultimately show ?thesis ..
qed

theorem kth_search_ends_witness:
  "\<exists>s e. foldE (ksys_step two_servers sorted_list_of_set) [K_Up 1, K_Told 0] (ksys_new [0, 1] 0) = Inr s \<and>
     found s = None \<and> ksys_legal [0, 1] e s"
proof -
  let ?es = "[K_Up 1, K_Told 0]"
  have l: "legal_fold (ksys_legal [0, 1]) (ksys_step two_servers sorted_list_of_set) ?es (ksys_new [0, 1] 0)"
    by code_simp
  have "\<exists>s. foldE (ksys_step two_servers sorted_list_of_set) ?es (ksys_new [0, 1] 0) = Inr s \<and> found s = None"
    by (simp add: ksys_new_def kclient_new_def two_servers_def kc_onConnection_def onServerState_def i128_def to_i64_def
        i64_def Let_def allToldState_def)
  then obtain s where s: "foldE (ksys_step two_servers sorted_list_of_set) ?es (ksys_new [0, 1] 0) = Inr s" "found s = None"
    by blast
  from kth_search_ends[OF two_servers_world l s(1)] s show ?thesis by auto
qed

end
