(* ===== verification/Ev_Sorter.thy ===== *)
theory Ev_Sorter
  imports Ev_KthCodec "HOL-Library.Multiset"
begin

text \<open>
  \<^verbatim>\<open>example/sort/Sorter.cc\<close>: an external merge sort. The numbers of a text file are read in batches; each is
  sorted and written to a temporary binary file; the files are merged with a heap into the output.
  A file is its contents, the position of its stream and the end-of-file flag; a binary file is seen
  as 64-bit integers (a rest shorter than one is never delivered by \<open>fread\<close>). Errors of the device
  are left out: they end the program.
\<close>

section \<open>Binary files\<close>

record bfile =
  bf_data :: "int list"
  bf_pos :: nat
  bf_eof :: bool

definition bf_empty :: bfile where
  "bf_empty = \<lparr>bf_data = [], bf_pos = 0, bf_eof = False\<rparr>"

text \<open>Writing at a position, over what is there.\<close>

definition put_at :: "nat \<Rightarrow> 'a list \<Rightarrow> 'a list \<Rightarrow> 'a list" where
  "put_at p vec d = take p d @ vec @ drop (p + length vec) d"

text \<open>\<open>vector<int64_t>::max_size()\<close>\<close>

definition max_elems :: nat where
  "max_elems = 2 ^ 60 - 1"

definition bin_rewind :: "bfile \<Rightarrow> bfile" where
  "bin_rewind f = f\<lparr>bf_pos := 0, bf_eof := False\<rparr>"

definition bin_readBatch :: "nat \<Rightarrow> bfile \<Rightarrow> error + (int list \<times> bfile)" where
  "bin_readBatch maxSize f =
     bindE (assertE (\<not> bf_eof f)) (\<lambda>_.
     if max_elems < maxSize then Inl Length_Error
     else
       let vec = take maxSize (drop (bf_pos f) (bf_data f)); n = length vec
       in Inr (vec, f\<lparr>bf_pos := bf_pos f + n, bf_eof := n < maxSize\<rparr>))"

definition bin_readOne :: "bfile \<Rightarrow> error + (int option \<times> bfile)" where
  "bin_readOne f =
     bindE (assertE (\<not> bf_eof f)) (\<lambda>_.
     if bf_pos f < length (bf_data f) then Inr (Some (bf_data f ! bf_pos f), f\<lparr>bf_pos := bf_pos f + 1\<rparr>)
     else Inr (None, f\<lparr>bf_eof := True\<rparr>))"

definition bin_writeBatch :: "int list \<Rightarrow> bfile \<Rightarrow> bfile" where
  "bin_writeBatch vec f = f\<lparr>bf_data := put_at (bf_pos f) vec (bf_data f), bf_pos := bf_pos f + length vec\<rparr>"

definition bin_writeOne :: "int \<Rightarrow> bfile \<Rightarrow> bfile" where
  "bin_writeOne x f = bin_writeBatch [x] f"

text \<open>The offset is computed in \<open>size_t\<close> and passed as a \<open>long\<close>.\<close>

definition bin_at :: "nat \<Rightarrow> bfile \<Rightarrow> error + (int \<times> bfile)" where
  "bin_at index f =
     (let off = (8 * index) mod 2 ^ 64; i = off div 8 in
      if 2 ^ 63 \<le> off \<or> length (bf_data f) \<le> i then Inl Aborted
      else Inr (bf_data f ! i, f\<lparr>bf_pos := i + 1, bf_eof := False\<rparr>))"

section \<open>Text files\<close>

record tfile =
  tf_data :: string
  tf_pos :: nat
  tf_eof :: bool

definition tf_rest :: "tfile \<Rightarrow> string" where
  "tf_rest f = drop (tf_pos f) (tf_data f)"

text \<open>The characters of a line, at most \<open>n\<close>, the newline included.\<close>

fun line_of :: "nat \<Rightarrow> string \<Rightarrow> string" where
  "line_of 0 s = []"
| "line_of n [] = []"
| "line_of (Suc n) (c # s) = (if c = CHR 0x0A then [c] else c # line_of n s)"

text \<open>\<open>fgets_unlocked(buf, 32, file_)\<close>; the end of the file is noticed when the line is cut short by it.\<close>

definition fgets :: "tfile \<Rightarrow> string option \<times> tfile" where
  "fgets f =
     (if tf_rest f = [] then (None, f\<lparr>tf_eof := True\<rparr>)
      else
        let l = line_of 31 (tf_rest f) in
        (Some l, f\<lparr>tf_pos := tf_pos f + length l,
                   tf_eof := (length l < 31 \<and> last l \<noteq> CHR 0x0A)\<rparr>))"

definition toIntOrDie :: "string \<Rightarrow> error + int" where
  "toIntOrDie buf = (case extract_signed 64 buf of Some (x, r) \<Rightarrow> Inr x | None \<Rightarrow> Inl Aborted)"

text \<open>The digits come out of the same table as those of 128-bit integers.\<close>

definition toString64 :: "int \<Rightarrow> string" where
  "toString64 x = rev (to128_loop x @ (if x < 0 then ''-'' else []))"

text \<open>Into a buffer of 32 characters, with the terminating zero and \<open>extra\<close> more characters.\<close>

definition into_buf :: "nat \<Rightarrow> string \<Rightarrow> error + string" where
  "into_buf extra s = (if length s + extra + 1 \<le> 32 then Inr s else Inl Out_Of_Bounds)"

fun txt_read_loop :: "nat \<Rightarrow> tfile \<Rightarrow> error + (int list \<times> tfile)" where
  "txt_read_loop 0 f = Inr ([], f)"
| "txt_read_loop (Suc n) f =
     (case fgets f of
        (None, f1) \<Rightarrow> Inr ([], f1)
      | (Some buf, f1) \<Rightarrow>
          bindE (toIntOrDie buf) (\<lambda>x.
          bindE (txt_read_loop n f1) (\<lambda>(vec, f2). Inr (x # vec, f2))))"

definition txt_readBatch :: "nat \<Rightarrow> tfile \<Rightarrow> error + (int list \<times> tfile)" where
  "txt_readBatch maxSize f = (if max_elems < maxSize then Inl Length_Error else txt_read_loop maxSize f)"

definition txt_readOne :: "tfile \<Rightarrow> error + (int option \<times> tfile)" where
  "txt_readOne f =
     (case fgets f of
        (None, f1) \<Rightarrow> Inr (None, f1)
      | (Some buf, f1) \<Rightarrow> bindE (toIntOrDie buf) (\<lambda>x. Inr (Some x, f1)))"

definition txt_puts :: "string \<Rightarrow> tfile \<Rightarrow> tfile" where
  "txt_puts s f = f\<lparr>tf_data := put_at (tf_pos f) s (tf_data f), tf_pos := tf_pos f + length s\<rparr>"

definition txt_writeBatch :: "int list \<Rightarrow> tfile \<Rightarrow> error + tfile" where
  "txt_writeBatch = foldE (\<lambda>x f. bindE (into_buf 0 (toString64 x)) (\<lambda>buf. Inr (txt_puts buf f)))"

definition txt_writeOne :: "int \<Rightarrow> tfile \<Rightarrow> error + tfile" where
  "txt_writeOne x f = bindE (into_buf 1 (toString64 x)) (\<lambda>buf. Inr (txt_puts (buf @ [CHR 0x0A]) f))"

section \<open>The interface of a file\<close>

datatype afile = Bin bfile | Txt tfile

fun readBatch :: "nat \<Rightarrow> afile \<Rightarrow> error + (int list \<times> afile)" where
  "readBatch n (Bin f) = bindE (bin_readBatch n f) (\<lambda>(vec, f1). Inr (vec, Bin f1))"
| "readBatch n (Txt f) = bindE (txt_readBatch n f) (\<lambda>(vec, f1). Inr (vec, Txt f1))"

fun readOne :: "afile \<Rightarrow> error + (int option \<times> afile)" where
  "readOne (Bin f) = bindE (bin_readOne f) (\<lambda>(x, f1). Inr (x, Bin f1))"
| "readOne (Txt f) = bindE (txt_readOne f) (\<lambda>(x, f1). Inr (x, Txt f1))"

fun writeOne :: "int \<Rightarrow> afile \<Rightarrow> error + afile" where
  "writeOne x (Bin f) = Inr (Bin (bin_writeOne x f))"
| "writeOne x (Txt f) = bindE (txt_writeOne x f) (\<lambda>f1. Inr (Txt f1))"

fun writeBatch :: "int list \<Rightarrow> afile \<Rightarrow> error + afile" where
  "writeBatch vec (Bin f) = Inr (Bin (bin_writeBatch vec f))"
| "writeBatch vec (Txt f) = bindE (txt_writeBatch vec f) (\<lambda>f1. Inr (Txt f1))"

section \<open>The sorter\<close>

record sorter =
  so_name :: string
  so_input :: tfile
  so_output :: afile
  so_blocks :: "bfile list"
  so_sorted :: bool

lemma line_of_length: "s \<noteq> [] \<Longrightarrow> 0 < n \<Longrightarrow> 0 < length (line_of n s)"
  by (cases n; cases s) auto

lemma fgets_shorter:
  assumes "fgets f = (Some l, f1)"
  shows "length (tf_rest f1) < length (tf_rest f)"
proof -
  have ne: "tf_rest f \<noteq> []" and l: "l = line_of 31 (tf_rest f)"
    and f1: "tf_pos f1 = tf_pos f + length l" "tf_data f1 = tf_data f"
    using assms by (auto simp: fgets_def Let_def split: if_splits)
  have "0 < length l" using line_of_length[OF ne, of 31] l by simp
  moreover have "tf_pos f < length (tf_data f)" using ne by (simp add: tf_rest_def)
  ultimately show ?thesis by (simp add: tf_rest_def f1 del: length_greater_0_conv)
qed

lemma fgets_none: "fgets f = (None, f1) \<Longrightarrow> tf_rest f1 = tf_rest f"
  by (auto simp: fgets_def Let_def tf_rest_def split: if_splits)

lemma readBatch_shorter:
  "txt_read_loop n f = Inr (vec, f1) \<Longrightarrow>
     length (tf_rest f1) \<le> length (tf_rest f) \<and> (vec \<noteq> [] \<longrightarrow> length (tf_rest f1) < length (tf_rest f))"
proof (induction n arbitrary: f vec f1)
  case 0
  then show ?case by simp
next
  case (Suc n)
  obtain l f2 where g: "fgets f = (l, f2)" by force
  show ?case
  proof (cases l)
    case None
    then show ?thesis using Suc.prems g fgets_none[of f f2] by simp
  next
    case (Some buf)
    then obtain vec1 where "txt_read_loop n f2 = Inr (vec1, f1)"
      using Suc.prems g by (auto simp: bindE_eq_Inr)
    then show ?thesis using Suc.IH[of f2 vec1 f1] fgets_shorter[of f buf f2] g Some by simp
  qed
qed

text \<open>
  The name of block \<open>i\<close> is printed into 32 characters, so a long name is cut. When the name of the input
  has 31 characters the block opens the input itself for writing, which empties it; the model stops there.
\<close>

definition block_name :: "string \<Rightarrow> nat \<Rightarrow> string" where
  "block_name name i = take 31 (name @ ''-shard-'' @ replicate (4 - length (dec i)) (CHR ''0'') @ dec i)"

text \<open>One block: a new file, the sorted batch, back to the start.\<close>

definition new_block :: "string \<Rightarrow> nat \<Rightarrow> int list \<Rightarrow> error + bfile" where
  "new_block name i vec =
     (if block_name name i = name then Inl Input_Overwritten
      else Inr (bin_rewind (bin_writeBatch (sort vec) bf_empty)))"

function split_loop :: "string \<Rightarrow> nat \<Rightarrow> nat \<Rightarrow> tfile \<Rightarrow> bfile list \<Rightarrow> error + (tfile \<times> bfile list)" where
  "split_loop name i batchSize f blocks =
     bindE (txt_readBatch batchSize f) (\<lambda>(vec, f1).
     if vec = [] then Inr (f1, blocks)
     else
       bindE (new_block name i vec) (\<lambda>block.
       if length vec < batchSize then Inr (f1, blocks @ [block])
       else split_loop name (Suc i) batchSize f1 (blocks @ [block])))"
  by pat_completeness auto
termination
  by (relation "measure (\<lambda>(nm, i, n, f, bs). length (tf_rest f))")
     (auto simp: txt_readBatch_def dest: readBatch_shorter split: if_splits)

declare split_loop.simps [simp del]

definition splitAndSortBlocks :: "nat \<Rightarrow> sorter \<Rightarrow> error + sorter" where
  "splitAndSortBlocks batchSize s =
     bindE (split_loop (so_name s) 0 batchSize (so_input s) (so_blocks s)) (\<lambda>(f, bs).
     Inr (s\<lparr>so_input := f, so_blocks := bs\<rparr>))"

text \<open>The records of the merge.\<close>

record mrec =
  mr_elem :: int
  mr_block :: bfile

definition mr_next :: "mrec \<Rightarrow> error + (bool \<times> mrec)" where
  "mr_next r =
     bindE (bin_readOne (mr_block r)) (\<lambda>(x, b).
     Inr (case x of Some e \<Rightarrow> (True, \<lparr>mr_elem = e, mr_block = b\<rparr>) | None \<Rightarrow> (False, r\<lparr>mr_block := b\<rparr>)))"

definition first_record :: "bfile \<Rightarrow> mrec list \<Rightarrow> error + mrec list" where
  "first_record b rs =
     bindE (bin_readOne b) (\<lambda>(x, b1).
     case x of Some e \<Rightarrow> Inr (rs @ [\<lparr>mr_elem = e, mr_block = b1\<rparr>]) | None \<Rightarrow> Inl Assert_Failed)"

definition first_records :: "bfile list \<Rightarrow> error + mrec list" where
  "first_records bs = foldE first_record bs []"

text \<open>
  \<open>pop_heap\<close> brings a record with the least element to the back; \<open>pick\<close> is the place of that record among
  all (which of several equal ones it is depends on the layout of the heap; a run never sees the same
  records twice, so a function of the records is enough). A record whose block is used up leaves.
\<close>

definition bytes_left :: "mrec list \<Rightarrow> nat" where
  "bytes_left rs = (\<Sum>r\<leftarrow>rs. 1 + (length (bf_data (mr_block r)) - bf_pos (mr_block r)))"

definition drop_rec :: "nat \<Rightarrow> mrec list \<Rightarrow> mrec list" where
  "drop_rec i rs = take i rs @ drop (Suc i) rs"

lemma bytes_left_drop: "i < length rs \<Longrightarrow> bytes_left (drop_rec i rs) < bytes_left rs"
proof -
  assume i: "i < length rs"
  have "rs = take i rs @ rs ! i # drop (Suc i) rs" using i by (rule id_take_nth_drop)
  then have "bytes_left rs = bytes_left (take i rs @ rs ! i # drop (Suc i) rs)" by simp
  then show ?thesis by (simp add: bytes_left_def drop_rec_def)
qed

lemma bytes_left_next:
  assumes "i < length rs" "mr_next (rs ! i) = Inr (True, r)"
  shows "bytes_left (rs[i := r]) < bytes_left rs"
proof -
  have "rs = take i rs @ rs ! i # drop (Suc i) rs" using assms(1) by (rule id_take_nth_drop)
  then have "bytes_left rs = bytes_left (take i rs @ rs ! i # drop (Suc i) rs)" by simp
  moreover have "rs[i := r] = take i rs @ r # drop (Suc i) rs" using assms(1) by (rule upd_conv_take_nth_drop)
  moreover have "length (bf_data (mr_block r)) - bf_pos (mr_block r) <
      length (bf_data (mr_block (rs ! i))) - bf_pos (mr_block (rs ! i))"
    using assms(2) by (auto simp: mr_next_def bin_readOne_def bindE_eq_Inr assertE_def split: if_splits option.splits)
  ultimately show ?thesis by (simp add: bytes_left_def)
qed

function merge_loop :: "(mrec list \<Rightarrow> nat) \<Rightarrow> mrec list \<Rightarrow> afile \<Rightarrow> error + afile" where
  "merge_loop pick rs out =
     (if rs = [] then Inr out
      else
        let i = pick rs in
        if length rs \<le> i then Inl Out_Of_Bounds
        else
          bindE (writeOne (mr_elem (rs ! i)) out) (\<lambda>out1.
          bindE (mr_next (rs ! i)) (\<lambda>(more, r).
          merge_loop pick (if more then rs[i := r] else drop_rec i rs) out1)))"
  by pat_completeness auto
termination
  by (relation "measure (\<lambda>(p, rs, out). bytes_left rs)") (auto simp: bytes_left_drop bytes_left_next)

declare merge_loop.simps [simp del]

definition mergeBlocks :: "(mrec list \<Rightarrow> nat) \<Rightarrow> sorter \<Rightarrow> error + sorter" where
  "mergeBlocks pick s =
     bindE (first_records (so_blocks s)) (\<lambda>rs.
     bindE (merge_loop pick rs (so_output s)) (\<lambda>out. Inr (s\<lparr>so_output := out\<rparr>)))"

definition sorter_new :: "string \<Rightarrow> string \<Rightarrow> afile \<Rightarrow> sorter" where
  "sorter_new name input output =
     \<lparr>so_name = name, so_input = \<lparr>tf_data = input, tf_pos = 0, tf_eof = False\<rparr>, so_output = output, so_blocks = [], so_sorted = False\<rparr>"

definition sorter_sort :: "(mrec list \<Rightarrow> nat) \<Rightarrow> nat \<Rightarrow> sorter \<Rightarrow> error + sorter" where
  "sorter_sort pick batchSize s =
     bindE (assertE (\<not> so_sorted s)) (\<lambda>_.
     bindE (splitAndSortBlocks batchSize s) (\<lambda>s1.
     bindE (mergeBlocks pick s1) (\<lambda>s2. Inr (s2\<lparr>so_sorted := True\<rparr>))))"

text \<open>
  \<open>main\<close>: the output is opened, and so emptied, before the input; \<open>fs\<close> is the file system. The batch size is
  read by \<open>strtoul\<close>, which takes 0 for no number, wraps a negative number and saturates.
\<close>

definition strtoul :: "string \<Rightarrow> nat" where
  "strtoul s =
     (let (neg, r) = take_sign (dropWhile isspace s); v = digits_value (takeWhile isdigit r)
      in if 2 ^ 64 \<le> v then 2 ^ 64 - 1 else if neg then (2 ^ 64 - v) mod 2 ^ 64 else v)"

definition sorter_main ::
  "(string \<Rightarrow> string option) \<Rightarrow> (mrec list \<Rightarrow> nat) \<Rightarrow> string list \<Rightarrow> error + sorter option" where
  "sorter_main fs pick argv =
     (if length argv \<noteq> 4 then Inr None
      else
        case (fs(argv ! 2 \<mapsto> [])) (argv ! 1) of
          None \<Rightarrow> Inl Aborted
        | Some input \<Rightarrow>
            bindE (sorter_sort pick (strtoul (argv ! 3)) (sorter_new (argv ! 1) input (Bin bf_empty)))
              (\<lambda>s. Inr (Some s)))"

section \<open>Numbers as lines of text\<close>

definition numbers_text :: "int list \<Rightarrow> string" where
  "numbers_text xs = concat (map (\<lambda>x. to_string x @ [CHR 0x0A]) xs)"

lemma numbers_text_simps [simp]:
  "numbers_text [] = []"
  "numbers_text (x # xs) = to_string x @ CHR 0x0A # numbers_text xs"
  "numbers_text (xs @ ys) = numbers_text xs @ numbers_text ys"
  by (simp_all add: numbers_text_def)

lemma to_string_length:
  assumes "i64 x"
  shows "length (to_string x) \<le> 20"
proof -
  have "nat \<bar>x\<bar> < 10 ^ 19" using assms by (auto simp: i64_def)
  then have "length (dec (nat \<bar>x\<bar>)) \<le> 19" by (intro dec_length) simp_all
  then show ?thesis by (auto simp: to_string_def)
qed

lemma to_string_no_nl: "CHR 0x0A \<notin> set (to_string x)"
proof
  assume "CHR 0x0A \<in> set (to_string x)"
  from to_string_chars[OF this] show False by (simp add: isdigit_def)
qed

lemma line_of_line: "CHR 0x0A \<notin> set s \<Longrightarrow> length s < n \<Longrightarrow> line_of n (s @ CHR 0x0A # t) = s @ [CHR 0x0A]"
proof (induction s arbitrary: n)
  case Nil
  then show ?case by (cases n) simp_all
next
  case (Cons c s)
  then show ?case by (cases n) auto
qed

lemma fgets_number:
  assumes "tf_rest f = to_string x @ CHR 0x0A # t" and "i64 x"
  shows "\<exists>f1. fgets f = (Some (to_string x @ [CHR 0x0A]), f1) \<and> tf_rest f1 = t"
proof -
  let ?s = "to_string x @ [CHR 0x0A]"
  have "line_of 31 (tf_rest f) = ?s"
    unfolding assms(1) using to_string_length[OF assms(2)] by (intro line_of_line to_string_no_nl) simp
  moreover have "drop (length ?s) (tf_rest f) = t" unfolding assms(1) by simp
  ultimately show ?thesis using assms(1) by (simp add: fgets_def Let_def tf_rest_def add.commute)
qed

lemma toIntOrDie_number: "i64 x \<Longrightarrow> toIntOrDie (to_string x @ [CHR 0x0A]) = Inr x"
  using extract_signed_to_string[of 64 x "[CHR 0x0A]"] by (simp add: toIntOrDie_def i64_def isdigit_def)

lemma read_numbers:
  "tf_rest f = numbers_text xs \<Longrightarrow> \<forall>x\<in>set xs. i64 x \<Longrightarrow>
     \<exists>f1. txt_read_loop n f = Inr (take n xs, f1) \<and> tf_rest f1 = numbers_text (drop n xs)"
proof (induction n arbitrary: f xs)
  case (Suc n)
  show ?case
  proof (cases xs)
    case Nil
    then show ?thesis using Suc.prems(1) by (simp add: fgets_def tf_rest_def)
  next
    case (Cons x ys)
    obtain f1 where f1: "fgets f = (Some (to_string x @ [CHR 0x0A]), f1)" "tf_rest f1 = numbers_text ys"
      using fgets_number[of f x "numbers_text ys"] Suc.prems Cons by auto
    obtain f2 where "txt_read_loop n f1 = Inr (take n ys, f2)" "tf_rest f2 = numbers_text (drop n ys)"
      using Suc.IH[OF f1(2)] Suc.prems(2) Cons by auto
    then show ?thesis using f1(1) Suc.prems(2) Cons by (simp add: toIntOrDie_number)
  qed
qed simp

section \<open>The blocks\<close>

definition block_ok :: "bfile \<Rightarrow> bool" where
  "block_ok b = (bf_data b \<noteq> [] \<and> sorted (bf_data b) \<and> bf_pos b = 0 \<and> \<not> bf_eof b)"

lemma block_name_other: "length name \<noteq> 31 \<Longrightarrow> block_name name i \<noteq> name"
proof
  assume n: "length name \<noteq> 31" and eq: "block_name name i = name"
  have "length (block_name name i) = min 31 (length name + 7 + (4 - length (dec i)) + length (dec i))"
    by (simp add: block_name_def)
  then show False using n eq by simp
qed

lemma block_name_input: "length name = 31 \<Longrightarrow> block_name name i = name"
  by (simp add: block_name_def)

lemma new_block_ok:
  "length name \<noteq> 31 \<Longrightarrow> vec \<noteq> [] \<Longrightarrow>
     \<exists>b. new_block name i vec = Inr b \<and> block_ok b \<and> mset (bf_data b) = mset vec"
  by (simp add: new_block_def block_name_other block_ok_def bin_rewind_def bin_writeBatch_def bf_empty_def
      put_at_def flip: set_empty)

lemma split_blocks:
  assumes "length name \<noteq> 31" and "0 < n" and "n \<le> max_elems"
  shows "tf_rest f = numbers_text xs \<Longrightarrow> \<forall>x\<in>set xs. i64 x \<Longrightarrow>
     \<exists>f1 bs1. split_loop name i n f bs = Inr (f1, bs @ bs1) \<and> (\<forall>b\<in>set bs1. block_ok b) \<and>
       mset (concat (map bf_data bs1)) = mset xs"
proof (induction xs arbitrary: f i bs rule: length_induct)
  case (1 xs)
  obtain f1 where r: "txt_readBatch n f = Inr (take n xs, f1)" and rest: "tf_rest f1 = numbers_text (drop n xs)"
    using read_numbers[OF 1(2,3), of n] assms(3) by (auto simp: txt_readBatch_def)
  show ?case
  proof (cases "xs = []")
    case False
    then have vec: "take n xs \<noteq> []" using assms(2) by simp
    obtain b where b: "new_block name i (take n xs) = Inr b" "block_ok b" "mset (bf_data b) = mset (take n xs)"
      using new_block_ok[OF assms(1) vec] by blast
    show ?thesis
    proof (cases "length xs < n")
      case True
      then show ?thesis using r vec b by (subst split_loop.simps) (auto intro!: exI[of _ "[b]"])
    next
      case ge: False
      have "length (drop n xs) < length xs" using False assms(2) by simp
      moreover have "\<forall>x\<in>set (drop n xs). i64 x" using 1(3) by (meson in_set_dropD)
      ultimately obtain f2 bs2 where i: "split_loop name (Suc i) n f1 (bs @ [b]) = Inr (f2, (bs @ [b]) @ bs2)"
          "\<forall>b\<in>set bs2. block_ok b" "mset (concat (map bf_data bs2)) = mset (drop n xs)"
        using 1(1) rest by blast
      have "split_loop name i n f bs = Inr (f2, bs @ b # bs2)"
        using r vec b(1) ge i(1) by (subst split_loop.simps) simp
      moreover have "mset (concat (map bf_data (b # bs2))) = mset (take n xs @ drop n xs)"
        using b(3) i(3) by (simp only: list.map concat.simps mset_append)
      ultimately show ?thesis using b(2) i(2) by (auto intro!: exI[of _ "b # bs2"])
    qed
  qed (use r in \<open>subst split_loop.simps, simp\<close>)
qed

section \<open>The output\<close>

fun file_holds :: "afile \<Rightarrow> int list \<Rightarrow> bool" where
  "file_holds (Bin f) ys = (bf_data f = ys \<and> bf_pos f = length ys)"
| "file_holds (Txt f) ys = (tf_data f = numbers_text ys \<and> tf_pos f = length (tf_data f))"

lemma toString64_eq: "toString64 x = to_string x"
  by (simp add: toString64_def to128_loop_dec to_string_def)

lemma writeOne_holds:
  assumes "file_holds out ys" and "i64 x"
  shows "\<exists>out1. writeOne x out = Inr out1 \<and> file_holds out1 (ys @ [x])"
  using assms to_string_length[of x]
  by (cases out) (simp_all add: bin_writeOne_def bin_writeBatch_def put_at_def txt_writeOne_def
      into_buf_def toString64_eq txt_puts_def)

section \<open>The merge\<close>

definition pending :: "mrec \<Rightarrow> int list" where
  "pending r = mr_elem r # drop (bf_pos (mr_block r)) (bf_data (mr_block r))"

definition rec_ok :: "mrec \<Rightarrow> bool" where
  "rec_ok r = (sorted (pending r) \<and> \<not> bf_eof (mr_block r) \<and> (\<forall>x\<in>set (pending r). i64 x))"

definition all_pending :: "mrec list \<Rightarrow> int multiset" where
  "all_pending rs = mset (concat (map pending rs))"

lemma all_pending_simps [simp]:
  "all_pending [] = {#}"
  "all_pending (r # rs) = mset (pending r) + all_pending rs"
  "all_pending (rs @ qs) = all_pending rs + all_pending qs"
  by (simp_all add: all_pending_def)

lemma in_all_pending: "x \<in># all_pending rs \<longleftrightarrow> (\<exists>r\<in>set rs. x \<in> set (pending r))"
  by (auto simp: all_pending_def)

lemma mr_next_ok:
  assumes "rec_ok r"
  shows "\<exists>more r1. mr_next r = Inr (more, r1) \<and>
    (if more then rec_ok r1 \<and> pending r = mr_elem r # pending r1 else pending r = [mr_elem r])"
proof (cases "bf_pos (mr_block r) < length (bf_data (mr_block r))")
  case True
  then have "drop (bf_pos (mr_block r)) (bf_data (mr_block r)) =
      bf_data (mr_block r) ! bf_pos (mr_block r) # drop (Suc (bf_pos (mr_block r))) (bf_data (mr_block r))"
    by (simp add: Cons_nth_drop_Suc)
  then show ?thesis using assms True
    by (intro exI[of _ True]) (simp add: rec_ok_def pending_def mr_next_def bin_readOne_def)
next
  case False
  then show ?thesis using assms
    by (intro exI[of _ False]) (simp add: rec_ok_def pending_def mr_next_def bin_readOne_def)
qed

text \<open>What the heap operations promise: the record they bring out is one of the least.\<close>

definition heap_law :: "(mrec list \<Rightarrow> nat) \<Rightarrow> bool" where
  "heap_law pick = (\<forall>rs. rs \<noteq> [] \<longrightarrow>
     pick rs < length rs \<and> (\<forall>r\<in>set rs. mr_elem (rs ! pick rs) \<le> mr_elem r))"

text \<open>One turn of the loop: the least of all that is pending goes out, the rest stays.\<close>

lemma merge_turn:
  assumes "heap_law pick" and "rs \<noteq> []" and ok: "\<forall>r\<in>set rs. rec_ok r"
  obtains x rs1 where "merge_loop pick rs out = bindE (writeOne x out) (merge_loop pick rs1)"
    and "\<forall>r\<in>set rs1. rec_ok r" and "all_pending rs = add_mset x (all_pending rs1)"
    and "\<forall>y\<in>#all_pending rs. x \<le> y" and "i64 x" and "bytes_left rs1 < bytes_left rs"
proof -
  define i where "i = pick rs"
  have i: "i < length rs" and least: "\<forall>r\<in>set rs. mr_elem (rs ! i) \<le> mr_elem r"
    using assms(1,2) by (auto simp: heap_law_def i_def)
  have split: "rs = take i rs @ rs ! i # drop (Suc i) rs" using i by (rule id_take_nth_drop)
  have ri: "rec_ok (rs ! i)" using ok i by simp
  obtain more r where n: "mr_next (rs ! i) = Inr (more, r)"
    and r: "if more then rec_ok r \<and> pending (rs ! i) = mr_elem (rs ! i) # pending r
            else pending (rs ! i) = [mr_elem (rs ! i)]"
    using mr_next_ok[OF ri] by blast
  define rs1 where "rs1 = (if more then rs[i := r] else drop_rec i rs)"
  have loop: "merge_loop pick rs out = bindE (writeOne (mr_elem (rs ! i)) out) (merge_loop pick rs1)"
    using i n assms(2) by (subst merge_loop.simps) (simp add: Let_def rs1_def flip: i_def)
  have upd: "rs[i := r] = take i rs @ r # drop (Suc i) rs" using i by (rule upd_conv_take_nth_drop)
  have "all_pending rs = all_pending (take i rs @ rs ! i # drop (Suc i) rs)" using split by simp
  then have m: "all_pending rs = add_mset (mr_elem (rs ! i)) (all_pending rs1)"
    using r by (cases more) (simp_all add: rs1_def upd drop_rec_def)
  have ok1: "\<forall>q\<in>set rs1. rec_ok q"
    using ok r by (cases more) (auto simp: rs1_def upd drop_rec_def dest: in_set_takeD in_set_dropD)
  have low: "\<forall>y\<in>#all_pending rs. mr_elem (rs ! i) \<le> y"
  proof
    fix y
    assume "y \<in># all_pending rs"
    then obtain q where q: "q \<in> set rs" "y \<in> set (pending q)" by (auto simp: in_all_pending)
    then have "mr_elem q \<le> y" using ok by (auto simp: rec_ok_def pending_def)
    then show "mr_elem (rs ! i) \<le> y" using least q(1) by force
  qed
  have "i64 (mr_elem (rs ! i))" using ri by (simp add: rec_ok_def pending_def)
  moreover have "bytes_left rs1 < bytes_left rs"
    using bytes_left_next[OF i] bytes_left_drop[OF i] n by (cases more) (simp_all add: rs1_def)
  ultimately show thesis using that loop ok1 m low by blast
qed

lemma merge_sorted:
  assumes "heap_law pick"
  shows "\<forall>r\<in>set rs. rec_ok r \<Longrightarrow> file_holds out ys \<Longrightarrow> sorted ys \<Longrightarrow>
     \<forall>x\<in>set ys. \<forall>y\<in>#all_pending rs. x \<le> y \<Longrightarrow>
     \<exists>out1 zs. merge_loop pick rs out = Inr out1 \<and> file_holds out1 zs \<and> sorted zs \<and>
       mset zs = mset ys + all_pending rs"
proof (induction "bytes_left rs" arbitrary: rs out ys rule: less_induct)
  case less
  show ?case
  proof (cases "rs = []")
    case True
    then show ?thesis using less.prems by (auto simp: merge_loop.simps)
  next
    case False
    obtain x rs1 where t: "merge_loop pick rs out = bindE (writeOne x out) (merge_loop pick rs1)"
        "\<forall>r\<in>set rs1. rec_ok r" "all_pending rs = add_mset x (all_pending rs1)"
        "\<forall>y\<in>#all_pending rs. x \<le> y" "i64 x" "bytes_left rs1 < bytes_left rs"
      using merge_turn[OF assms False less.prems(1)] by blast
    obtain out1 where w: "writeOne x out = Inr out1" "file_holds out1 (ys @ [x])"
      using writeOne_holds[OF less.prems(2) t(5)] by blast
    have s: "sorted (ys @ [x])" using less.prems(3,4) t(3) by (simp add: sorted_append)
    have b: "\<forall>u\<in>set (ys @ [x]). \<forall>y\<in>#all_pending rs1. u \<le> y" using less.prems(4) t(3,4) by auto
    show ?thesis using less.hyps[OF t(6,2) w(2) s b] t(1,3) w(1) by auto
  qed
qed

lemma first_record_ok:
  assumes "block_ok b" and "\<forall>x\<in>set (bf_data b). i64 x"
  shows "\<exists>r. first_record b rs = Inr (rs @ [r]) \<and> rec_ok r \<and> mset (pending r) = mset (bf_data b)"
proof -
  obtain x xs where d: "bf_data b = x # xs" using assms(1) by (cases "bf_data b") (auto simp: block_ok_def)
  define r where "r = \<lparr>mr_elem = x, mr_block = b\<lparr>bf_pos := 1\<rparr>\<rparr>"
  have "first_record b rs = Inr (rs @ [r])"
    using assms(1) d by (simp add: block_ok_def first_record_def bin_readOne_def r_def)
  moreover have "rec_ok r" "mset (pending r) = mset (bf_data b)"
    using assms d by (auto simp: r_def rec_ok_def pending_def block_ok_def)
  ultimately show ?thesis by blast
qed

lemma first_records_ok:
  "\<forall>b\<in>set bs. block_ok b \<Longrightarrow> \<forall>b\<in>set bs. \<forall>x\<in>set (bf_data b). i64 x \<Longrightarrow>
     \<exists>rs1. foldE first_record bs rs = Inr (rs @ rs1) \<and>
       (\<forall>r\<in>set rs1. rec_ok r) \<and> all_pending rs1 = mset (concat (map bf_data bs))"
proof (induction bs arbitrary: rs)
  case (Cons b bs)
  obtain r where r: "first_record b rs = Inr (rs @ [r])" "rec_ok r" "mset (pending r) = mset (bf_data b)"
    using first_record_ok[of b rs] Cons.prems by auto
  obtain rs1 where "foldE first_record bs (rs @ [r]) = Inr ((rs @ [r]) @ rs1)" "\<forall>r\<in>set rs1. rec_ok r"
      "all_pending rs1 = mset (concat (map bf_data bs))"
    using Cons.IH[of "rs @ [r]"] Cons.prems by auto
  then show ?case using r by (intro exI[of _ "r # rs1"]) simp
qed simp

section \<open>The sorted file\<close>


fun least_at :: "mrec list \<Rightarrow> nat" where
  "least_at [] = 0"
| "least_at (r # rs) =
     (if rs = [] \<or> mr_elem r \<le> mr_elem (rs ! least_at rs) then 0 else Suc (least_at rs))"

lemma least_at_law: "heap_law least_at"
proof -
  have "rs \<noteq> [] \<longrightarrow> least_at rs < length rs \<and> (\<forall>r\<in>set rs. mr_elem (rs ! least_at rs) \<le> mr_elem r)" for rs
    by (induction rs) force+
  then show ?thesis by (simp add: heap_law_def)
qed


section \<open>Where it goes wrong\<close>

text \<open>With a batch size of 0, which is also what \<open>strtoul\<close> gives for no number, the output is empty.\<close>

lemma batch_zero_loses_everything:
  "sorter_sort pick 0 (sorter_new name input out) =
     Inr ((sorter_new name input out)\<lparr>so_sorted := True\<rparr>)"
  by (simp add: sorter_sort_def sorter_new_def splitAndSortBlocks_def split_loop.simps txt_readBatch_def
      mergeBlocks_def first_records_def merge_loop.simps)

text \<open>\<open>FileOfText::writeBatch\<close> writes no newlines, so the numbers run together.\<close>

lemma writeBatch_joins_numbers:
  "txt_writeBatch [12, 3] \<lparr>tf_data = [], tf_pos = 0, tf_eof = False\<rparr> =
     Inr \<lparr>tf_data = ''123'', tf_pos = 3, tf_eof = False\<rparr>"
  by (simp add: txt_writeBatch_def toString64_eq to_string_def dec.simps digit_def into_buf_def txt_puts_def put_at_def)
    code_simp

text \<open>An input whose name has 31 characters is opened for writing as the first block.\<close>

lemma long_name_clobbers_input:
  assumes "length name = 31" and "0 < n" and "n \<le> max_elems" and "xs \<noteq> []" and "\<forall>x\<in>set xs. i64 x"
  shows "sorter_sort pick n (sorter_new name (numbers_text xs) out) = Inl Input_Overwritten"
proof -
  let ?f = "\<lparr>tf_data = numbers_text xs, tf_pos = 0, tf_eof = False\<rparr>"
  obtain f1 where "txt_readBatch n ?f = Inr (take n xs, f1)"
    using read_numbers[of ?f xs n] assms(3,5) by (auto simp: txt_readBatch_def tf_rest_def)
  then show ?thesis using assms(1,2,4)
    by (simp add: sorter_sort_def sorter_new_def splitAndSortBlocks_def split_loop.simps new_block_def block_name_input)
qed

end
