(* ===== verification/Ev_Server.thy ===== *)
theory Ev_Server
  imports Ev_TcpConnection
begin

text \<open>
  \<^verbatim>\<open>tinyev/Acceptor.h\<close>, \<^verbatim>\<open>tinyev/Acceptor.cc\<close>, \<^verbatim>\<open>tinyev/TcpServerSingle.h\<close> and
  \<^verbatim>\<open>tinyev/TcpServerSingle.cc\<close>: the listening socket and the server of one loop, composed with the
  connections of \<^verbatim>\<open>Ev_TcpConnection\<close>. A connection object is known by its place in \<open>sv_objs\<close>, where it
  stays after the server has let it go, because queued tasks may still hold it; \<open>sv_set\<close> is the set
  \<open>connections_\<close>. \<open>sv_log\<close> is a history variable: the calls of the user's connection callback, with
  what \<open>connected()\<close> was at the call. Outcomes of system calls are arguments.
\<close>

section \<open>The acceptor\<close>

datatype accept_errno = ECONNABORTED | EMFILE | AOTHER nat

datatype accept_result = Accepted int | Accept_Err accept_errno

record acceptor =
  ac_channel :: channel
  ac_ctls :: "ctl list"
  ac_hasNewConn :: bool

text \<open>
  The constructor; \<open>oks\<close> are the outcomes of the two \<open>setsockopt\<close> calls and of \<open>bind\<close>. A failure is fatal.
\<close>

definition acceptor_new :: "int \<Rightarrow> bool list \<Rightarrow> error + acceptor" where
  "acceptor_new acceptFd oks =
     (if acceptFd = -1 \<or> \<not> list_all id oks then Inl Aborted
      else Inr \<lparr>ac_channel = channel_new acceptFd, ac_ctls = [], ac_hasNewConn = False\<rparr>)"

definition setNewConnectionCallback :: "acceptor \<Rightarrow> acceptor" where
  "setNewConnectionCallback a = a\<lparr>ac_hasNewConn := True\<rparr>"

definition acceptor_listen :: "bool \<Rightarrow> bool \<Rightarrow> acceptor \<Rightarrow> error + acceptor" where
  "acceptor_listen inL ok a =
     bindE (assertE inL) (\<lambda>_.
     if \<not> ok then Inl Aborted
     else
       bindE (enableRead inL ((ac_channel a)\<lparr>hasRead := True\<rparr>)) (\<lambda>(ch, k).
       Inr (a\<lparr>ac_channel := ch, ac_ctls := ac_ctls a @ [k]\<rparr>)))"

text \<open>What \<open>handleRead\<close> does with the descriptor, in its last statement.\<close>

datatype delivery = Deliver int | Close_Fd int

definition acceptor_handleRead :: "bool \<Rightarrow> accept_result \<Rightarrow> acceptor \<Rightarrow> error + delivery" where
  "acceptor_handleRead inL res a =
     bindE (assertE inL) (\<lambda>_.
     bindE (case res of
              Accepted f \<Rightarrow> Inr f
            | Accept_Err e \<Rightarrow> if e = ECONNABORTED \<or> e = EMFILE then Inr (- 1) else Inl Aborted)
       (\<lambda>sockfd. Inr (if ac_hasNewConn a then Deliver sockfd else Close_Fd sockfd)))"

section \<open>The server of one loop\<close>

record server =
  sv_acceptor :: acceptor
  sv_objs :: "conn list"
  sv_set :: "nat list"
  sv_hasConnCb :: bool
  sv_hasMsgCb :: bool
  sv_hasWCCb :: bool
  sv_log :: "(nat \<times> bool) list"

definition server_new :: "int \<Rightarrow> bool list \<Rightarrow> error + server" where
  "server_new acceptFd oks =
     bindE (acceptor_new acceptFd oks) (\<lambda>a.
     Inr \<lparr>sv_acceptor = setNewConnectionCallback a, sv_objs = [], sv_set = [], sv_hasConnCb = False,
          sv_hasMsgCb = False, sv_hasWCCb = False, sv_log = []\<rparr>)"

definition server_setCallbacks :: "bool \<Rightarrow> bool \<Rightarrow> bool \<Rightarrow> server \<Rightarrow> server" where
  "server_setCallbacks cn msg wc s = s\<lparr>sv_hasConnCb := cn, sv_hasMsgCb := msg, sv_hasWCCb := wc\<rparr>"

definition server_start :: "bool \<Rightarrow> bool \<Rightarrow> server \<Rightarrow> error + server" where
  "server_start inL ok s =
     bindE (acceptor_listen inL ok (sv_acceptor s)) (\<lambda>a. Inr (s\<lparr>sv_acceptor := a\<rparr>))"

text \<open>\<open>calls\<close> is what the user's connection callback does with the new connection.\<close>

definition server_newConnection :: "bool \<Rightarrow> int \<Rightarrow> api list \<Rightarrow> server \<Rightarrow> error + server" where
  "server_newConnection inL connfd calls s =
     bindE (assertE inL) (\<lambda>_.
     bindE (conn_new connfd) (\<lambda>c0.
     let i = length (sv_objs s);
         s1 = s\<lparr>sv_set := sv_set s @ [i]\<rparr>;
         c1 = (if sv_hasMsgCb s then setMessageCallback c0 else c0);
         c2 = setCloseCallBack (setWriteCompleteCallback (sv_hasWCCb s) c1) in
     bindE (connectEstablished inL c2) (\<lambda>c3.
     bindE (user_cb (sv_hasConnCb s) calls c3) (\<lambda>c4.
     Inr (s1\<lparr>sv_objs := sv_objs s @ [c4], sv_log := sv_log s @ [(i, connected c3)]\<rparr>)))))"

text \<open>
  \<open>closeConnection\<close> runs as the close callback, inside the step of the connection; the user's calls on
  the closed connection are those of that step.
\<close>

definition server_closeConnection :: "bool \<Rightarrow> nat \<Rightarrow> server \<Rightarrow> error + server" where
  "server_closeConnection inL i s =
     bindE (assertE inL) (\<lambda>_.
     let s1 = s\<lparr>sv_set := remove1 i (sv_set s)\<rparr> in
     bindE (assertE (i \<in> set (sv_set s))) (\<lambda>_.
     if sv_hasConnCb s then Inr (s1\<lparr>sv_log := sv_log s @ [(i, connected (sv_objs s ! i))]\<rparr>)
     else Inl Bad_Function_Call))"

section \<open>Steps\<close>

definition upd_acceptor :: "(channel \<Rightarrow> channel) \<Rightarrow> server \<Rightarrow> server" where
  "upd_acceptor f s = s\<lparr>sv_acceptor := (sv_acceptor s)\<lparr>ac_channel := f (ac_channel (sv_acceptor s))\<rparr>\<rparr>"

definition get_acceptor :: "server \<Rightarrow> channel" where
  "get_acceptor s = ac_channel (sv_acceptor s)"

text \<open>The accepting channel has a read callback only.\<close>

fun accept_cb :: "accept_result \<Rightarrow> api list \<Rightarrow> chan_cb \<Rightarrow> server \<Rightarrow> error + server" where
  "accept_cb res calls ReadCb s =
     bindE (acceptor_handleRead True res (sv_acceptor s)) (\<lambda>d.
     case d of Deliver f \<Rightarrow> server_newConnection True f calls s | Close_Fd f \<Rightarrow> Inr s)"
| "accept_cb res calls _ s = Inl Bad_Function_Call"

datatype slabel = SL_Accept evmask accept_result "api list" | SL_Conn nat label

fun server_exec :: "slabel \<Rightarrow> server \<Rightarrow> error + server" where
  "server_exec (SL_Accept revs res calls) s =
     handleEvents get_acceptor upd_acceptor (accept_cb res calls) True True
       (upd_acceptor (setRevents revs) s)"
| "server_exec (SL_Conn i l) s =
     (if i < length (sv_objs s) then
        bindE (exec l (sv_objs s ! i)) (\<lambda>c.
        let s1 = s\<lparr>sv_objs := (sv_objs s)[i := c]\<rparr> in
        if closedCalls (sv_objs s ! i) < closedCalls c then server_closeConnection True i s1 else Inr s1)
      else Inl Use_After_Free)"

text \<open>
  What a step asks of its environment: events come for registered descriptors, \<open>accept4\<close> succeeds, and
  the user's calls on a connection are legal.
\<close>

fun server_legal :: "slabel \<Rightarrow> server \<Rightarrow> bool" where
  "server_legal (SL_Accept revs res calls) s =
     (polling (get_acceptor s) \<and>
      (case res of Accepted f \<Rightarrow> thenP (conn_start f (sv_hasWCCb s)) (legal_calls calls) | Accept_Err e \<Rightarrow> False))"
| "server_legal (SL_Conn i l) s = (i < length (sv_objs s) \<and> legal_label l (sv_objs s ! i))"

section \<open>Invariant\<close>

definition log_of :: "nat \<Rightarrow> (nat \<times> bool) list \<Rightarrow> bool list" where
  "log_of i lg = map snd (filter (\<lambda>e. fst e = i) lg)"

lemma log_of_simps [simp]:
  "log_of i [] = []" "log_of i (lg @ [(j, u)]) = log_of i lg @ (if j = i then [u] else [])"
  by (simp_all add: log_of_def)

definition accepting :: "server \<Rightarrow> bool" where
  "accepting s \<longleftrightarrow> ac_hasNewConn (sv_acceptor s) \<and> registered (ac_ctls (sv_acceptor s)) (get_acceptor s) \<and>
     polling (get_acceptor s) \<and> hasRead (get_acceptor s) \<and> \<not> hasWrite (get_acceptor s) \<and>
     \<not> hasClose (get_acceptor s) \<and> \<not> hasError (get_acceptor s) \<and> \<not> tied (get_acceptor s) \<and>
     sv_hasConnCb s \<and> sv_hasMsgCb s"

definition conn_log :: "conn \<Rightarrow> bool list" where
  "conn_log c = (if disconnected c then [True, False] else [True])"

definition server_inv :: "server \<Rightarrow> bool" where
  "server_inv s \<longleftrightarrow> accepting s \<and> (\<forall>c\<in>set (sv_objs s). run_inv c) \<and> distinct (sv_set s) \<and>
     (\<forall>i. i \<in> set (sv_set s) \<longleftrightarrow> i < length (sv_objs s) \<and> \<not> disconnected (sv_objs s ! i)) \<and>
     (\<forall>i. log_of i (sv_log s) = (if i < length (sv_objs s) then conn_log (sv_objs s ! i) else []))"

definition server_rel :: "server \<Rightarrow> server \<Rightarrow> bool" where
  "server_rel s s' \<longleftrightarrow> length (sv_objs s) \<le> length (sv_objs s') \<and> prefix (sv_log s) (sv_log s')"

lemma upd_acceptor_sel [simp]:
  "get_acceptor (upd_acceptor f s) = f (get_acceptor s)" "sv_objs (upd_acceptor f s) = sv_objs s"
  "sv_set (upd_acceptor f s) = sv_set s" "sv_log (upd_acceptor f s) = sv_log s"
  "sv_hasConnCb (upd_acceptor f s) = sv_hasConnCb s" "sv_hasMsgCb (upd_acceptor f s) = sv_hasMsgCb s"
  "sv_hasWCCb (upd_acceptor f s) = sv_hasWCCb s"
  "ac_hasNewConn (sv_acceptor (upd_acceptor f s)) = ac_hasNewConn (sv_acceptor s)"
  "ac_ctls (sv_acceptor (upd_acceptor f s)) = ac_ctls (sv_acceptor s)"
  by (simp_all add: upd_acceptor_def get_acceptor_def)

lemma accepting_upd:
  "accepting (upd_acceptor (\<lambda>ch. ch\<lparr>handlingEvents := x\<rparr>) s) = accepting s"
  "accepting (upd_acceptor (setRevents r) s) = accepting s"
  by (simp_all add: accepting_def setRevents_def registered_def wanted_def)

lemma server_inv_upd:
  "server_inv (upd_acceptor (\<lambda>ch. ch\<lparr>handlingEvents := x\<rparr>) s) = server_inv s"
  "server_inv (upd_acceptor (setRevents r) s) = server_inv s"
  by (simp_all add: server_inv_def accepting_upd)

lemma newConnection_acceptor:
  "server_newConnection inL f calls s = Inr s' \<Longrightarrow> sv_acceptor s' = sv_acceptor s"
  by (auto simp: server_newConnection_def bindE_eq_Inr Let_def)

lemma accept_cb_acceptor: "accept_cb res calls k s = Inr s' \<Longrightarrow> sv_acceptor s' = sv_acceptor s"
proof (cases k)
  case ReadCb
  moreover assume "accept_cb res calls k s = Inr s'"
  ultimately obtain d where
    "(case d of Deliver f \<Rightarrow> server_newConnection True f calls s | Close_Fd f \<Rightarrow> Inr s) = Inr s'"
    by (auto simp: bindE_eq_Inr)
  then show ?thesis by (cases d) (auto dest: newConnection_acceptor)
qed simp_all

text \<open>The accepting channel is an owner in the sense of \<^verbatim>\<open>Ev_Channel\<close>.\<close>

interpretation acc_owner: channel_owner get_acceptor upd_acceptor "accept_cb res calls" for res calls
proof unfold_locales
  show "get_acceptor (upd_acceptor f s) = f (get_acceptor s)" for f s by simp
  show "dispatch_part (get_acceptor s') = dispatch_part (get_acceptor s)"
    if "accept_cb res calls k s = Inr s'" for k s s'
    using accept_cb_acceptor[OF that] by (simp add: get_acceptor_def)
qed

text \<open>A new connection is the one \<open>conn_start\<close> sets up, followed by the user's calls.\<close>

lemma newConnection_start:
  assumes "sv_hasMsgCb s" and "sv_hasConnCb s" and "conn_start f (sv_hasWCCb s) = Inr c"
  shows "server_newConnection True f calls s = bindE (foldE run_api calls c) (\<lambda>c4.
    Inr (s\<lparr>sv_set := sv_set s @ [length (sv_objs s)], sv_objs := sv_objs s @ [c4],
           sv_log := sv_log s @ [(length (sv_objs s), connected c)]\<rparr>))"
  using assms by (auto simp: conn_start_def server_newConnection_def user_cb_def bindE_eq_Inr Let_def)

lemma newConnection_ok:
  assumes inv: "server_inv s" and leg: "thenP (conn_start f (sv_hasWCCb s)) (legal_calls calls)"
  shows "okE (\<lambda>s'. server_inv s' \<and> server_rel s s' \<and> sv_acceptor s' = sv_acceptor s)
    (server_newConnection True f calls s)"
proof -
  obtain c where c: "conn_start f (sv_hasWCCb s) = Inr c" "conn_inv c" "state c = kConnected"
      "\<not> handlingEvents (chan c)"
    using conn_start_ok by blast
  have "okE (\<lambda>c'. conn_inv c' \<and> evolved c c') (foldE run_api calls c)"
    using c leg by (intro run_calls_ok) simp_all
  moreover have "server_inv s' \<and> server_rel s s' \<and> sv_acceptor s' = sv_acceptor s"
    if c4: "conn_inv c4 \<and> evolved c c4" and
      s': "s' = s\<lparr>sv_set := sv_set s @ [length (sv_objs s)], sv_objs := sv_objs s @ [c4],
           sv_log := sv_log s @ [(length (sv_objs s), connected c)]\<rparr>" for c4 s'
  proof -
    have st: "state c4 \<noteq> kConnecting" "state c4 \<noteq> kDisconnected" "\<not> handlingEvents (chan c4)"
      using c4 c(3,4) by (auto simp: evolved_def same_frame_def)
    then have "run_inv c4" "conn_log c4 = [True]" "\<not> disconnected c4"
      using c4 by (simp_all add: run_inv_def conn_log_def disconnected_def)
    moreover have "connected c" using c(3) by (simp add: connected_def)
    ultimately show ?thesis using inv s'
      by (auto simp: server_inv_def server_rel_def nth_append accepting_def get_acceptor_def less_Suc_eq)
  qed
  ultimately show ?thesis using inv newConnection_start[OF _ _ c(1)]
    by (auto simp: server_inv_def accepting_def elim!: okE_bind)
qed

lemma bindE_Inr_id: "bindE m Inr = m"
  by (cases m) simp_all

lemma foldE_Nil_fun: "foldE f [] = Inr"
  by (rule ext) simp

lemma foldE_single: "foldE f [x] s = f x s"
  by (cases "f x s") simp_all

text \<open>The dispatch of an event of the accepting channel calls \<open>handleRead\<close> or nothing.\<close>

lemma accept_dispatch: "accepting s \<Longrightarrow> dispatch (get_acceptor s) = [] \<or> dispatch (get_acceptor s) = [ReadCb]"
  by (simp add: accepting_def dispatch_def wantsClose_def wantsError_def wantsWrite_def)

lemma accept_ok:
  assumes inv: "server_inv s" and leg: "server_legal (SL_Accept revs res calls) s"
  shows "okE (\<lambda>s'. server_inv s' \<and> server_rel s s') (server_exec (SL_Accept revs res calls) s)"
proof -
  obtain f where f: "res = Accepted f" "thenP (conn_start f (sv_hasWCCb s)) (legal_calls calls)"
    using leg by (auto split: accept_result.splits)
  let ?s0 = "upd_acceptor (setRevents revs) s"
  let ?s1 = "upd_acceptor (\<lambda>ch. ch\<lparr>handlingEvents := True\<rparr>) ?s0"
  have inv1: "server_inv ?s0" "server_inv ?s1" using inv by (simp_all only: server_inv_upd)
  have a0: "accepting ?s0" using inv1(1) by (simp add: server_inv_def)
  have eq: "server_exec (SL_Accept revs res calls) s = bindE (foldE (accept_cb res calls) (dispatch (get_acceptor ?s0)) ?s1)
      (\<lambda>s'. Inr (upd_acceptor (\<lambda>ch. ch\<lparr>handlingEvents := False\<rparr>) s'))"
    using a0 by (simp add: handleEvents_def acc_owner.guard_eq_dispatch accepting_def)
  have "okE (\<lambda>s'. server_inv s' \<and> server_rel s s') (foldE (accept_cb res calls) (dispatch (get_acceptor ?s0)) ?s1)"
    using accept_dispatch[OF a0]
  proof
    assume "dispatch (get_acceptor ?s0) = []"
    then show ?thesis using inv1(2) by (simp add: server_rel_def)
  next
    assume d: "dispatch (get_acceptor ?s0) = [ReadCb]"
    have "ac_hasNewConn (sv_acceptor ?s1)" using inv1(2) by (simp only: server_inv_def accepting_def)
    then have cb: "accept_cb res calls ReadCb ?s1 = server_newConnection True f calls ?s1"
      using f(1) by (simp add: acceptor_handleRead_def)
    have "okE (\<lambda>s'. server_inv s' \<and> server_rel ?s1 s' \<and> sv_acceptor s' = sv_acceptor ?s1)
        (server_newConnection True f calls ?s1)"
      using f(2) by (intro newConnection_ok inv1(2)) simp
    then have "okE (\<lambda>s'. server_inv s' \<and> server_rel s s') (server_newConnection True f calls ?s1)"
      by (rule okE_weaken) (simp add: server_rel_def)
    then show ?thesis unfolding d foldE_single cb .
  qed
  then show ?thesis unfolding eq
    by (rule okE_bind) (simp add: server_inv_upd, simp add: server_rel_def)
qed

text \<open>A step of one connection: the server forgets it exactly when it goes down.\<close>

lemma conn_step_ok:
  assumes inv: "server_inv s" and leg: "server_legal (SL_Conn i l) s"
  shows "okE (\<lambda>s'. server_inv s' \<and> server_rel s s') (server_exec (SL_Conn i l) s)"
proof -
  define c where "c = sv_objs s ! i"
  have i: "i < length (sv_objs s)" and l: "legal_label l c" using leg by (simp_all add: c_def)
  have r: "run_inv c" using inv i by (simp add: server_inv_def c_def)
  have post: "okE (\<lambda>s'. server_inv s' \<and> server_rel s s')
      (if closedCalls c < closedCalls c1 then server_closeConnection True i (s\<lparr>sv_objs := (sv_objs s)[i := c1]\<rparr>)
       else Inr (s\<lparr>sv_objs := (sv_objs s)[i := c1]\<rparr>))"
    if c1: "run_inv c1 \<and> progress c c1" for c1
  proof -
    let ?s1 = "s\<lparr>sv_objs := (sv_objs s)[i := c1]\<rparr>"
    have closed: "closedCalls c = (if disconnected c then 1 else 0)"
        "closedCalls c1 = (if disconnected c1 then 1 else 0)"
      using r c1 by (simp_all add: run_inv_def conn_inv_def disconnected_def)
    have up: "disconnected c \<Longrightarrow> disconnected c1" using c1 by (simp add: progress_def disconnected_def)
    have runs: "\<forall>d\<in>set (sv_objs ?s1). run_inv d"
      using inv c1 i set_update_subset_insert[of "sv_objs s" i c1] by (auto simp: server_inv_def)
    have acc: "accepting ?s1" using inv by (simp add: server_inv_def accepting_def get_acceptor_def)
    show ?thesis
    proof (cases "closedCalls c < closedCalls c1")
      case False
      then have same: "disconnected c1 = disconnected c" using closed up by (auto split: if_splits)
      then have "server_inv ?s1"
        using inv runs acc i by (auto simp: server_inv_def nth_list_update conn_log_def simp flip: c_def)
      then show ?thesis using False by (simp add: server_rel_def)
    next
      case True
      then have d: "\<not> disconnected c" "disconnected c1" using closed by (auto split: if_splits)
      then have mem: "i \<in> set (sv_set s)" using inv i by (simp add: server_inv_def c_def)
      let ?s2 = "?s1\<lparr>sv_set := remove1 i (sv_set s), sv_log := sv_log s @ [(i, False)]\<rparr>"
      have "\<not> connected c1" using d(2) by (simp add: connected_def disconnected_def)
      then have eq: "server_closeConnection True i ?s1 = Inr ?s2"
        using mem i inv by (simp add: server_closeConnection_def server_inv_def accepting_def)
      have "server_inv ?s2"
        using inv runs acc i d
        by (auto simp: server_inv_def nth_list_update conn_log_def set_remove1_eq accepting_def get_acceptor_def simp flip: c_def)
      then show ?thesis using True eq by (simp add: server_rel_def)
    qed
  qed
  show ?thesis using i exec_ok[OF r l] post
    by (auto simp: Let_def simp flip: c_def elim!: okE_bind)
qed

lemma server_step_ok: "server_inv s \<Longrightarrow> server_legal x s \<Longrightarrow> okE (\<lambda>s'. server_inv s' \<and> server_rel s s') (server_exec x s)"
  by (cases x) (use accept_ok conn_step_ok in blast)+

interpretation server_run: safe_steps server_exec server_legal server_inv server_rel
proof unfold_locales
  show "server_inv s \<Longrightarrow> server_legal x s \<Longrightarrow> okE (\<lambda>s'. server_inv s' \<and> server_rel s s') (server_exec x s)" for s x
    by (rule server_step_ok)
qed (auto simp: server_rel_def)

lemma server_start_ok:
  assumes "server_new f oks = Inr sv" and "server_start True ok (server_setCallbacks True True wc sv) = Inr s"
  shows "server_inv s \<and> sv_objs s = [] \<and> sv_hasWCCb s = wc"
proof -
  have sv: "sv_acceptor sv = \<lparr>ac_channel = channel_new f, ac_ctls = [], ac_hasNewConn = True\<rparr>"
      "sv_objs sv = []" "sv_set sv = []" "sv_log sv = []"
    using assms(1) by (auto simp: server_new_def acceptor_new_def setNewConnectionCallback_def bindE_eq_Inr split: if_splits)
  have reg: "registered [] ((channel_new f)\<lparr>hasRead := True\<rparr>)"
    by (simp add: registered_def interest_after_def wanted_def channel_new_def)
  have e: "EPOLLIN OR EPOLLPRI \<noteq> 0" by (simp add: EPOLLIN_def EPOLLPRI_def)
  show ?thesis using enableRead_ok[OF reg] assms(2) e
    by (auto simp: server_start_def server_setCallbacks_def acceptor_listen_def sv bindE_eq_Inr
        server_inv_def accepting_def get_acceptor_def channel_new_def split: if_splits)
qed

section \<open>Properties\<close>


text \<open>A connection is accepted on descriptor 7 and goes through the run of \<open>demo_trace\<close>.\<close>

definition demo_server :: server where
  "demo_server =
     \<lparr>sv_acceptor = \<lparr>ac_channel = (channel_new 3)\<lparr>hasRead := True, events := 3, polling := True\<rparr>,
                    ac_ctls = [(Ctl_Add, 3, 3)], ac_hasNewConn = True\<rparr>,
      sv_objs = [], sv_set = [], sv_hasConnCb = True, sv_hasMsgCb = True, sv_hasWCCb = True, sv_log = []\<rparr>"

definition demo_accepts :: "slabel list" where
  "demo_accepts = SL_Accept EPOLLIN (Accepted 7) [] # map (SL_Conn 0) demo_trace"

lemma demo_server_started:
  "server_new 3 [True, True, True] = Inr \<lparr>sv_acceptor = \<lparr>ac_channel = channel_new 3, ac_ctls = [], ac_hasNewConn = True\<rparr>,
      sv_objs = [], sv_set = [], sv_hasConnCb = False, sv_hasMsgCb = False, sv_hasWCCb = False, sv_log = []\<rparr> \<and>
   server_start True True (server_setCallbacks True True True \<lparr>sv_acceptor = \<lparr>ac_channel = channel_new 3, ac_ctls = [], ac_hasNewConn = True\<rparr>,
      sv_objs = [], sv_set = [], sv_hasConnCb = False, sv_hasMsgCb = False, sv_hasWCCb = False, sv_log = []\<rparr>) =
      Inr demo_server"
  by (simp add: server_new_def acceptor_new_def setNewConnectionCallback_def server_start_def server_setCallbacks_def
      acceptor_listen_def demo_server_def conn_eval)

lemmas server_eval = handleEvents_def handleEventsWithGuard_def whenE_def upd_acceptor_def get_acceptor_def
  acceptor_handleRead_def server_newConnection_def server_closeConnection_def user_cb_def


lemma conn_start_fd: "conn_start f w = Inr c \<Longrightarrow> fd (chan c) = f"
  by (auto simp: conn_start_def conn_new_def connectEstablished_def on_chan_def enableRead_def
      loop_updateChannel_def poller_updateChannel_def setMessageCallback_def setWriteCompleteCallback_def
      setCloseCallBack_def channel_new_def tie_def bindE_eq_Inr split: if_splits)

text \<open>
  A failed accept is announced as a connection. When \<open>accept4\<close> fails because the peer has gone or
  because the process has no descriptors left, which the code means to survive, \<open>handleRead\<close> does not return: in
  every state that a server can reach it calls the connection callback with a connection that is up
  on the descriptor -1, and keeps it in its set.
\<close>

theorem failed_accept_announced:
  assumes "server_new f oks = Inr sv" and "server_start True ok (server_setCallbacks True True wc sv) = Inr s0"
    and "legal_fold server_legal server_exec xs s0" and "foldE server_exec xs s0 = Inr s"
    and "e = EMFILE \<or> e = ECONNABORTED"
  shows "\<exists>s' c. server_exec (SL_Accept EPOLLIN (Accept_Err e) []) s = Inr s' \<and>
    sv_objs s' = sv_objs s @ [c] \<and> fd (chan c) = - 1 \<and> connected c \<and>
    length (sv_objs s) \<in> set (sv_set s') \<and> sv_log s' = sv_log s @ [(length (sv_objs s), True)]"
proof -
  have "server_inv s0" using server_start_ok[OF assms(1,2)] by simp
  then have inv: "server_inv s" using server_run.run_Inr assms(3,4) by blast
  let ?s0 = "upd_acceptor (setRevents EPOLLIN) s"
  let ?s1 = "upd_acceptor (\<lambda>ch. ch\<lparr>handlingEvents := True\<rparr>) ?s0"
  have inv1: "server_inv ?s0" "server_inv ?s1" using inv by (simp_all only: server_inv_upd)
  then have a: "accepting ?s0" "accepting ?s1" by (simp_all add: server_inv_def)
  have "dispatch (get_acceptor ?s0) = [ReadCb]"
    using a(1) by (simp add: accepting_def dispatch_def wantsClose_def wantsError_def wantsRead_def wantsWrite_def
        setRevents_def has_bits has_or bit_masks)
  then have eq: "server_exec (SL_Accept EPOLLIN (Accept_Err e) []) s =
      bindE (accept_cb (Accept_Err e) [] ReadCb ?s1) (\<lambda>s'. Inr (upd_acceptor (\<lambda>ch. ch\<lparr>handlingEvents := False\<rparr>) s'))"
    using a(1) by (simp add: handleEvents_def acc_owner.guard_eq_dispatch accepting_def foldE_Nil_fun bindE_Inr_id del: accept_cb.simps)
  obtain c where c: "conn_start (- 1) (sv_hasWCCb ?s1) = Inr c" "state c = kConnected"
    using conn_start_ok by blast
  have "accept_cb (Accept_Err e) [] ReadCb ?s1 = server_newConnection True (- 1) [] ?s1"
    using a(2) assms(5) by (auto simp: accepting_def acceptor_handleRead_def)
  also have "\<dots> = bindE (foldE run_api [] c) (\<lambda>c4.
    Inr (?s1\<lparr>sv_set := sv_set ?s1 @ [length (sv_objs ?s1)], sv_objs := sv_objs ?s1 @ [c4],
           sv_log := sv_log ?s1 @ [(length (sv_objs ?s1), connected c)]\<rparr>))"
    using a(2) by (intro newConnection_start c(1)) (simp_all add: accepting_def)
  finally show ?thesis using c(2) conn_start_fd[OF c(1)] unfolding eq
    by (simp add: connected_def)
qed

lemma failed_accept_announced_witness:
  "\<exists>s' c. server_exec (SL_Accept EPOLLIN (Accept_Err EMFILE) []) demo_server = Inr s' \<and> sv_objs s' = [c] \<and>
     fd (chan c) = - 1 \<and> sv_log s' = [(0, True)]"
proof -
  have n: "sv_objs demo_server = []" "sv_log demo_server = []" by (simp_all add: demo_server_def)
  show ?thesis
    using failed_accept_announced[OF conjunct1[OF demo_server_started] conjunct2[OF demo_server_started],
        of "[]" demo_server EMFILE] by (auto simp: n)
qed

end
