(* ===== verification/Ev_TcpClient.thy ===== *)
theory Ev_TcpClient
  imports Ev_Server Ev_TimerQueue
begin

text \<open>
  \<^verbatim>\<open>tinyev/Connector.h\<close>, \<^verbatim>\<open>tinyev/Connector.cc\<close>, \<^verbatim>\<open>tinyev/TcpClient.h\<close> and \<^verbatim>\<open>tinyev/TcpClient.cc\<close>: the
  non-blocking connect, the client that repeats it every three seconds with the timer queue of its
  loop until it has a connection, and the connection itself. The connectors a client makes are
  numbered; an event for one that has been destroyed is a use after free. Connection objects and the
  log of the connection callback are as in \<^verbatim>\<open>Ev_Server\<close>; outcomes of system calls are arguments.
\<close>

section \<open>The connector\<close>

text \<open>What \<open>connect\<close> returned: success, EINPROGRESS or another error.\<close>

datatype connect_result = Conn_Done | Conn_Progress | Conn_Err

record connector =
  kn_channel :: channel
  kn_ctls :: "ctl list"
  kn_fd :: int
  kn_connected :: bool
  kn_started :: bool
  kn_hasNewConn :: bool
  kn_hasError :: bool

definition connector_new :: "int \<Rightarrow> error + connector" where
  "connector_new sockfd =
     (if sockfd = - 1 then Inl Aborted
      else Inr \<lparr>kn_channel = (channel_new sockfd)\<lparr>hasWrite := True\<rparr>, kn_ctls = [], kn_fd = sockfd,
                kn_connected = False, kn_started = False, kn_hasNewConn = False, kn_hasError = False\<rparr>)"

text \<open>The destructor closes the descriptor unless it has been handed over (the result says so).\<close>

definition connector_destroy :: "connector \<Rightarrow> error + bool" where
  "connector_destroy k = bindE (channel_destroy (kn_channel k)) (\<lambda>_. Inr (\<not> kn_connected k))"

text \<open>The callback that \<open>handleWrite\<close> makes in its last statement.\<close>

datatype ask = Ask_NewConnection int | Ask_Error | Ask_Nothing

text \<open>\<open>soerr\<close> is the value of SO_ERROR, or None when \<open>getsockopt\<close> fails.\<close>

definition connector_handleWrite :: "bool \<Rightarrow> nat option \<Rightarrow> connector \<Rightarrow> error + (connector \<times> ask)" where
  "connector_handleWrite inL soerr k =
     bindE (assertE inL) (\<lambda>_.
     bindE (assertE (kn_started k)) (\<lambda>_.
     bindE (loop_removeChannel inL (kn_channel k)) (\<lambda>(ch, ctl).
     let k1 = k\<lparr>kn_channel := ch, kn_ctls := kn_ctls k @ [ctl]\<rparr> in
     if soerr \<noteq> Some 0 then Inr (k1, if kn_hasError k then Ask_Error else Ask_Nothing)
     else if kn_hasNewConn k then Inr (k1\<lparr>kn_connected := True\<rparr>, Ask_NewConnection (kn_fd k))
     else Inr (k1, Ask_Nothing))))"

definition connector_start :: "bool \<Rightarrow> connect_result \<Rightarrow> nat option \<Rightarrow> connector \<Rightarrow> error + (connector \<times> ask)" where
  "connector_start inL res soerr k =
     bindE (assertE inL) (\<lambda>_.
     bindE (assertE (\<not> kn_started k)) (\<lambda>_.
     let k1 = k\<lparr>kn_started := True\<rparr> in
     case res of
       Conn_Progress \<Rightarrow>
         bindE (enableWrite inL (kn_channel k1)) (\<lambda>(ch, ctl).
         Inr (k1\<lparr>kn_channel := ch, kn_ctls := kn_ctls k1 @ [ctl]\<rparr>, Ask_Nothing))
     | _ \<Rightarrow> connector_handleWrite inL soerr k1))"

section \<open>The client\<close>

record tcpclient =
  cl_connected :: bool
  cl_retryTimer :: nat
  cl_gen :: nat
  cl_connector :: connector
  cl_hasWCCb :: bool
  cl_objs :: "conn list"
  cl_connection :: "nat option"
  cl_queue :: "unit timerqueue"
  cl_log :: "(nat \<times> bool) list"
  cl_errors :: nat

definition tcpclient_new :: "int \<Rightarrow> bool \<Rightarrow> unit timerqueue \<Rightarrow> error + tcpclient" where
  "tcpclient_new sockfd wc q =
     bindE (connector_new sockfd) (\<lambda>k.
     Inr \<lparr>cl_connected = False, cl_retryTimer = 0, cl_gen = 0, cl_connector = k\<lparr>kn_hasNewConn := True\<rparr>,
          cl_hasWCCb = wc, cl_objs = [], cl_connection = None, cl_queue = q, cl_log = [], cl_errors = 0\<rparr>)"

definition client_setErrorCallback :: "tcpclient \<Rightarrow> tcpclient" where
  "client_setErrorCallback s = s\<lparr>cl_connector := (cl_connector s)\<lparr>kn_hasError := True\<rparr>\<rparr>"

definition client_newConnection :: "bool \<Rightarrow> int \<Rightarrow> api list \<Rightarrow> tcpclient \<Rightarrow> error + tcpclient" where
  "client_newConnection inL connfd calls s =
     bindE (assertE inL) (\<lambda>_.
     bindE (cancelTimer (cl_retryTimer s) (cl_queue s)) (\<lambda>q.
     bindE (conn_new connfd) (\<lambda>c0.
     let i = length (cl_objs s);
         s1 = s\<lparr>cl_queue := q, cl_retryTimer := 0, cl_connected := True, cl_connection := Some i\<rparr>;
         c1 = setCloseCallBack (setWriteCompleteCallback (cl_hasWCCb s) (setMessageCallback c0)) in
     bindE (connectEstablished inL c1) (\<lambda>c2.
     bindE (user_cb True calls c2) (\<lambda>c3.
     Inr (s1\<lparr>cl_objs := cl_objs s @ [c3], cl_log := cl_log s @ [(i, connected c2)]\<rparr>))))))"

text \<open>\<open>closeConnection\<close> is the close callback, inside a step of the connection, as in \<^verbatim>\<open>Ev_Server\<close>.\<close>

definition client_closeConnection :: "bool \<Rightarrow> nat \<Rightarrow> tcpclient \<Rightarrow> error + tcpclient" where
  "client_closeConnection inL i s =
     bindE (assertE inL) (\<lambda>_.
     bindE (assertE (cl_connection s \<noteq> None)) (\<lambda>_.
     Inr (s\<lparr>cl_connection := None, cl_log := cl_log s @ [(i, connected (cl_objs s ! i))]\<rparr>)))"

definition client_react :: "bool \<Rightarrow> ask \<Rightarrow> api list \<Rightarrow> tcpclient \<Rightarrow> error + tcpclient" where
  "client_react inL a calls s =
     (case a of
        Ask_NewConnection f \<Rightarrow> client_newConnection inL f calls s
      | Ask_Error \<Rightarrow> Inr (s\<lparr>cl_errors := Suc (cl_errors s)\<rparr>)
      | Ask_Nothing \<Rightarrow> Inr s)"

definition retry_interval :: int where
  "retry_interval = 3000000000"

definition client_start ::
  "bool \<Rightarrow> connect_result \<Rightarrow> nat option \<Rightarrow> api list \<Rightarrow> int \<Rightarrow> nat \<Rightarrow> tcpclient \<Rightarrow> error + tcpclient" where
  "client_start inL res soerr calls now addr s =
     bindE (assertE inL) (\<lambda>_.
     bindE (connector_start inL res soerr (cl_connector s)) (\<lambda>(k, a).
     bindE (client_react inL a calls (s\<lparr>cl_connector := k\<rparr>)) (\<lambda>s1.
     bindE (runEvery now addr retry_interval (Some ()) (cl_queue s1)) (\<lambda>q.
     Inr (s1\<lparr>cl_queue := q, cl_retryTimer := addr\<rparr>)))))"

definition client_retry ::
  "bool \<Rightarrow> int \<Rightarrow> connect_result \<Rightarrow> nat option \<Rightarrow> api list \<Rightarrow> tcpclient \<Rightarrow> error + tcpclient" where
  "client_retry inL sockfd res soerr calls s =
     bindE (assertE inL) (\<lambda>_.
     if cl_connected s then Inr s
     else
       bindE (connector_new sockfd) (\<lambda>k0.
       bindE (connector_destroy (cl_connector s)) (\<lambda>_.
       bindE (connector_start inL res soerr (k0\<lparr>kn_hasNewConn := True\<rparr>)) (\<lambda>(k, a).
       client_react inL a calls (s\<lparr>cl_connector := k, cl_gen := Suc (cl_gen s)\<rparr>)))))"

text \<open>The destructor, up to the destruction of the connector; what it leaves behind lives in the loop.\<close>

definition client_destroy :: "tcpclient \<Rightarrow> error + tcpclient" where
  "client_destroy s =
     bindE
       (case cl_connection s of
          Some i \<Rightarrow>
            if \<not> disconnected (cl_objs s ! i)
            then bindE (forceClose (cl_objs s ! i)) (\<lambda>c. Inr (s\<lparr>cl_objs := (cl_objs s)[i := c]\<rparr>))
            else Inr s
        | None \<Rightarrow> Inr s) (\<lambda>s1.
     bindE (if cl_retryTimer s1 \<noteq> 0 then cancelTimer (cl_retryTimer s1) (cl_queue s1) else Inr (cl_queue s1)) (\<lambda>q.
     bindE (connector_destroy (cl_connector s1)) (\<lambda>_. Inr (s1\<lparr>cl_queue := q, cl_connection := None\<rparr>))))"

section \<open>Steps\<close>

definition get_connector :: "tcpclient \<Rightarrow> channel" where
  "get_connector s = kn_channel (cl_connector s)"

definition upd_connector :: "(channel \<Rightarrow> channel) \<Rightarrow> tcpclient \<Rightarrow> tcpclient" where
  "upd_connector f s = s\<lparr>cl_connector := (cl_connector s)\<lparr>kn_channel := f (kn_channel (cl_connector s))\<rparr>\<rparr>"

text \<open>The connecting channel has a write callback only.\<close>

fun connect_cb :: "nat option \<Rightarrow> api list \<Rightarrow> chan_cb \<Rightarrow> tcpclient \<Rightarrow> error + tcpclient" where
  "connect_cb soerr calls WriteCb s =
     bindE (connector_handleWrite True soerr (cl_connector s)) (\<lambda>(k, a).
     client_react True a calls (s\<lparr>cl_connector := k\<rparr>))"
| "connect_cb soerr calls _ s = Inl Bad_Function_Call"

datatype clabel =
    CL_Connect nat evmask "nat option" "api list"
  | CL_Retry int connect_result "nat option" "api list"
  | CL_Conn nat label
  | CL_Timers "unit tstep"

fun client_exec :: "clabel \<Rightarrow> tcpclient \<Rightarrow> error + tcpclient" where
  "client_exec (CL_Connect g revs soerr calls) s =
     (if g = cl_gen s then
        handleEvents get_connector upd_connector (connect_cb soerr calls) True True
          (upd_connector (setRevents revs) s)
      else Inl Use_After_Free)"
| "client_exec (CL_Retry sockfd res soerr calls) s = client_retry True sockfd res soerr calls s"
| "client_exec (CL_Conn i l) s =
     (if i < length (cl_objs s) then
        bindE (exec l (cl_objs s ! i)) (\<lambda>c.
        let s1 = s\<lparr>cl_objs := (cl_objs s)[i := c]\<rparr> in
        if closedCalls (cl_objs s ! i) < closedCalls c then client_closeConnection True i s1 else Inr s1)
      else Inl Use_After_Free)"
| "client_exec (CL_Timers x) s = bindE (tq_step x (cl_queue s)) (\<lambda>q. Inr (s\<lparr>cl_queue := q\<rparr>))"

text \<open>
  What a step asks of its environment: events come for the present connector while it is registered, a
  connect is in progress when the call returns, the timer fires only while it is pending, nobody else
  cancels it, and the user's calls are legal.
\<close>

definition waiting :: "tcpclient \<Rightarrow> bool" where
  "waiting s \<longleftrightarrow> cl_retryTimer s \<in> snd ` set (timers (cl_queue s))"

fun client_legal :: "int \<Rightarrow> clabel \<Rightarrow> tcpclient \<Rightarrow> bool" where
  "client_legal T (CL_Connect g revs soerr calls) s =
     (g = cl_gen s \<and> polling (get_connector s) \<and>
      thenP (conn_start (kn_fd (cl_connector s)) (cl_hasWCCb s)) (legal_calls calls))"
| "client_legal T (CL_Retry sockfd res soerr calls) s = (waiting s \<and> sockfd \<noteq> - 1 \<and> res = Conn_Progress)"
| "client_legal T (CL_Conn i l) s = (i < length (cl_objs s) \<and> legal_label l (cl_objs s ! i))"
| "client_legal T (CL_Timers x) s =
     (legal_tstep T x (cl_queue s) \<and>
      thenP (tq_step x (cl_queue s)) (\<lambda>q. waiting s \<longrightarrow> waiting (s\<lparr>cl_queue := q\<rparr>)))"

section \<open>Invariant\<close>

definition connecting :: "tcpclient \<Rightarrow> bool" where
  "connecting s \<longleftrightarrow> kn_started (cl_connector s) \<and> kn_hasNewConn (cl_connector s) \<and>
     registered (kn_ctls (cl_connector s)) (get_connector s) \<and> hasWrite (get_connector s) \<and>
     \<not> hasRead (get_connector s) \<and> \<not> hasClose (get_connector s) \<and> \<not> hasError (get_connector s) \<and>
     \<not> tied (get_connector s) \<and> kn_connected (cl_connector s) = cl_connected s \<and>
     (cl_connected s \<longrightarrow> \<not> polling (get_connector s))"

definition client_core :: "int \<Rightarrow> tcpclient \<Rightarrow> bool" where
  "client_core T s \<longleftrightarrow> connecting s \<and> tq_inv T (cl_queue s) \<and>
     (if cl_connected s
      then cl_retryTimer s = 0 \<and>
        (\<exists>c. cl_objs s = [c] \<and> run_inv c \<and> cl_connection s = (if disconnected c then None else Some 0) \<and>
             cl_log s = map (Pair 0) (conn_log c))
      else waiting s \<and> cl_objs s = [] \<and> cl_connection s = None \<and> cl_log s = [])"

definition client_inv :: "int \<Rightarrow> tcpclient \<Rightarrow> bool" where
  "client_inv T s \<longleftrightarrow> client_core T s \<and> \<not> handlingEvents (get_connector s)"

definition client_rel :: "tcpclient \<Rightarrow> tcpclient \<Rightarrow> bool" where
  "client_rel s s' \<longleftrightarrow> (cl_connected s \<longrightarrow> cl_connected s') \<and> prefix (cl_log s) (cl_log s') \<and> cl_gen s \<le> cl_gen s'"

lemma upd_connector_sel [simp]:
  "get_connector (upd_connector f s) = f (get_connector s)" "cl_objs (upd_connector f s) = cl_objs s"
  "cl_connected (upd_connector f s) = cl_connected s" "cl_log (upd_connector f s) = cl_log s"
  "cl_queue (upd_connector f s) = cl_queue s" "cl_retryTimer (upd_connector f s) = cl_retryTimer s"
  "cl_connection (upd_connector f s) = cl_connection s" "cl_gen (upd_connector f s) = cl_gen s"
  "cl_hasWCCb (upd_connector f s) = cl_hasWCCb s" "kn_fd (cl_connector (upd_connector f s)) = kn_fd (cl_connector s)"
  "kn_started (cl_connector (upd_connector f s)) = kn_started (cl_connector s)"
  "kn_connected (cl_connector (upd_connector f s)) = kn_connected (cl_connector s)"
  "kn_hasNewConn (cl_connector (upd_connector f s)) = kn_hasNewConn (cl_connector s)"
  "kn_ctls (cl_connector (upd_connector f s)) = kn_ctls (cl_connector s)"
  "kn_channel (cl_connector (upd_connector f s)) = f (get_connector s)"
  "waiting (upd_connector f s) = waiting s"
  by (simp_all add: upd_connector_def get_connector_def waiting_def)

lemma client_core_upd:
  "client_core T (upd_connector (\<lambda>ch. ch\<lparr>handlingEvents := x\<rparr>) s) = client_core T s"
  "client_core T (upd_connector (setRevents r) s) = client_core T s"
  by (simp_all add: client_core_def connecting_def setRevents_def registered_def wanted_def)

text \<open>The connecting channel is an owner in the sense of \<^verbatim>\<open>Ev_Channel\<close>.\<close>

lemma react_connector: "client_react inL a calls s = Inr s' \<Longrightarrow> cl_connector s' = cl_connector s"
  by (cases a) (auto simp: client_react_def client_newConnection_def bindE_eq_Inr Let_def)

lemma removeChannel_frame:
  "loop_removeChannel inL ch = Inr (ch', ctl) \<Longrightarrow> dispatch_part ch' = dispatch_part ch"
  by (auto simp: loop_removeChannel_def disableAll_def loop_updateChannel_def poller_updateChannel_def
      bindE_eq_Inr dispatch_part_def split: if_splits)

lemma connector_frame:
  "connector_handleWrite inL soerr k = Inr (k', a) \<Longrightarrow> dispatch_part (kn_channel k') = dispatch_part (kn_channel k)"
  by (auto simp: connector_handleWrite_def bindE_eq_Inr Let_def dest: removeChannel_frame split: if_splits)

interpretation conn_owner2: channel_owner get_connector upd_connector "connect_cb soerr calls" for soerr calls
proof unfold_locales
  show "get_connector (upd_connector f s) = f (get_connector s)" for f s by simp
  show "dispatch_part (get_connector s') = dispatch_part (get_connector s)"
    if "connect_cb soerr calls k s = Inr s'" for k s s'
    using that
    by (cases k) (auto simp: bindE_eq_Inr get_connector_def dest!: react_connector connector_frame)
qed

text \<open>The connection of a client is the one \<open>conn_start\<close> sets up.\<close>

lemma client_newConnection_start:
  assumes "conn_start f (cl_hasWCCb s) = Inr c" and "cancelTimer (cl_retryTimer s) (cl_queue s) = Inr q"
  shows "client_newConnection True f calls s = bindE (foldE run_api calls c) (\<lambda>c3.
    Inr (s\<lparr>cl_queue := q, cl_retryTimer := 0, cl_connected := True, cl_connection := Some (length (cl_objs s)),
           cl_objs := cl_objs s @ [c3], cl_log := cl_log s @ [(length (cl_objs s), connected c)]\<rparr>))"
  using assms by (auto simp: conn_start_def client_newConnection_def user_cb_def bindE_eq_Inr Let_def)

lemma waiting_cancel:
  assumes "tq_inv T (cl_queue s)" and "waiting s"
  shows "\<exists>q. cancelTimer (cl_retryTimer s) (cl_queue s) = Inr q \<and> tq_inv T q"
proof -
  obtain w where "(w, cl_retryTimer s) \<in> set (timers (cl_queue s))" using assms(2) by (auto simp: waiting_def)
  then show ?thesis using cancelTimer_ok[of "[]" "cl_queue s" w "cl_retryTimer s" T] assms(1)
    by (auto simp: tq_inv_def)
qed

text \<open>
  The last part of \<open>handleWrite\<close>: the channel has been removed, and either the client gets its connection
  or it goes on waiting for its timer.
\<close>

lemma connected_ok:
  assumes core: "client_core T s" and nc: "\<not> cl_connected s" and np: "\<not> polling (get_connector s)"
    and leg: "thenP (conn_start f (cl_hasWCCb s)) (legal_calls calls)"
  shows "okE (\<lambda>s'. client_core T s' \<and> client_rel s s')
    (client_newConnection True f calls (s\<lparr>cl_connector := (cl_connector s)\<lparr>kn_connected := True\<rparr>\<rparr>))"
proof -
  let ?s = "s\<lparr>cl_connector := (cl_connector s)\<lparr>kn_connected := True\<rparr>\<rparr>"
  have w: "tq_inv T (cl_queue s)" "waiting s" "cl_objs s = []" "cl_log s = []" and con: "connecting s"
    using core nc by (simp_all add: client_core_def)
  obtain q where q: "cancelTimer (cl_retryTimer s) (cl_queue s) = Inr q" "tq_inv T q"
    using waiting_cancel[OF w(1,2)] by blast
  obtain c where c: "conn_start f (cl_hasWCCb s) = Inr c" "conn_inv c" "state c = kConnected"
      "\<not> handlingEvents (chan c)"
    using conn_start_ok by blast
  have "okE (\<lambda>c'. conn_inv c' \<and> evolved c c') (foldE run_api calls c)"
    using c leg by (intro run_calls_ok) simp_all
  moreover have "client_core T s' \<and> client_rel s s'"
    if c3: "conn_inv c3 \<and> evolved c c3" and
      s': "s' = ?s\<lparr>cl_queue := q, cl_retryTimer := 0, cl_connected := True, cl_connection := Some 0,
           cl_objs := [c3], cl_log := [(0, connected c)]\<rparr>" for c3 s'
  proof -
    have st: "state c3 \<noteq> kConnecting" "state c3 \<noteq> kDisconnected" "\<not> handlingEvents (chan c3)"
      using c3 c(3,4) by (auto simp: evolved_def same_frame_def)
    then have "run_inv c3" "conn_log c3 = [True]" "\<not> disconnected c3"
      using c3 by (simp_all add: run_inv_def conn_log_def disconnected_def)
    moreover have "connected c" using c(3) by (simp add: connected_def)
    moreover have "connecting s'" using con np s' by (simp add: connecting_def get_connector_def)
    ultimately show ?thesis using s' q(2) w by (simp add: client_core_def client_rel_def)
  qed
  ultimately show ?thesis using client_newConnection_start[of f ?s c q calls] c(1) q(1) w
    by (auto elim!: okE_bind)
qed

lemma connect_write_ok:
  assumes core: "client_core T s" and p: "polling (get_connector s)"
    and leg: "thenP (conn_start (kn_fd (cl_connector s)) (cl_hasWCCb s)) (legal_calls calls)"
  shows "okE (\<lambda>s'. client_core T s' \<and> client_rel s s') (connect_cb soerr calls WriteCb s)"
proof -
  have con: "connecting s" and nc: "\<not> cl_connected s" using core p by (auto simp: client_core_def connecting_def)
  have reg: "registered (kn_ctls (cl_connector s)) (get_connector s)" using con by (simp add: connecting_def)
  obtain ctl where r: "loop_removeChannel True (get_connector s) = Inr (with_events 0 (get_connector s), ctl)"
      "registered (kn_ctls (cl_connector s) @ [ctl]) (with_events 0 (get_connector s))"
    using removeChannel_ok[OF reg p] by blast
  define s1 where "s1 = s\<lparr>cl_connector := (cl_connector s)\<lparr>kn_channel := with_events 0 (get_connector s),
      kn_ctls := kn_ctls (cl_connector s) @ [ctl]\<rparr>\<rparr>"
  have c1: "client_core T s1" "\<not> cl_connected s1" "\<not> polling (get_connector s1)" "client_rel s s1"
    using core r(2) nc by (auto simp: s1_def client_core_def connecting_def get_connector_def waiting_def client_rel_def)
  have st: "kn_started (cl_connector s)" "kn_hasNewConn (cl_connector s)" using con by (simp_all add: connecting_def)
  show ?thesis
  proof (cases "soerr = Some 0")
    case True
    have "connect_cb soerr calls WriteCb s = client_newConnection True (kn_fd (cl_connector s)) calls
        (s1\<lparr>cl_connector := (cl_connector s1)\<lparr>kn_connected := True\<rparr>\<rparr>)"
      using True r(1) st by (simp add: connector_handleWrite_def client_react_def s1_def get_connector_def)
    moreover have "okE (\<lambda>s'. client_core T s' \<and> client_rel s1 s') \<dots>"
      using leg by (intro connected_ok c1) (simp add: s1_def)
    ultimately show ?thesis using c1(4) by (auto simp: client_rel_def elim!: okE_weaken)
  next
    case False
    then have "connect_cb soerr calls WriteCb s =
        Inr (if kn_hasError (cl_connector s) then s1\<lparr>cl_errors := Suc (cl_errors s)\<rparr> else s1)"
      using r(1) st by (simp add: connector_handleWrite_def client_react_def s1_def get_connector_def)
    moreover have "client_core T (s1\<lparr>cl_errors := x\<rparr>)" for x
      using c1(1,2) by (simp add: client_core_def connecting_def get_connector_def waiting_def)
    ultimately show ?thesis using c1 by (simp add: client_rel_def s1_def)
  qed
qed

lemma connect_dispatch: "connecting s \<Longrightarrow> dispatch (get_connector s) = [] \<or> dispatch (get_connector s) = [WriteCb]"
  by (simp add: connecting_def dispatch_def wantsClose_def wantsError_def wantsRead_def)

lemma connect_step_ok:
  assumes inv: "client_inv T s" and leg: "client_legal T (CL_Connect g revs soerr calls) s"
  shows "okE (\<lambda>s'. client_inv T s' \<and> client_rel s s') (client_exec (CL_Connect g revs soerr calls) s)"
proof -
  let ?s0 = "upd_connector (setRevents revs) s"
  let ?s1 = "upd_connector (\<lambda>ch. ch\<lparr>handlingEvents := True\<rparr>) ?s0"
  have core: "client_core T ?s0" "client_core T ?s1" using inv by (simp_all only: client_core_upd client_inv_def)
  have a0: "connecting ?s0" using core(1) by (simp add: client_core_def)
  have eq: "client_exec (CL_Connect g revs soerr calls) s =
      bindE (foldE (connect_cb soerr calls) (dispatch (get_connector ?s0)) ?s1)
        (\<lambda>s'. Inr (upd_connector (\<lambda>ch. ch\<lparr>handlingEvents := False\<rparr>) s'))"
    using a0 leg by (simp add: handleEvents_def conn_owner2.guard_eq_dispatch connecting_def)
  have "okE (\<lambda>s'. client_core T s' \<and> client_rel s s') (foldE (connect_cb soerr calls) (dispatch (get_connector ?s0)) ?s1)"
    using connect_dispatch[OF a0]
  proof
    assume "dispatch (get_connector ?s0) = []"
    then show ?thesis using core(2) by (simp add: client_rel_def)
  next
    assume d: "dispatch (get_connector ?s0) = [WriteCb]"
    have "okE (\<lambda>s'. client_core T s' \<and> client_rel ?s1 s') (connect_cb soerr calls WriteCb ?s1)"
      using leg by (intro connect_write_ok core(2)) (simp_all add: setRevents_def)
    then have "okE (\<lambda>s'. client_core T s' \<and> client_rel s s') (connect_cb soerr calls WriteCb ?s1)"
      by (rule okE_weaken) (simp add: client_rel_def)
    then show ?thesis unfolding d foldE_single .
  qed
  then show ?thesis unfolding eq
    by (rule okE_bind) (simp add: client_inv_def client_core_upd, simp add: client_rel_def)
qed

text \<open>A new attempt: the old connector goes, and a new one is registered.\<close>

lemma connector_start_ok:
  assumes "connector_new f = Inr k"
  shows "\<exists>ch ctl. connector_start True Conn_Progress soerr (k\<lparr>kn_hasNewConn := True, kn_hasError := e\<rparr>) =
      Inr (k\<lparr>kn_hasNewConn := True, kn_hasError := e, kn_started := True, kn_channel := ch, kn_ctls := [ctl]\<rparr>, Ask_Nothing) \<and>
    ch = with_events EPOLLOUT (kn_channel k) \<and> registered [ctl] ch"
proof -
  have k: "k = \<lparr>kn_channel = (channel_new f)\<lparr>hasWrite := True\<rparr>, kn_ctls = [], kn_fd = f, kn_connected = False,
      kn_started = False, kn_hasNewConn = False, kn_hasError = False\<rparr>"
    using assms by (auto simp: connector_new_def split: if_splits)
  have reg: "registered [] (kn_channel k)"
    by (simp add: k registered_def interest_after_def wanted_def channel_new_def)
  show ?thesis using enableWrite_ok[OF reg] by (auto simp: connector_start_def k channel_new_def)
qed

lemma retry_ok:
  assumes inv: "client_inv T s" and leg: "client_legal T (CL_Retry f res soerr calls) s"
  shows "okE (\<lambda>s'. client_inv T s' \<and> client_rel s s') (client_exec (CL_Retry f res soerr calls) s)"
proof (cases "cl_connected s")
  case True
  then show ?thesis using inv by (simp add: client_retry_def client_rel_def)
next
  case False
  have core: "client_core T s" and nh: "\<not> handlingEvents (kn_channel (cl_connector s))"
    using inv by (simp_all add: client_inv_def get_connector_def)
  obtain k where k: "connector_new f = Inr k" "k = \<lparr>kn_channel = (channel_new f)\<lparr>hasWrite := True\<rparr>, kn_ctls = [],
      kn_fd = f, kn_connected = False, kn_started = False, kn_hasNewConn = False, kn_hasError = False\<rparr>"
    using leg by (auto simp: connector_new_def)
  obtain ch ctl where st: "connector_start True Conn_Progress soerr (k\<lparr>kn_hasNewConn := True\<rparr>) =
      Inr (k\<lparr>kn_hasNewConn := True, kn_started := True, kn_channel := ch, kn_ctls := [ctl]\<rparr>, Ask_Nothing)"
      "ch = with_events EPOLLOUT (kn_channel k)" "registered [ctl] ch"
    using connector_start_ok[OF k(1), of soerr False] k(2) by auto
  have d: "connector_destroy (cl_connector s) = Inr (\<not> kn_connected (cl_connector s))"
    using nh by (simp add: connector_destroy_def channel_destroy_def)
  define s' where "s' = s\<lparr>cl_connector := k\<lparr>kn_hasNewConn := True, kn_started := True, kn_channel := ch,
      kn_ctls := [ctl]\<rparr>, cl_gen := Suc (cl_gen s)\<rparr>"
  have eq: "client_exec (CL_Retry f res soerr calls) s = Inr s'"
    using False leg k(1) d st(1) by (simp add: client_retry_def client_react_def s'_def)
  have "connecting s'" "\<not> handlingEvents (get_connector s')"
    using st(2,3) False k(2) by (simp_all add: s'_def connecting_def get_connector_def channel_new_def)
  then have "client_inv T s'" using core False
    by (simp add: client_inv_def client_core_def s'_def waiting_def)
  then show ?thesis unfolding eq using False by (simp add: client_rel_def s'_def)
qed

lemma client_conn_ok:
  assumes inv: "client_inv T s" and leg: "client_legal T (CL_Conn i l) s"
  shows "okE (\<lambda>s'. client_inv T s' \<and> client_rel s s') (client_exec (CL_Conn i l) s)"
proof -
  have cn: "cl_connected s" using inv leg by (auto simp: client_inv_def client_core_def split: if_splits)
  then obtain c where c: "cl_objs s = [c]" "run_inv c" "cl_connection s = (if disconnected c then None else Some 0)"
      "cl_log s = map (Pair 0) (conn_log c)" and core: "connecting s" "tq_inv T (cl_queue s)" "cl_retryTimer s = 0"
      "\<not> handlingEvents (get_connector s)"
    using inv by (auto simp: client_inv_def client_core_def)
  have i: "i = 0" and l: "legal_label l c" using leg c(1) by auto
  have post: "okE (\<lambda>s'. client_inv T s' \<and> client_rel s s')
      (if closedCalls c < closedCalls c1 then client_closeConnection True 0 (s\<lparr>cl_objs := [c1]\<rparr>)
       else Inr (s\<lparr>cl_objs := [c1]\<rparr>))"
    if c1: "run_inv c1 \<and> progress c c1" for c1
  proof -
    have closed: "closedCalls c = (if disconnected c then 1 else 0)"
        "closedCalls c1 = (if disconnected c1 then 1 else 0)"
      using c(2) c1 by (simp_all add: run_inv_def conn_inv_def disconnected_def)
    have up: "disconnected c \<Longrightarrow> disconnected c1" using c1 by (simp add: progress_def disconnected_def)
    note frame = client_inv_def client_core_def connecting_def get_connector_def client_rel_def conn_log_def
    show ?thesis
    proof (cases "closedCalls c < closedCalls c1")
      case False
      then have "disconnected c1 = disconnected c" using closed up by (auto split: if_splits)
      then show ?thesis using False c c1 core cn by (simp add: frame)
    next
      case True
      then have d: "\<not> disconnected c" "disconnected c1" "\<not> connected c1"
        using closed by (auto simp: connected_def disconnected_def split: if_splits)
      then show ?thesis using True c c1 core cn by (simp add: client_closeConnection_def frame)
    qed
  qed
  show ?thesis using exec_ok[OF c(2) l] post i c(1) by (auto simp: Let_def elim!: okE_bind)
qed

lemma client_timers_ok:
  assumes inv: "client_inv T s" and leg: "client_legal T (CL_Timers x) s"
  shows "okE (\<lambda>s'. client_inv T s' \<and> client_rel s s') (client_exec (CL_Timers x) s)"
proof -
  obtain q where q: "tq_step x (cl_queue s) = Inr q" "tq_inv T q"
    using tsteps.step_total[of T "cl_queue s" x] inv leg by (auto simp: client_inv_def client_core_def)
  then show ?thesis using inv leg
    by (auto simp: client_inv_def client_core_def connecting_def get_connector_def client_rel_def waiting_def)
qed

lemma client_step_ok:
  "client_inv T s \<Longrightarrow> client_legal T x s \<Longrightarrow> okE (\<lambda>s'. client_inv T s' \<and> client_rel s s') (client_exec x s)"
  by (cases x) (use connect_step_ok retry_ok client_conn_ok client_timers_ok in blast)+

interpretation client_run: safe_steps client_exec "client_legal T" "client_inv T" client_rel for T
proof unfold_locales
  show "client_inv T s \<Longrightarrow> client_legal T x s \<Longrightarrow> okE (\<lambda>s'. client_inv T s' \<and> client_rel s s') (client_exec x s)" for s x
    by (rule client_step_ok)
qed (auto simp: client_rel_def)

section \<open>Starting\<close>

definition client_setup :: "int \<Rightarrow> bool \<Rightarrow> bool \<Rightarrow> unit timerqueue \<Rightarrow> error + tcpclient" where
  "client_setup f wc err q =
     bindE (tcpclient_new f wc q) (\<lambda>s. Inr (if err then client_setErrorCallback s else s))"

lemma client_setup_eq:
  "f \<noteq> - 1 \<Longrightarrow> client_setup f wc err q = Inr \<lparr>cl_connected = False, cl_retryTimer = 0, cl_gen = 0,
     cl_connector = \<lparr>kn_channel = (channel_new f)\<lparr>hasWrite := True\<rparr>, kn_ctls = [], kn_fd = f, kn_connected = False,
       kn_started = False, kn_hasNewConn = True, kn_hasError = err\<rparr>,
     cl_hasWCCb = wc, cl_objs = [], cl_connection = None, cl_queue = q, cl_log = [], cl_errors = 0\<rparr>"
  by (simp add: client_setup_def tcpclient_new_def connector_new_def client_setErrorCallback_def)

lemma runEvery_ok:
  assumes "tq_inv T q" and "heap q a = None" and "a \<noteq> 0" and "time_ok now" and "now \<le> T" and "time_ok (now + i)"
  shows "\<exists>q'. runEvery now a i cb q = Inr q' \<and> tq_inv T q' \<and> a \<in> snd ` set (timers q')"
proof -
  have "ns_add now i = Inr (now + i)" using assms(6) time_ok_ns by (simp add: ns_add_def)
  then show ?thesis using addTimer_ok[of "[]" q a now T "now + i" cb i] assms
    by (auto simp: runEvery_def tq_inv_def set_insort_key)
qed

lemma client_start_ok:
  assumes "f \<noteq> - 1" and "client_setup f wc err q = Inr s" and q: "tq_inv T q" "heap q a = None" "a \<noteq> 0"
    and t: "time_ok now" "now \<le> T" "time_ok (now + retry_interval)"
  shows "\<exists>s0. client_start True Conn_Progress soerr calls now a s = Inr s0 \<and> client_inv T s0 \<and> \<not> cl_connected s0"
proof -
  define k where "k = \<lparr>kn_channel = (channel_new f)\<lparr>hasWrite := True\<rparr>, kn_ctls = [], kn_fd = f, kn_connected = False,
       kn_started = False, kn_hasNewConn = False, kn_hasError = False\<rparr>"
  have k: "connector_new f = Inr k" using assms(1) by (simp add: connector_new_def k_def)
  have s: "s = \<lparr>cl_connected = False, cl_retryTimer = 0, cl_gen = 0,
     cl_connector = k\<lparr>kn_hasNewConn := True, kn_hasError := err\<rparr>,
     cl_hasWCCb = wc, cl_objs = [], cl_connection = None, cl_queue = q, cl_log = [], cl_errors = 0\<rparr>"
    using assms(2) client_setup_eq[OF assms(1)] by (simp add: k_def)
  obtain ch ctl where st: "connector_start True Conn_Progress soerr (k\<lparr>kn_hasNewConn := True, kn_hasError := err\<rparr>) =
      Inr (k\<lparr>kn_hasNewConn := True, kn_hasError := err, kn_started := True, kn_channel := ch, kn_ctls := [ctl]\<rparr>, Ask_Nothing)"
      "ch = with_events EPOLLOUT (kn_channel k)" "registered [ctl] ch"
    using connector_start_ok[OF k, of soerr err] by blast
  obtain q' where q': "runEvery now a retry_interval (Some ()) q = Inr q'" "tq_inv T q'" "a \<in> snd ` set (timers q')"
    using runEvery_ok[OF q t] by blast
  show ?thesis using st q'
    by (simp add: client_start_def s client_react_def client_inv_def client_core_def connecting_def get_connector_def waiting_def)
       (simp add: k_def channel_new_def)
qed

section \<open>Properties\<close>


text \<open>
  C31: A \<open>connect\<close> that has an outcome at once, success or any error but EINPROGRESS (no route to the host,
  no free port), ends the program. \<open>Connector::start\<close> then calls \<open>handleWrite\<close>, which removes a channel that
  has never been registered, and the assert of \<open>EPoller::updateChannel\<close> fails; so it is when the client
  starts and when it tries again.
\<close>

theorem immediate_connect_aborts:
  assumes "f \<noteq> - 1" and "res \<noteq> Conn_Progress"
  shows "bindE (client_setup f wc err q) (client_start True res soerr calls now a) = Inl Assert_Failed \<and>
    (\<not> cl_connected s \<longrightarrow> client_retry True f res soerr calls s = Inl Assert_Failed)"
proof -
  have fails: "connector_start True res soerr k = Inl Assert_Failed"
    if "\<not> polling (kn_channel k)" for k
    using assms(2) that
    by (cases res) (simp_all add: connector_start_def connector_handleWrite_def removeChannel_unpolled bindE_eq_Inr assertE_def)
  have np: "\<not> polling (kn_channel k)" if "connector_new f = Inr k" for k
    using that by (auto simp: connector_new_def channel_new_def split: if_splits)
  obtain k where k: "connector_new f = Inr k" using assms(1) by (simp add: connector_new_def)
  have "bindE (client_setup f wc err q) (client_start True res soerr calls now a) = Inl Assert_Failed"
    using np[OF k] by (simp add: client_setup_def tcpclient_new_def k client_start_def client_setErrorCallback_def fails)
  moreover have "client_retry True f res soerr calls s = Inl Assert_Failed" if "\<not> cl_connected s"
    using that np[OF k]
    by (simp add: client_retry_def k fails connector_destroy_def channel_destroy_def assertE_def)
  ultimately show ?thesis by simp
qed

lemma immediate_connect_aborts_witness:
  "bindE (client_setup 5 False True tq_new) (client_start True Conn_Err (Some 113) [] 100 16) = Inl Assert_Failed"
  using immediate_connect_aborts[of 5 Conn_Err] by simp

text \<open>The second attempt succeeds; the connection goes through the run of \<open>demo_trace\<close>.\<close>

definition demo_client :: "clabel list" where
  "demo_client = [CL_Connect 0 EPOLLOUT (Some 111) [], CL_Retry 6 Conn_Progress None [],
     CL_Connect 1 EPOLLOUT (Some 0) []] @ map (CL_Conn 0) demo_trace"

lemmas client_eval = client_start_def client_retry_def client_react_def client_newConnection_def
  client_closeConnection_def connector_start_def connector_handleWrite_def connector_new_def connector_destroy_def
  channel_destroy_def get_connector_def upd_connector_def waiting_def retry_interval_def


section \<open>What else goes wrong\<close>

text \<open>A second attempt has no error callback: \<open>retry\<close> sets only the one for a new connection.\<close>

lemma retry_drops_error_callback:
  assumes "client_retry True f Conn_Progress soerr calls s = Inr s'" and "\<not> cl_connected s"
  shows "\<not> kn_hasError (cl_connector s')"
proof -
  have "\<not> kn_hasError k" if "connector_new f = Inr k" for k
    using that by (auto simp: connector_new_def split: if_splits)
  then show ?thesis using assms
    by (auto simp: client_retry_def connector_start_def client_react_def bindE_eq_Inr)
qed

text \<open>
  The destructor of a client with a live connection queues its closing; the task finds the close callback
  that is bound to the client, which does not exist any more.
\<close>

lemma destroyed_client_called_back:
  assumes "client_inv T s" and "cl_connection s = Some i"
  shows "\<exists>s' c. client_destroy s = Inr s' \<and> cl_objs s' = [c] \<and> Task_ForceClose \<in> set (pendingTasks c) \<and> hasCloseCb c"
proof -
  have cn: "cl_connected s" using assms by (auto simp: client_inv_def client_core_def split: if_splits)
  then obtain c where c: "cl_objs s = [c]" "run_inv c" "\<not> disconnected c" "i = 0" "cl_retryTimer s = 0"
      "\<not> handlingEvents (get_connector s)"
    using assms by (auto simp: client_inv_def client_core_def split: if_splits)
  have "connector_destroy (cl_connector s) = Inr (\<not> kn_connected (cl_connector s))"
    using c(6) by (simp add: connector_destroy_def channel_destroy_def get_connector_def)
  then show ?thesis using assms(2) c
    by (auto simp: client_destroy_def forceClose_def stateAtomicGetAndSet_def disconnected_def run_inv_def conn_inv_def)
qed

text \<open>
  A retry destroys the old connector although an event for it may be next in the list of the same turn of
  the loop, which holds its channel.
\<close>

lemma retry_leaves_dangling_channel:
  assumes "client_retry True f Conn_Progress soerr calls s = Inr s'" and "\<not> cl_connected s"
  shows "client_exec (CL_Connect (cl_gen s) revs soerr' calls') s' = Inl Use_After_Free"
proof -
  have "cl_gen s' = Suc (cl_gen s)"
    using assms by (auto simp: client_retry_def connector_start_def client_react_def bindE_eq_Inr)
  then show ?thesis by simp
qed

end
