(* ===== verification/Ev_TcpServer.thy ===== *)
theory Ev_TcpServer
  imports Ev_EventLoop
begin

text \<open>
  \<^verbatim>\<open>tinyev/TcpServer.h\<close>, \<^verbatim>\<open>tinyev/TcpServer.cc\<close> and \<^verbatim>\<open>tinyev/EventLoopThread.cc\<close>: loops in threads of their own.
  A thread builds its loop, publishes a pointer to it, runs the user's initialisation and the loop, and
  takes the pointer back; what happens inside is the step relation of \<^verbatim>\<open>Ev_EventLoop\<close>. The object that
  started the threads waits for each pointer when it starts, and asks every loop to quit and joins the threads when
  it is destroyed. All threads interleave; user code does not call \<open>quit\<close>. The loop's task queue is as in
  \<^verbatim>\<open>Ev_EventLoop\<close>; the servers of the threads are those of \<^verbatim>\<open>Ev_Server\<close> and are left out here.
\<close>

section \<open>A thread with a loop\<close>

text \<open>
  Before the pointer is published, between that and \<open>loop()\<close>, inside \<open>loop()\<close>, back from it, and after the
  function, where the loop is destroyed.
\<close>

datatype tstage = T_New | T_Ready | T_Loop | T_Left | T_End

record lthread =
  th_stage :: tstage
  th_loop :: evloop
  th_ptr :: bool

definition thread_new :: lthread where
  "thread_new = \<lparr>th_stage = T_New, th_loop = loop_new, th_ptr = False\<rparr>"

definition thread_publish :: "lthread \<Rightarrow> lthread" where
  "thread_publish t = t\<lparr>th_stage := T_Ready, th_ptr := True\<rparr>"

definition thread_enter :: "lthread \<Rightarrow> lthread" where
  "thread_enter t = t\<lparr>th_stage := T_Loop, th_loop := loop_start (th_loop t)\<rparr>"

definition thread_leave :: "lthread \<Rightarrow> lthread" where
  "thread_leave t = t\<lparr>th_stage := T_Left\<rparr>"

definition thread_clear :: "lthread \<Rightarrow> lthread" where
  "thread_clear t = t\<lparr>th_stage := T_End, th_ptr := False\<rparr>"

inductive thread_step :: "lthread \<Rightarrow> lthread \<Rightarrow> bool" where
  publish: "th_stage t = T_New \<Longrightarrow> thread_step t (thread_publish t)"
| init_user: "th_stage t = T_Ready \<Longrightarrow> loop_thread (th_loop t) l \<Longrightarrow> phase l = Before \<Longrightarrow> quit l = quit (th_loop t) \<Longrightarrow>
    thread_step t (t\<lparr>th_loop := l\<rparr>)"
| enter: "th_stage t = T_Ready \<Longrightarrow> thread_step t (thread_enter t)"
| run: "th_stage t = T_Loop \<Longrightarrow> loop_thread (th_loop t) l \<Longrightarrow> quit l = quit (th_loop t) \<Longrightarrow>
    thread_step t (t\<lparr>th_loop := l\<rparr>)"
| leave: "th_stage t = T_Loop \<Longrightarrow> phase (th_loop t) = Stopped \<Longrightarrow> thread_step t (thread_leave t)"
| clear: "th_stage t = T_Left \<Longrightarrow> thread_step t (thread_clear t)"

section \<open>The server\<close>

text \<open>
  Where the thread of the server is: before \<open>start\<close>, about to start thread \<open>i\<close>, waiting for its pointer,
  after \<open>startInLoop\<close>, and in the destructor looking at the pointer of thread \<open>i\<close>, between the two halves of
  \<open>quit()\<close> on its loop, joining it, or done.
\<close>

datatype mstage = M_Idle | M_Spawn nat | M_Wait nat | M_Started | M_Quit nat | M_Wake nat | M_Join nat | M_Gone

text \<open>Thread \<open>i\<close> of the code is the element \<open>i - 1\<close> of the list; the first loop is the server's own.\<close>

record tserver =
  ts_numThreads :: nat
  ts_started :: bool
  ts_slots :: nat
  ts_main :: mstage
  ts_threads :: "lthread list"
  ts_asked :: "tstage list"

definition tserver_new :: tserver where
  "tserver_new = \<lparr>ts_numThreads = 1, ts_started = False, ts_slots = 0, ts_main = M_Idle, ts_threads = [], ts_asked = []\<rparr>"

definition setNumThread :: "bool \<Rightarrow> nat \<Rightarrow> tserver \<Rightarrow> error + tserver" where
  "setNumThread inL n s =
     bindE (assertE inL) (\<lambda>_.
     bindE (assertE (0 < n)) (\<lambda>_.
     bindE (assertE (\<not> ts_started s)) (\<lambda>_. Inr (s\<lparr>ts_numThreads := n, ts_slots := n\<rparr>))))"

text \<open>\<open>start()\<close>, called in the base loop's thread, so that \<open>startInLoop\<close> runs at once.\<close>

definition tserver_start :: "tserver \<Rightarrow> tserver" where
  "tserver_start s = (if ts_started s then s else s\<lparr>ts_started := True, ts_main := M_Spawn 1\<rparr>)"

definition spawn_next :: "nat \<Rightarrow> tserver \<Rightarrow> tserver" where
  "spawn_next i s =
     (if i < ts_numThreads s then s\<lparr>ts_threads := ts_threads s @ [thread_new], ts_main := M_Wait i\<rparr>
      else s\<lparr>ts_main := M_Started\<rparr>)"

definition wait_pointer :: "nat \<Rightarrow> tserver \<Rightarrow> tserver" where
  "wait_pointer i s = (if th_ptr (ts_threads s ! (i - 1)) then s\<lparr>ts_main := M_Spawn (Suc i)\<rparr> else s)"

definition pointer_of :: "nat \<Rightarrow> tserver \<Rightarrow> bool" where
  "pointer_of i s \<longleftrightarrow> 0 < i \<and> i - 1 < length (ts_threads s) \<and> th_ptr (ts_threads s ! (i - 1))"

definition upd_loop :: "nat \<Rightarrow> evloop \<Rightarrow> tserver \<Rightarrow> tserver" where
  "upd_loop i l s = s\<lparr>ts_threads := (ts_threads s)[i - 1 := (ts_threads s ! (i - 1))\<lparr>th_loop := l\<rparr>]\<rparr>"

text \<open>
  The first loop of the destructor: \<open>ts_asked\<close> remembers where each thread was when its loop was asked. Both halves of
  \<open>quit()\<close> use the loop; when the thread has ended by then, it is destroyed.
\<close>

definition ask_quit :: "nat \<Rightarrow> tserver \<Rightarrow> error + tserver" where
  "ask_quit i s =
     (if ts_slots s \<le> i then Inr (s\<lparr>ts_main := M_Join 1\<rparr>)
      else if \<not> pointer_of i s then Inr (s\<lparr>ts_main := M_Quit (Suc i)\<rparr>)
      else
        let t = ts_threads s ! (i - 1) in
        bindE (set_quit (th_loop t)) (\<lambda>l.
        Inr ((upd_loop i (l\<lparr>inflight := inflight l + 1\<rparr>) s)\<lparr>ts_main := M_Wake i, ts_asked := ts_asked s @ [th_stage t]\<rparr>)))"

definition wake_quit :: "nat \<Rightarrow> tserver \<Rightarrow> error + tserver" where
  "wake_quit i s =
     (let t = ts_threads s ! (i - 1); l = th_loop t in
      if th_stage t = T_End then Inl Use_After_Free
      else Inr ((upd_loop i ((queue_wake False l)\<lparr>inflight := inflight l - 1\<rparr>) s)\<lparr>ts_main := M_Quit (Suc i)\<rparr>))"

definition join_next :: "nat \<Rightarrow> tserver \<Rightarrow> tserver" where
  "join_next i s =
     (if length (ts_threads s) < i then s\<lparr>ts_main := M_Gone\<rparr>
      else if th_stage (ts_threads s ! (i - 1)) = T_End then s\<lparr>ts_main := M_Join (Suc i)\<rparr> else s)"

inductive main_step :: "tserver \<Rightarrow> tserver \<Rightarrow> bool" where
  configure: "ts_main s = M_Idle \<Longrightarrow> setNumThread True n s = Inr s' \<Longrightarrow> main_step s s'"
| start_server: "ts_main s = M_Idle \<Longrightarrow> main_step s (tserver_start s)"
| spawn: "ts_main s = M_Spawn i \<Longrightarrow> main_step s (spawn_next i s)"
| wait: "ts_main s = M_Wait i \<Longrightarrow> main_step s (wait_pointer i s)"
| destroy: "ts_main s = M_Started \<Longrightarrow> main_step s (s\<lparr>ts_main := M_Quit 0\<rparr>)"
| ask: "ts_main s = M_Quit i \<Longrightarrow> ask_quit i s = Inr s' \<Longrightarrow> main_step s s'"
| wake_asked: "ts_main s = M_Wake i \<Longrightarrow> wake_quit i s = Inr s' \<Longrightarrow> main_step s s'"
| join: "ts_main s = M_Join i \<Longrightarrow> main_step s (join_next i s)"

text \<open>Other threads queue tasks and wake the loop; the write that the destructor owes is its own.\<close>

definition owed :: "nat \<Rightarrow> tserver \<Rightarrow> nat" where
  "owed k s = (if ts_main s = M_Wake (Suc k) then 1 else 0)"

inductive tserver_reach :: "tserver \<Rightarrow> bool" where
  init: "tserver_reach tserver_new"
| by_main: "tserver_reach s \<Longrightarrow> main_step s s' \<Longrightarrow> tserver_reach s'"
| by_thread: "tserver_reach s \<Longrightarrow> k < length (ts_threads s) \<Longrightarrow> thread_step (ts_threads s ! k) t \<Longrightarrow>
    tserver_reach (s\<lparr>ts_threads := (ts_threads s)[k := t]\<rparr>)"
| by_push: "tserver_reach s \<Longrightarrow> k < length (ts_threads s) \<Longrightarrow> th_stage (ts_threads s ! k) \<in> {T_Ready, T_Loop} \<Longrightarrow>
    tserver_reach (s\<lparr>ts_threads := (ts_threads s)[k := (ts_threads s ! k)\<lparr>th_loop :=
      (push_task x (th_loop (ts_threads s ! k)))\<lparr>inflight := inflight (th_loop (ts_threads s ! k)) + 1\<rparr>\<rparr>]\<rparr>)"
| by_wake: "tserver_reach s \<Longrightarrow> k < length (ts_threads s) \<Longrightarrow> owed k s < inflight (th_loop (ts_threads s ! k)) \<Longrightarrow>
    tserver_reach (s\<lparr>ts_threads := (ts_threads s)[k := (ts_threads s ! k)\<lparr>th_loop :=
      (queue_wake False (th_loop (ts_threads s ! k)))\<lparr>inflight := inflight (th_loop (ts_threads s ! k)) - 1\<rparr>\<rparr>]\<rparr>)"

inductive_cases main_stepE: "main_step s s'"

section \<open>One thread\<close>

definition lthread_inv :: "lthread \<Rightarrow> bool" where
  "lthread_inv t \<longleftrightarrow> loop_inv (th_loop t) \<and> (phase (th_loop t) = Stopped \<longrightarrow> quit (th_loop t)) \<and>
     (case th_stage t of
        T_New \<Rightarrow> phase (th_loop t) = Before \<and> \<not> th_ptr t
      | T_Ready \<Rightarrow> phase (th_loop t) = Before \<and> th_ptr t
      | T_Loop \<Rightarrow> phase (th_loop t) \<noteq> Before \<and> th_ptr t
      | T_Left \<Rightarrow> phase (th_loop t) = Stopped \<and> th_ptr t
      | T_End \<Rightarrow> phase (th_loop t) = Stopped \<and> \<not> th_ptr t)"

lemma thread_new_inv: "lthread_inv thread_new"
  by (simp add: lthread_inv_def thread_new_def loop_inv_def loop_new_def)

lemma exec_act_frame:
  "exec_act a l = Inr (bs, l') \<Longrightarrow> inflight l' = inflight l \<and> phase l' = phase l"
  by (cases a) (auto simp: runInLoop_def quit_loop_def set_quit_def queueInLoop_def queue_wake_def push_task_def
      bindE_eq_Inr)

lemma loop_step_frame: "loop_step l = Inr l' \<Longrightarrow> inflight l' = inflight l"
  by (auto simp: loop_step_def tasks_begin_def tasks_end_def loop_handleRead_def bindE_eq_Inr dest!: exec_act_frame
      split: phase.splits list.splits handler.splits)

lemma loop_step_stops:
  "loop_step l = Inr l' \<Longrightarrow> in_loop l \<Longrightarrow> phase l' \<noteq> Before \<and> (phase l' = Stopped \<longrightarrow> quit l \<and> quit l')"
  by (auto simp: loop_step_def in_loop_def tasks_begin_def tasks_end_def bindE_eq_Inr
      split: phase.splits list.splits handler.splits if_splits)

lemma loop_thread_frame:
  "loop_thread l l' \<Longrightarrow> inflight l' = inflight l \<and> (phase l \<noteq> Before \<longrightarrow> phase l' \<noteq> Before \<and> (phase l' = Stopped \<longrightarrow> quit l'))"
  by (erule loop_threadE)
     (auto simp: queueInLoop_def queue_wake_def push_task_def quit_loop_def set_quit_def loop_start_def loop_poll_def
        bindE_eq_Inr dest: loop_step_frame loop_step_stops split: if_splits)

text \<open>What a step of a thread keeps.\<close>

definition thread_rel :: "lthread \<Rightarrow> lthread \<Rightarrow> bool" where
  "thread_rel t t' \<longleftrightarrow> lthread_inv t' \<and> inflight (th_loop t') = inflight (th_loop t) \<and>
     (th_stage t \<noteq> T_New \<longrightarrow> th_stage t' \<noteq> T_New) \<and>
     (\<not> quit (th_loop t) \<longrightarrow> \<not> quit (th_loop t')) \<and>
     (th_stage t \<noteq> T_New \<and> th_stage t \<noteq> T_Ready \<longrightarrow> th_stage t' \<noteq> T_Ready \<and> quit (th_loop t') = quit (th_loop t))"

lemma thread_step_ok: "thread_step t t' \<Longrightarrow> lthread_inv t \<Longrightarrow> thread_rel t t'"
proof (induction rule: thread_step.induct)
  case (publish t)
  then show ?case by (simp add: thread_rel_def lthread_inv_def thread_publish_def)
next
  case (init_user t l)
  then show ?case using loop_thread_inv[of "th_loop t" l] loop_thread_frame[of "th_loop t" l]
    by (simp add: thread_rel_def lthread_inv_def)
next
  case (enter t)
  then have "loop_thread (th_loop t) (loop_start (th_loop t))"
    by (intro loop_thread.start) (simp add: lthread_inv_def)
  then have "loop_inv (loop_start (th_loop t))" using enter loop_thread_inv by (simp add: lthread_inv_def)
  then show ?case using enter by (simp add: thread_rel_def lthread_inv_def thread_enter_def) (simp add: loop_start_def)
next
  case (run t l)
  then show ?case using loop_thread_inv[of "th_loop t" l] loop_thread_frame[of "th_loop t" l]
    by (simp add: thread_rel_def lthread_inv_def)
next
  case (leave t)
  then show ?case by (simp add: thread_rel_def lthread_inv_def thread_leave_def)
next
  case (clear t)
  then show ?case by (simp add: thread_rel_def lthread_inv_def thread_clear_def)
qed

text \<open>A step that another thread makes on the loop.\<close>

lemma outside_step_ok:
  assumes "lthread_inv t" and "other_thread (th_loop t) l"
    and "phase l = phase (th_loop t)" and "quit (th_loop t) \<longrightarrow> quit l"
  shows "lthread_inv (t\<lparr>th_loop := l\<rparr>)"
  using assms other_thread_inv[of "th_loop t" l] by (auto simp: lthread_inv_def split: tstage.splits)

section \<open>All threads\<close>

definition published :: "lthread \<Rightarrow> bool" where
  "published t \<longleftrightarrow> th_stage t \<noteq> T_New"

lemma published_loop [simp]: "published (t\<lparr>th_loop := l\<rparr>) = published t"
  by (simp add: published_def)

text \<open>A loop that was asked to quit while its thread was inside \<open>loop()\<close> keeps the request.\<close>

definition answered :: "tstage \<Rightarrow> lthread \<Rightarrow> bool" where
  "answered st t \<longleftrightarrow> published t \<and> (st = T_Loop \<longrightarrow> th_stage t \<noteq> T_Ready \<and> quit (th_loop t))"

definition all_ready :: "tserver \<Rightarrow> bool" where
  "all_ready s \<longleftrightarrow> length (ts_threads s) = ts_numThreads s - 1 \<and> (\<forall>t\<in>set (ts_threads s). published t)"

lemma all_ready_main [simp]: "all_ready (s\<lparr>ts_main := m\<rparr>) = all_ready s"
  by (simp add: all_ready_def)

fun main_ok :: "mstage \<Rightarrow> tserver \<Rightarrow> bool" where
  "main_ok M_Idle s = (ts_threads s = [] \<and> ts_asked s = [] \<and> \<not> ts_started s)"
| "main_ok (M_Spawn i) s = (0 < i \<and> i \<le> ts_numThreads s \<and> length (ts_threads s) = i - 1 \<and> ts_asked s = [] \<and>
     (\<forall>t\<in>set (ts_threads s). published t))"
| "main_ok (M_Wait i) s = (0 < i \<and> i < ts_numThreads s \<and> length (ts_threads s) = i \<and> ts_asked s = [] \<and>
     (\<forall>k<i - 1. published (ts_threads s ! k)))"
| "main_ok M_Started s = (all_ready s \<and> ts_asked s = [])"
| "main_ok (M_Quit i) s = (all_ready s \<and> length (ts_asked s) = i - 1 \<and> i \<le> ts_numThreads s)"
| "main_ok (M_Wake i) s = (all_ready s \<and> length (ts_asked s) = i \<and> 0 < i \<and> i < ts_numThreads s)"
| "main_ok (M_Join i) s = (all_ready s \<and> length (ts_asked s) = length (ts_threads s) \<and> 0 < i)"
| "main_ok M_Gone s = (all_ready s \<and> length (ts_asked s) = length (ts_threads s))"

definition conf_ok :: "tserver \<Rightarrow> bool" where
  "conf_ok s \<longleftrightarrow> 0 < ts_numThreads s \<and> (ts_slots s = ts_numThreads s \<or> ts_slots s = 0 \<and> ts_numThreads s = 1)"

definition thread_ok :: "tserver \<Rightarrow> nat \<Rightarrow> lthread \<Rightarrow> bool" where
  "thread_ok s k t \<longleftrightarrow> lthread_inv t \<and> owed k s \<le> inflight (th_loop t) \<and>
     (if k < length (ts_asked s) then answered (ts_asked s ! k) t else \<not> quit (th_loop t))"

definition tserver_inv :: "tserver \<Rightarrow> bool" where
  "tserver_inv s \<longleftrightarrow> conf_ok s \<and> main_ok (ts_main s) s \<and>
     (\<forall>k<length (ts_threads s). thread_ok s k (ts_threads s ! k))"

lemma published_all: "(\<forall>t\<in>set ts. published t) \<longleftrightarrow> (\<forall>k<length ts. published (ts ! k))"
  by (simp add: all_set_conv_all_nth)

lemma main_ok_update:
  assumes "main_ok m s" and "k < length (ts_threads s)" and "published (ts_threads s ! k) \<longrightarrow> published t"
  shows "main_ok m (s\<lparr>ts_threads := (ts_threads s)[k := t]\<rparr>)"
  using assms by (cases m) (auto simp: all_ready_def published_all nth_list_update)

lemma thread_update_inv:
  assumes "tserver_inv s" and k: "k < length (ts_threads s)"
    and p: "published (ts_threads s ! k) \<longrightarrow> published t" and t: "thread_ok s k t"
  shows "tserver_inv (s\<lparr>ts_threads := (ts_threads s)[k := t]\<rparr>)"
  using assms main_ok_update[OF _ k p, of "ts_main s"]
  by (auto simp: tserver_inv_def conf_ok_def thread_ok_def owed_def nth_list_update)

lemma thread_move_inv:
  assumes inv: "tserver_inv s" and k: "k < length (ts_threads s)" and st: "thread_step (ts_threads s ! k) t"
  shows "tserver_inv (s\<lparr>ts_threads := (ts_threads s)[k := t]\<rparr>)"
proof (rule thread_update_inv[OF inv k])
  have ok: "thread_ok s k (ts_threads s ! k)" using inv k by (simp add: tserver_inv_def)
  then have rel: "thread_rel (ts_threads s ! k) t" using thread_step_ok[OF st] by (simp add: thread_ok_def)
  then show "published (ts_threads s ! k) \<longrightarrow> published t" by (simp add: thread_rel_def published_def)
  show "thread_ok s k t" using ok rel
    by (auto simp: thread_ok_def thread_rel_def answered_def published_def split: if_splits)
qed

lemma outside_inv:
  assumes inv: "tserver_inv s" and k: "k < length (ts_threads s)" and st: "other_thread (th_loop (ts_threads s ! k)) l"
    and l: "phase l = phase (th_loop (ts_threads s ! k))" "quit l = quit (th_loop (ts_threads s ! k))" "owed k s \<le> inflight l"
  shows "tserver_inv (s\<lparr>ts_threads := (ts_threads s)[k := (ts_threads s ! k)\<lparr>th_loop := l\<rparr>]\<rparr>)"
proof (rule thread_update_inv[OF inv k])
  have ok: "thread_ok s k (ts_threads s ! k)" using inv k by (simp add: tserver_inv_def)
  show "published (ts_threads s ! k) \<longrightarrow> published ((ts_threads s ! k)\<lparr>th_loop := l\<rparr>)" by (simp add: published_def)
  have "lthread_inv ((ts_threads s ! k)\<lparr>th_loop := l\<rparr>)"
    using ok st l by (intro outside_step_ok) (simp_all add: thread_ok_def)
  then show "thread_ok s k ((ts_threads s ! k)\<lparr>th_loop := l\<rparr>)"
    using ok l by (auto simp: thread_ok_def answered_def split: if_splits)
qed

text \<open>The destructor asks one loop: the thread is inside its function, so the pointer is there and the assert of \<open>quit\<close> holds.\<close>

lemma ask_inv:
  assumes inv: "tserver_inv s" and m: "ts_main s = M_Quit i" and st: "ask_quit i s = Inr s'"
  shows "tserver_inv s'"
proof -
  have r: "all_ready s" "length (ts_asked s) = i - 1" "i \<le> ts_numThreads s" "conf_ok s"
    and ok: "\<forall>k<length (ts_threads s). thread_ok s k (ts_threads s ! k)"
    using inv m by (simp_all add: tserver_inv_def)
  have okm: "thread_ok (s\<lparr>ts_main := m'\<rparr>) k t" if "thread_ok s k t" "\<And>j. m' \<noteq> M_Wake j" for m' k t
    using that by (cases m') (auto simp: thread_ok_def owed_def)
  consider "ts_slots s \<le> i" | "i < ts_slots s" "\<not> pointer_of i s" | "i < ts_slots s" "pointer_of i s" by linarith
  then show ?thesis
  proof cases
    case 1
    then have "s' = s\<lparr>ts_main := M_Join 1\<rparr>" using st by (simp add: ask_quit_def)
    then show ?thesis using r ok okm 1 by (auto simp: tserver_inv_def conf_ok_def all_ready_def)
  next
    case 2
    then have s': "s' = s\<lparr>ts_main := M_Quit (Suc i)\<rparr>" using st by (simp add: ask_quit_def)
    have "i = 0"
    proof (rule ccontr)
      assume i: "i \<noteq> 0"
      then have k: "i - 1 < length (ts_threads s)" using 2 r by (auto simp: conf_ok_def all_ready_def)
      then have "published (ts_threads s ! (i - 1))" "thread_ok s (i - 1) (ts_threads s ! (i - 1))"
        using r(1) ok by (simp_all add: all_ready_def)
      then show False using 2(2) i k r(2)
        by (auto simp: thread_ok_def lthread_inv_def published_def pointer_of_def split: tstage.splits)
    qed
    then show ?thesis using r ok okm s' by (auto simp: tserver_inv_def conf_ok_def all_ready_def)
  next
    case 3
    let ?t = "ts_threads s ! (i - 1)"
    have i: "0 < i" and k: "i - 1 < length (ts_threads s)" using 3(2) by (simp_all add: pointer_of_def)
    have t: "lthread_inv ?t" "\<not> quit (th_loop ?t)" "published ?t"
      using ok k r by (auto simp: thread_ok_def all_ready_def)
    let ?l = "(th_loop ?t)\<lparr>quit := True, inflight := inflight (th_loop ?t) + 1\<rparr>"
    have s': "s' = s\<lparr>ts_threads := (ts_threads s)[i - 1 := ?t\<lparr>th_loop := ?l\<rparr>], ts_main := M_Wake i,
        ts_asked := ts_asked s @ [th_stage ?t]\<rparr>"
      using st 3 t(2) by (simp add: ask_quit_def Let_def set_quit_def upd_loop_def)
    have q: "other_thread (th_loop ?t) ?l"
      using other_thread.quit[of "th_loop ?t" "(th_loop ?t)\<lparr>quit := True\<rparr>"] t(2) by (simp add: set_quit_def)
    have "lthread_inv (?t\<lparr>th_loop := ?l\<rparr>)" by (rule outside_step_ok[OF t(1) q]) simp_all
    then have new: "thread_ok s' (i - 1) (?t\<lparr>th_loop := ?l\<rparr>)"
      using t r(2) s' by (auto simp: thread_ok_def answered_def published_def owed_def nth_append lthread_inv_def)
    have old: "thread_ok s' k' (ts_threads s ! k')" if "k' < length (ts_threads s)" "k' \<noteq> i - 1" for k'
    proof -
      have a: "ts_asked s' = ts_asked s @ [th_stage ?t]" "ts_main s' = M_Wake i" using s' by simp_all
      have "owed k' s' = 0" using a(2) that(2) i by (auto simp: owed_def)
      moreover have "thread_ok s k' (ts_threads s ! k')" using ok that(1) by simp
      ultimately show ?thesis using that(2) r(2) by (auto simp: thread_ok_def a(1) nth_append split: if_splits)
    qed
    have "main_ok (M_Wake i) s'"
      using r i 3(1) t(3) k unfolding s'
      by (auto simp: all_ready_def conf_ok_def published_all nth_list_update)
    then show ?thesis using r(4) old new k unfolding tserver_inv_def
      by (auto simp: s' conf_ok_def nth_list_update)
  qed
qed

lemma wake_inv:
  assumes inv: "tserver_inv s" and m: "ts_main s = M_Wake i" and st: "wake_quit i s = Inr s'"
  shows "tserver_inv s'"
proof -
  let ?l = "th_loop (ts_threads s ! (i - 1))"
  let ?l' = "(queue_wake False ?l)\<lparr>inflight := inflight ?l - 1\<rparr>"
  let ?s1 = "s\<lparr>ts_main := M_Quit (Suc i)\<rparr>"
  have r: "all_ready s" "0 < i" "i < ts_numThreads s" and ok: "\<forall>k<length (ts_threads s). thread_ok s k (ts_threads s ! k)"
    using inv m by (simp_all add: tserver_inv_def)
  then have k: "i - 1 < length (ts_threads ?s1)" by (simp add: all_ready_def)
  have "owed (i - 1) s = 1" using m r(2) by (simp add: owed_def)
  then have "0 < inflight ?l" using ok k by (auto simp: thread_ok_def)
  then have w: "other_thread (th_loop (ts_threads ?s1 ! (i - 1))) ?l'" using other_thread.wake[of ?l] by simp
  have "tserver_inv ?s1" using inv m by (auto simp: tserver_inv_def conf_ok_def thread_ok_def owed_def all_ready_def)
  from outside_inv[OF this k w] have "tserver_inv (?s1\<lparr>ts_threads := (ts_threads ?s1)[i - 1 := (ts_threads ?s1 ! (i - 1))\<lparr>th_loop := ?l'\<rparr>]\<rparr>)"
    by (simp add: queue_wake_def owed_def)
  moreover have "s' = ?s1\<lparr>ts_threads := (ts_threads ?s1)[i - 1 := (ts_threads ?s1 ! (i - 1))\<lparr>th_loop := ?l'\<rparr>]\<rparr>"
    using st by (cases s) (auto simp: wake_quit_def Let_def upd_loop_def split: if_splits)
  ultimately show ?thesis by simp
qed

lemma main_inv:
  assumes inv: "tserver_inv s" and st: "main_step s s'"
  shows "tserver_inv s'"
  using st
proof (cases rule: main_step.cases)
  case (configure n)
  then show ?thesis using inv
    by (auto simp: tserver_inv_def conf_ok_def setNumThread_def bindE_eq_Inr assertE_def split: if_splits)
next
  case start_server
  then show ?thesis using inv by (auto simp: tserver_inv_def conf_ok_def tserver_start_def)
next
  case (spawn i)
  have new: "thread_ok s'' k thread_new" if "ts_asked s'' = []" "owed k s'' = 0" for s'' k
    using that thread_new_inv by (simp add: thread_ok_def) (simp add: thread_new_def loop_new_def)
  have old: "thread_ok s'' k t" if "thread_ok s k t" "ts_asked s'' = ts_asked s" "owed k s'' = 0" for s'' k t
    using that by (simp add: thread_ok_def)
  show ?thesis
  proof (cases "i < ts_numThreads s")
    case True
    then have "s' = s\<lparr>ts_threads := ts_threads s @ [thread_new], ts_main := M_Wait i\<rparr>"
      using spawn by (simp add: spawn_next_def)
    then show ?thesis using inv spawn True new[of s'] old[of _ _ s']
      by (auto simp: tserver_inv_def conf_ok_def nth_append owed_def less_Suc_eq)
  next
    case False
    then have "s' = s\<lparr>ts_main := M_Started\<rparr>" using spawn by (simp add: spawn_next_def)
    then show ?thesis using inv spawn False old[of _ _ s']
      by (auto simp: tserver_inv_def conf_ok_def owed_def all_ready_def)
  qed
next
  case (wait i)
  show ?thesis
  proof (cases "th_ptr (ts_threads s ! (i - 1))")
    case True
    then have s': "s' = s\<lparr>ts_main := M_Spawn (Suc i)\<rparr>" using wait by (simp add: wait_pointer_def)
    have ok: "\<forall>k<length (ts_threads s). thread_ok s k (ts_threads s ! k)" and m: "main_ok (M_Wait i) s"
      using inv wait by (simp_all add: tserver_inv_def)
    have "lthread_inv (ts_threads s ! (i - 1))" using ok m by (simp add: thread_ok_def)
    then have "published (ts_threads s ! (i - 1))"
      using True by (auto simp: lthread_inv_def published_def)
    then have "published (ts_threads s ! k)" if "k < length (ts_threads s)" for k
      using m that by (cases "k = i - 1") auto
    then show ?thesis using inv m ok s'
      by (auto simp: tserver_inv_def conf_ok_def thread_ok_def owed_def published_all)
  next
    case False
    then show ?thesis using wait inv by (simp add: wait_pointer_def)
  qed
next
  case destroy
  then show ?thesis using inv
    by (auto simp: tserver_inv_def conf_ok_def thread_ok_def owed_def)
next
  case (ask i)
  then show ?thesis using ask_inv[OF inv] by simp
next
  case (wake_asked i)
  then show ?thesis using wake_inv[OF inv] by simp
next
  case (join i)
  then show ?thesis using inv
    by (auto simp: tserver_inv_def conf_ok_def thread_ok_def owed_def join_next_def)
qed

lemma tserver_reach_inv: "tserver_reach s \<Longrightarrow> tserver_inv s"
proof (induction rule: tserver_reach.induct)
  case init
  show ?case by (simp add: tserver_inv_def conf_ok_def tserver_new_def)
next
  case (by_main s s')
  then show ?case using main_inv by blast
next
  case (by_thread s k t)
  then show ?case using thread_move_inv by blast
next
  case (by_push s k x)
  let ?l = "th_loop (ts_threads s ! k)"
  have "owed k s \<le> inflight ?l" using by_push by (simp add: tserver_inv_def thread_ok_def)
  then show ?case using outside_inv[OF by_push.IH by_push.hyps(2) other_thread.push] by (simp add: push_task_def)
next
  case (by_wake s k)
  let ?l = "th_loop (ts_threads s ! k)"
  have "other_thread ?l ((queue_wake False ?l)\<lparr>inflight := inflight ?l - 1\<rparr>)"
    using by_wake.hyps(3) by (intro other_thread.wake) simp
  from outside_inv[OF by_wake.IH by_wake.hyps(2) this] show ?case using by_wake.hyps(3)
    by (simp add: queue_wake_def)
qed

section \<open>Properties\<close>

text \<open>
  C32: The threads of a server are started one after the other and none that was asked to end while its loop ran is
  forgotten. In every interleaving, once \<open>startInLoop\<close> has returned all \<open>n - 1\<close> threads have published their
  loops; and while the destructor joins the threads, every thread whose loop was running when it was asked to quit has ended,
  or has the request still set and is not blocked for good: in \<open>epoll_wait\<close> its eventfd is readable or about to be written.
\<close>

theorem server_threads_joined:
  assumes "tserver_reach s"
  shows "(ts_main s = M_Started \<longrightarrow> length (ts_threads s) = ts_numThreads s - 1 \<and> (\<forall>t\<in>set (ts_threads s). th_ptr t)) \<and>
    (\<forall>i k. ts_main s = M_Join i \<and> k < length (ts_threads s) \<and> ts_asked s ! k = T_Loop \<longrightarrow>
       th_stage (ts_threads s ! k) = T_End \<or>
       quit (th_loop (ts_threads s ! k)) \<and>
       (phase (th_loop (ts_threads s ! k)) = Polling \<longrightarrow>
          0 < wakeups (th_loop (ts_threads s ! k)) \<or> 0 < inflight (th_loop (ts_threads s ! k))))"
proof (intro conjI impI allI)
  have inv: "tserver_inv s" using assms by (rule tserver_reach_inv)
  {
    assume m: "ts_main s = M_Started"
    then show "length (ts_threads s) = ts_numThreads s - 1" using inv by (simp add: tserver_inv_def all_ready_def)
    have "th_ptr (ts_threads s ! k)" if "k < length (ts_threads s)" for k
      using inv m that
      by (cases "th_stage (ts_threads s ! k)")
         (auto simp: tserver_inv_def all_ready_def thread_ok_def lthread_inv_def published_all published_def)
    then show "\<forall>t\<in>set (ts_threads s). th_ptr t" by (simp add: all_set_conv_all_nth)
  }
  fix i k
  assume a: "ts_main s = M_Join i \<and> k < length (ts_threads s) \<and> ts_asked s ! k = T_Loop"
  let ?t = "ts_threads s ! k"
  have "thread_ok s k ?t" "k < length (ts_asked s)" using inv a by (auto simp: tserver_inv_def)
  then have "lthread_inv ?t" "quit (th_loop ?t)" using a by (simp_all add: thread_ok_def answered_def)
  then show "th_stage ?t = T_End \<or> quit (th_loop ?t) \<and> (phase (th_loop ?t) = Polling \<longrightarrow> 0 < wakeups (th_loop ?t) \<or> 0 < inflight (th_loop ?t))"
    by (auto simp: lthread_inv_def loop_inv_def awake_def)
qed

text \<open>A server with two loops, one of them in a thread.\<close>

definition two_loops :: "mstage \<Rightarrow> lthread \<Rightarrow> tstage list \<Rightarrow> tserver" where
  "two_loops m t a = \<lparr>ts_numThreads = 2, ts_started = True, ts_slots = 2, ts_main = m, ts_threads = [t], ts_asked = a\<rparr>"

lemma two_loops_thread: "tserver_reach (two_loops m t a) \<Longrightarrow> thread_step t t' \<Longrightarrow> tserver_reach (two_loops m t' a)"
  using by_thread[of "two_loops m t a" 0 t'] by (simp add: two_loops_def)

lemma two_loops_main: "tserver_reach (two_loops m t a) \<Longrightarrow> main_step (two_loops m t a) (two_loops m' t' a') \<Longrightarrow>
    tserver_reach (two_loops m' t' a')"
  by (rule by_main)

lemma two_loops_spawned: "tserver_reach (two_loops (M_Wait 1) thread_new [])"
proof -
  have 1: "tserver_reach (tserver_new\<lparr>ts_numThreads := 2, ts_slots := 2\<rparr>)"
    by (rule by_main[OF init configure[of _ 2]]) (simp_all add: tserver_new_def setNumThread_def)
  have 2: "tserver_reach ((tserver_new\<lparr>ts_numThreads := 2, ts_slots := 2\<rparr>)\<lparr>ts_started := True, ts_main := M_Spawn 1\<rparr>)"
    using by_main[OF 1 start_server] by (simp add: tserver_new_def tserver_start_def)
  show ?thesis
    using by_main[OF 2 spawn[of _ 1]] by (simp add: tserver_new_def spawn_next_def two_loops_def)
qed

lemma two_loops_return:
  assumes "tserver_reach (two_loops (M_Wait 1) t [])" and "th_ptr t"
  shows "tserver_reach (two_loops M_Started t [])"
proof -
  have 1: "tserver_reach (two_loops (M_Spawn 2) t [])"
    using by_main[OF assms(1) wait[of _ 1]] assms(2) by (simp add: wait_pointer_def two_loops_def numeral_2_eq_2)
  show ?thesis
    using by_main[OF 1 spawn[of _ 2]] by (simp add: spawn_next_def two_loops_def)
qed

lemma two_loops_started: "tserver_reach (two_loops M_Started (thread_publish thread_new) [])"
proof (rule two_loops_return)
  show "tserver_reach (two_loops (M_Wait 1) (thread_publish thread_new) [])"
    by (rule two_loops_thread[OF two_loops_spawned publish]) (simp add: thread_new_def)
qed (simp add: thread_publish_def)

text \<open>The destructor sets the flag of the loop of a thread that has published it.\<close>

lemma two_loops_ask:
  assumes "tserver_reach (two_loops M_Started t [])" and "th_ptr t" and "\<not> quit (th_loop t)"
  shows "tserver_reach (two_loops (M_Wake 1)
    (t\<lparr>th_loop := (th_loop t)\<lparr>quit := True, inflight := inflight (th_loop t) + 1\<rparr>\<rparr>) [th_stage t])"
proof -
  have 1: "tserver_reach (two_loops (M_Quit 0) t [])"
    using by_main[OF assms(1) destroy] by (simp add: two_loops_def)
  have 2: "tserver_reach (two_loops (M_Quit 1) t [])"
    using by_main[OF 1 ask[of _ 0]] by (simp add: two_loops_def ask_quit_def pointer_of_def)
  show ?thesis
    using by_main[OF 2 ask[of _ 1]] assms(2,3)
    by (simp add: two_loops_def ask_quit_def pointer_of_def set_quit_def upd_loop_def Let_def)
qed

lemma two_loops_wake:
  assumes "tserver_reach (two_loops (M_Wake 1) t a)" and "th_stage t \<noteq> T_End"
  shows "tserver_reach (two_loops (M_Join 1)
    (t\<lparr>th_loop := (queue_wake False (th_loop t))\<lparr>inflight := inflight (th_loop t) - 1\<rparr>\<rparr>) a)"
proof -
  have 1: "tserver_reach (two_loops (M_Quit 2) (t\<lparr>th_loop := (queue_wake False (th_loop t))\<lparr>inflight := inflight (th_loop t) - 1\<rparr>\<rparr>) a)"
    using by_main[OF assms(1) wake_asked[of _ 1]] assms(2)
    by (simp add: two_loops_def wake_quit_def upd_loop_def Let_def numeral_2_eq_2)
  show ?thesis using by_main[OF 1 ask[of _ 2]] by (simp add: two_loops_def ask_quit_def)
qed

lemma two_loops_join:
  assumes "tserver_reach (two_loops (M_Join 1) t a)" and "th_stage t = T_End"
  shows "tserver_reach (two_loops M_Gone t a)"
proof -
  have 1: "tserver_reach (two_loops (M_Join 2) t a)"
    using by_main[OF assms(1) join[of _ 1]] assms(2) by (simp add: two_loops_def join_next_def numeral_2_eq_2)
  show ?thesis using by_main[OF 1 join[of _ 2]] by (simp add: two_loops_def join_next_def)
qed

text \<open>A thread whose loop has nothing to do, at some phase.\<close>

definition idle :: "tstage \<Rightarrow> phase \<Rightarrow> nat \<Rightarrow> bool \<Rightarrow> bool \<Rightarrow> lthread" where
  "idle st ph w q d =
     \<lparr>th_stage = st, th_loop = loop_new\<lparr>phase := ph, wakeups := w, quit := q, doingPendingTasks := d\<rparr>, th_ptr = True\<rparr>"

lemma idle_step:
  assumes "tserver_reach (two_loops m (idle T_Loop ph w q d) a)" and "ph \<noteq> Before" "ph \<noteq> Polling" "ph \<noteq> Stopped"
    and "loop_step (loop_new\<lparr>phase := ph, wakeups := w, quit := q, doingPendingTasks := d\<rparr>) =
      Inr (loop_new\<lparr>phase := ph', wakeups := w', quit := q, doingPendingTasks := d'\<rparr>)"
  shows "tserver_reach (two_loops m (idle T_Loop ph' w' q d') a)"
proof -
  let ?l' = "loop_new\<lparr>phase := ph', wakeups := w', quit := q, doingPendingTasks := d'\<rparr>"
  have "loop_thread (th_loop (idle T_Loop ph w q d)) ?l'"
    by (rule loop_thread.step) (use assms in \<open>simp_all add: idle_def in_loop_def\<close>)
  then have "thread_step (idle T_Loop ph w q d) ((idle T_Loop ph w q d)\<lparr>th_loop := ?l'\<rparr>)"
    by (intro run) (simp_all add: idle_def)
  then show ?thesis using two_loops_thread[OF assms(1)] by (simp add: idle_def)
qed

text \<open>The thread enters its loop after the request: the request is gone, and the loop ends up blocked.\<close>

lemma request_lost: "tserver_reach (two_loops (M_Join 1) (idle T_Loop Polling 0 False False) [T_Ready])"
proof -
  have 1: "tserver_reach (two_loops (M_Wake 1) ((idle T_Ready Before 0 True False)\<lparr>th_loop := (th_loop (idle T_Ready Before 0 True False))\<lparr>inflight := 1\<rparr>\<rparr>) [T_Ready])"
    using two_loops_ask[OF two_loops_started] by (simp add: thread_publish_def thread_new_def loop_new_def idle_def)
  have 3: "tserver_reach (two_loops (M_Join 1) (idle T_Ready Before 1 True False) [T_Ready])"
    using two_loops_wake[OF 1] by (simp add: idle_def queue_wake_def wakeup_def loop_new_def)
  have 4: "tserver_reach (two_loops (M_Join 1) (idle T_Loop Check 1 False False) [T_Ready])"
    using two_loops_thread[OF 3 enter] by (simp add: idle_def thread_enter_def loop_start_def loop_new_def)
  have 5: "tserver_reach (two_loops (M_Join 1) (idle T_Loop Polling 1 False False) [T_Ready])"
    by (rule idle_step[OF 4]) (simp_all add: loop_step_def loop_new_def)
  have "thread_step (idle T_Loop Polling 1 False False) (idle T_Loop (Handling [H_ReadWakeup]) 1 False False)"
    using run[of "idle T_Loop Polling 1 False False" "loop_poll [] [] (th_loop (idle T_Loop Polling 1 False False))"]
      loop_thread.poll[of "th_loop (idle T_Loop Polling 1 False False)" "[]" "[]"]
    by (simp add: idle_def loop_poll_def loop_new_def)
  then have 6: "tserver_reach (two_loops (M_Join 1) (idle T_Loop (Handling [H_ReadWakeup]) 1 False False) [T_Ready])"
    by (rule two_loops_thread[OF 5])
  have 7: "tserver_reach (two_loops (M_Join 1) (idle T_Loop (Handling []) 0 False False) [T_Ready])"
    by (rule idle_step[OF 6]) (simp_all add: loop_step_def loop_new_def loop_handleRead_def)
  have 8: "tserver_reach (two_loops (M_Join 1) (idle T_Loop (Doing [] []) 0 False True) [T_Ready])"
    by (rule idle_step[OF 7]) (simp_all add: loop_step_def loop_new_def tasks_begin_def)
  have 9: "tserver_reach (two_loops (M_Join 1) (idle T_Loop Check 0 False False) [T_Ready])"
    by (rule idle_step[OF 8]) (simp_all add: loop_step_def loop_new_def tasks_end_def)
  show ?thesis by (rule idle_step[OF 9]) (simp_all add: loop_step_def loop_new_def)
qed

text \<open>The thread sees the flag, ends and destroys its loop before the destructor writes to the eventfd.\<close>

lemma loop_destroyed_first:
  "\<exists>t. tserver_reach (two_loops (M_Wake 1) t [T_Loop]) \<and> wake_quit 1 (two_loops (M_Wake 1) t [T_Loop]) = Inl Use_After_Free"
proof -
  have 1: "tserver_reach (two_loops M_Started (idle T_Loop Check 0 False False) [])"
    using two_loops_thread[OF two_loops_started enter]
    by (simp add: thread_publish_def thread_new_def thread_enter_def loop_start_def loop_new_def idle_def)
  let ?t = "(idle T_Loop Check 0 True False)\<lparr>th_loop := (th_loop (idle T_Loop Check 0 True False))\<lparr>inflight := 1\<rparr>\<rparr>"
  have 2: "tserver_reach (two_loops (M_Wake 1) ?t [T_Loop])"
    using two_loops_ask[OF 1] by (simp add: idle_def loop_new_def)
  let ?t2 = "?t\<lparr>th_loop := (th_loop ?t)\<lparr>phase := Stopped\<rparr>\<rparr>"
  have "loop_thread (th_loop ?t) ((th_loop ?t)\<lparr>phase := Stopped\<rparr>)"
    by (rule loop_thread.step) (simp_all add: idle_def in_loop_def loop_step_def loop_new_def)
  then have "thread_step ?t ?t2" by (intro run) (simp_all add: idle_def)
  from two_loops_thread[OF 2 this] have 3: "tserver_reach (two_loops (M_Wake 1) ?t2 [T_Loop])" .
  have 4: "tserver_reach (two_loops (M_Wake 1) (thread_leave ?t2) [T_Loop])"
    by (rule two_loops_thread[OF 3 leave]) (simp_all add: idle_def)
  have "tserver_reach (two_loops (M_Wake 1) (thread_clear (thread_leave ?t2)) [T_Loop])"
    by (rule two_loops_thread[OF 4 clear]) (simp add: thread_leave_def)
  moreover have "wake_quit 1 (two_loops (M_Wake 1) (thread_clear (thread_leave ?t2)) [T_Loop]) = Inl Use_After_Free"
    by (simp add: wake_quit_def two_loops_def thread_clear_def)
  ultimately show ?thesis by blast
qed

text \<open>
  C33: The destructor of a server can wait for ever and can use a destroyed loop. A thread that has published its
  loop and not entered it yet clears the request to quit: a state is reachable in which the destructor joins a
  thread that is blocked in \<open>epoll_wait\<close> without a request, a wake-up or a task. And between the two halves of \<open>quit()\<close>
  the thread may see the flag and end, so that the second half uses a loop that no longer exists.
\<close>

theorem destructor_races:
  "(\<exists>s t. tserver_reach s \<and> ts_main s = M_Join 1 \<and> ts_threads s = [t] \<and> th_stage t = T_Loop \<and>
      phase (th_loop t) = Polling \<and> \<not> quit (th_loop t) \<and> wakeups (th_loop t) = 0 \<and> inflight (th_loop t) = 0 \<and>
      pendingTasks (th_loop t) = []) \<and>
   (\<exists>s. tserver_reach s \<and> ts_main s = M_Wake 1 \<and> wake_quit 1 s = Inl Use_After_Free)"
proof
  show "\<exists>s t. tserver_reach s \<and> ts_main s = M_Join 1 \<and> ts_threads s = [t] \<and> th_stage t = T_Loop \<and>
      phase (th_loop t) = Polling \<and> \<not> quit (th_loop t) \<and> wakeups (th_loop t) = 0 \<and> inflight (th_loop t) = 0 \<and>
      pendingTasks (th_loop t) = []"
    using request_lost
    by (intro exI[of _ "two_loops (M_Join 1) (idle T_Loop Polling 0 False False) [T_Ready]"] exI[of _ "idle T_Loop Polling 0 False False"])
       (simp add: two_loops_def idle_def loop_new_def)
  show "\<exists>s. tserver_reach s \<and> ts_main s = M_Wake 1 \<and> wake_quit 1 s = Inl Use_After_Free"
    using loop_destroyed_first by (auto simp: two_loops_def)
qed

text \<open>The thread waits in \<open>epoll_wait\<close> when it is asked, and is woken.\<close>

lemma server_threads_joined_witness:
  "\<exists>s t. tserver_reach s \<and> ts_main s = M_Join 1 \<and> ts_threads s = [t] \<and> phase (th_loop t) = Polling \<and>
     quit (th_loop t) \<and> 0 < wakeups (th_loop t) + inflight (th_loop t)"
proof -
  have 1: "tserver_reach (two_loops M_Started (idle T_Loop Check 0 False False) [])"
    using two_loops_thread[OF two_loops_started enter]
    by (simp add: thread_publish_def thread_new_def thread_enter_def loop_start_def loop_new_def idle_def)
  have 2: "tserver_reach (two_loops M_Started (idle T_Loop Polling 0 False False) [])"
    by (rule idle_step[OF 1]) (simp_all add: loop_step_def loop_new_def)
  have 3: "tserver_reach (two_loops (M_Wake 1) ((idle T_Loop Polling 0 True False)\<lparr>th_loop := (th_loop (idle T_Loop Polling 0 True False))\<lparr>inflight := 1\<rparr>\<rparr>) [T_Loop])"
    using two_loops_ask[OF 2] by (simp add: idle_def loop_new_def)
  have 5: "tserver_reach (two_loops (M_Join 1) (idle T_Loop Polling 1 True False) [T_Loop])"
    using two_loops_wake[OF 3] by (simp add: idle_def queue_wake_def wakeup_def loop_new_def)
  show ?thesis using server_threads_joined[OF 5] 5
    by (intro exI[of _ "two_loops (M_Join 1) (idle T_Loop Polling 1 True False) [T_Loop]"] exI[of _ "idle T_Loop Polling 1 True False"])
       (simp add: two_loops_def idle_def loop_new_def)
qed

section \<open>EventLoopThread\<close>

text \<open>
  One thread, waited for with a latch. \<open>M_Wait 1\<close> is the wait of \<open>startLoop\<close>, \<open>M_Started\<close> its return; the
  other stages are those of the destructor.
\<close>

record elthread =
  el_started :: bool
  el_main :: mstage
  el_thread :: lthread
  el_asked :: "tstage list"

definition elthread_new :: elthread where
  "elthread_new = \<lparr>el_started = False, el_main = M_Idle, el_thread = thread_new, el_asked = []\<rparr>"

definition startLoop :: "elthread \<Rightarrow> error + elthread" where
  "startLoop s =
     bindE (assertE (\<not> el_started s)) (\<lambda>_.
     bindE (assertE (\<not> th_ptr (el_thread s))) (\<lambda>_.
     Inr (s\<lparr>el_started := True, el_main := M_Wait 1\<rparr>)))"

text \<open>The latch opens when the thread has published its loop.\<close>

definition startLoop_return :: "elthread \<Rightarrow> error + elthread" where
  "startLoop_return s =
     (if th_stage (el_thread s) = T_New then Inr s
      else bindE (assertE (th_ptr (el_thread s))) (\<lambda>_. Inr (s\<lparr>el_main := M_Started\<rparr>)))"

definition elthread_destroy :: "elthread \<Rightarrow> error + elthread" where
  "elthread_destroy s =
     (if \<not> el_started s then Inr (s\<lparr>el_main := M_Gone\<rparr>)
      else if th_ptr (el_thread s) then
        bindE (set_quit (th_loop (el_thread s))) (\<lambda>l.
        Inr (s\<lparr>el_main := M_Wake 1, el_thread := (el_thread s)\<lparr>th_loop := l\<lparr>inflight := inflight l + 1\<rparr>\<rparr>,
               el_asked := [th_stage (el_thread s)]\<rparr>))
      else Inr (s\<lparr>el_main := M_Join 1\<rparr>))"

definition elthread_wake :: "elthread \<Rightarrow> error + elthread" where
  "elthread_wake s =
     (let l = th_loop (el_thread s) in
      if th_stage (el_thread s) = T_End then Inl Use_After_Free
      else Inr (s\<lparr>el_main := M_Join 1,
                  el_thread := (el_thread s)\<lparr>th_loop := (queue_wake False l)\<lparr>inflight := inflight l - 1\<rparr>\<rparr>\<rparr>))"

definition elthread_join :: "elthread \<Rightarrow> elthread" where
  "elthread_join s = (if th_stage (el_thread s) = T_End then s\<lparr>el_main := M_Gone\<rparr> else s)"

inductive elthread_reach :: "elthread \<Rightarrow> bool" where
  el_init: "elthread_reach elthread_new"
| el_start: "elthread_reach s \<Longrightarrow> el_main s = M_Idle \<Longrightarrow> startLoop s = Inr s' \<Longrightarrow> elthread_reach s'"
| el_return: "elthread_reach s \<Longrightarrow> el_main s = M_Wait 1 \<Longrightarrow> startLoop_return s = Inr s' \<Longrightarrow> elthread_reach s'"
| el_destroy: "elthread_reach s \<Longrightarrow> el_main s = M_Started \<Longrightarrow> elthread_destroy s = Inr s' \<Longrightarrow> elthread_reach s'"
| el_wake: "elthread_reach s \<Longrightarrow> el_main s = M_Wake 1 \<Longrightarrow> elthread_wake s = Inr s' \<Longrightarrow> elthread_reach s'"
| el_join: "elthread_reach s \<Longrightarrow> el_main s = M_Join 1 \<Longrightarrow> elthread_reach (elthread_join s)"
| el_thread: "elthread_reach s \<Longrightarrow> el_started s \<Longrightarrow> thread_step (el_thread s) t \<Longrightarrow> elthread_reach (s\<lparr>el_thread := t\<rparr>)"

text \<open>
  C34: An \<open>EventLoopThread\<close> that has been started does nothing that a server with two loops does not do: its stage, its thread and
  the request it has made are those of a reachable state of such a server, so what holds of the thread of every such
  server holds of its thread.
\<close>

theorem elthread_refines_server:
  "elthread_reach s \<Longrightarrow> if el_started s then tserver_reach (two_loops (el_main s) (el_thread s) (el_asked s)) \<and>
      (el_main s = M_Wait 1 \<or> el_main s = M_Started \<longrightarrow> el_asked s = []) else s = elthread_new"
proof (induction rule: elthread_reach.induct)
  case el_init
  show ?case by (simp add: elthread_new_def)
next
  case (el_start s s')
  then show ?case using two_loops_spawned
    by (auto simp: startLoop_def elthread_new_def bindE_eq_Inr two_loops_def split: if_splits)
next
  case (el_return s s')
  then show ?case using two_loops_return[of "el_thread s"]
    by (auto simp: startLoop_return_def elthread_new_def bindE_eq_Inr assertE_def split: if_splits)
next
  case (el_destroy s s')
  have st: "el_started s" "tserver_reach (two_loops M_Started (el_thread s) [])" "el_asked s = []"
    using el_destroy by (auto simp: elthread_new_def split: if_splits)
  have "tserver_inv (two_loops M_Started (el_thread s) [])" using st(2) by (rule tserver_reach_inv)
  then have t: "lthread_inv (el_thread s)" "published (el_thread s)" "\<not> quit (th_loop (el_thread s))"
    by (simp_all add: tserver_inv_def two_loops_def all_ready_def thread_ok_def)
  then have p: "th_ptr (el_thread s)" by (auto simp: lthread_inv_def published_def split: tstage.splits)
  show ?case using el_destroy.hyps st p t(3) two_loops_ask[OF st(2) p t(3)]
    by (auto simp: elthread_destroy_def set_quit_def)
next
  case (el_wake s s')
  then show ?case using two_loops_wake[of "el_thread s" "el_asked s"]
    by (auto simp: elthread_wake_def elthread_new_def Let_def split: if_splits)
next
  case (el_join s)
  then show ?case using two_loops_join[of "el_thread s" "el_asked s"]
    by (auto simp: elthread_join_def elthread_new_def split: if_splits)
next
  case (el_thread s t)
  then show ?case using two_loops_thread by (auto simp: elthread_new_def)
qed

lemma elthread_refines_server_witness:
  "\<exists>s. elthread_reach s \<and> el_main s = M_Wait 1 \<and> th_stage (el_thread s) = T_Ready \<and>
     tserver_reach (two_loops (M_Wait 1) (el_thread s) [])"
proof -
  let ?s = "elthread_new\<lparr>el_started := True, el_main := M_Wait 1\<rparr>"
  have 1: "elthread_reach ?s"
    by (rule el_start[OF el_init]) (simp_all add: startLoop_def elthread_new_def thread_new_def)
  have 2: "elthread_reach (?s\<lparr>el_thread := thread_publish thread_new\<rparr>)"
    by (rule el_thread[OF 1]) (auto simp: elthread_new_def thread_new_def intro: publish)
  show ?thesis using elthread_refines_server[OF 2] 2
    by (intro exI[of _ "?s\<lparr>el_thread := thread_publish thread_new\<rparr>"]) (simp add: elthread_new_def thread_publish_def)
qed

end
