(* ===== verification/Ev_ServerApp.thy ===== *)
theory Ev_ServerApp
  imports Ev_Server
begin

text \<open>
  What the programs on top of a server share: how the results of a server's steps and of the handlers of a connection
  look when they succeed, and the locale \<open>conn_app\<close>, the contract of a program that keeps a property of each of its connections
  in its callbacks; the property then holds after every event.
\<close>

section \<open>Sending and writing\<close>

text \<open>The message callback runs: the dispatch reads, and there is something to read.\<close>

definition delivered :: "read_result \<Rightarrow> string" where
  "delivered rr = (case rr of Read_Ok ds \<Rightarrow> ds | Read_Err er \<Rightarrow> [])"

definition message_runs :: "read_result \<Rightarrow> evmask \<Rightarrow> conn \<Rightarrow> bool" where
  "message_runs rr revs c \<longleftrightarrow> ReadCb \<in> set (dispatch (setRevents revs (chan c))) \<and> delivered rr \<noteq> []"

text \<open>The message is lost: \<open>send\<close> gives it to \<open>write\<close>, which fails for good.\<close>

definition gives_up :: "write_result \<Rightarrow> conn \<Rightarrow> bool" where
  "gives_up wr c \<longleftrightarrow> connected c \<and> \<not> isWriting (chan c) \<and> (wr = Write_Err EPIPE \<or> wr = Write_Err ECONNRESET)"

text \<open>What sending leaves alone besides: the callback and the interest in reading.\<close>

lemma update_events: "loop_updateChannel inL ch = Inr (ch', k) \<Longrightarrow> events ch' = events ch"
  by (auto simp: loop_updateChannel_def poller_updateChannel_def bindE_eq_Inr split: if_splits)

definition reads_alike :: "conn \<Rightarrow> conn \<Rightarrow> bool" where
  "reads_alike c c' \<longleftrightarrow> hasWriteCompleteCb c' = hasWriteCompleteCb c \<and> hasHighWaterCb c' = hasHighWaterCb c \<and> isReading (chan c') = isReading (chan c)"

lemma reads_alike_write:
  "on_chan (enableWrite inL) c = Inr c' \<Longrightarrow> reads_alike c c'"
  "on_chan (disableWrite inL) c = Inr c' \<Longrightarrow> reads_alike c c'"
  by (auto simp: on_chan_def enableWrite_def disableWrite_def reads_alike_def isReading_def bindE_eq_Inr dest!: update_events)

lemma sendInLoop_reads_alike: "sendInLoop inL wr data c = Inr c' \<Longrightarrow> reads_alike c c'"
  by (auto simp: sendInLoop_def bindE_eq_Inr Let_def reads_alike_def queue_task_def dest!: reads_alike_write
      split: if_splits write_result.splits)

lemma disableWrite_off: "on_chan (disableWrite inL) c = Inr c' \<Longrightarrow> \<not> isWriting (chan c')"
  by (auto simp: on_chan_def disableWrite_def isWriting_def bindE_eq_Inr dest!: update_events)

text \<open>\<open>handleWrite\<close>: when the output runs empty, the completion is queued.\<close>

lemma handleWrite_Inr:
  assumes "handleWrite (Wrote n) c = Inr c'" and "state c \<noteq> kDisconnected"
  obtains ob where "retrieve n (outputBuffer c) = Inr ob" "inputBuffer c' = inputBuffer c" "outputBuffer c' = ob"
    "reads_alike c c'" "wrShut c' \<longleftrightarrow> wrShut c \<or> state c = kDisconnecting \<and> readableBytes ob = 0"
    "pendingTasks c' = pendingTasks c @ (if readableBytes ob = 0 \<and> hasWriteCompleteCb c then [Task_WriteComplete] else [])"
proof -
  obtain ob where ob: "retrieve n (outputBuffer c) = Inr ob"
    using assms by (auto simp: handleWrite_def bindE_eq_Inr)
  let ?c1 = "c\<lparr>wire := wire c @ take n (subrange (peek (outputBuffer c)) (peek (outputBuffer c) + readableBytes (outputBuffer c))
      (bytes (outputBuffer c))), outputBuffer := ob\<rparr>"
  show ?thesis
  proof (cases "readableBytes ob = 0")
    case False
    then have "c' = ?c1" using assms ob by (auto simp: handleWrite_def bindE_eq_Inr Let_def)
    then show ?thesis using ob False by (intro that[of ob]) (simp_all add: reads_alike_def)
  next
    case True
    then obtain c2 c3 where c23: "on_chan (disableWrite True) ?c1 = Inr c2"
      "(if state c2 = kDisconnecting then shutdownInLoop True c2 else Inr c2) = Inr c3"
      "c' = (if hasWriteCompleteCb c3 then queue_task Task_WriteComplete c3 else c3)"
      using assms ob by (auto simp: handleWrite_def bindE_eq_Inr Let_def)
    have 2: "reads_alike ?c1 c2" "inputBuffer c2 = inputBuffer c" "outputBuffer c2 = ob" "pendingTasks c2 = pendingTasks c"
      using c23(1) reads_alike_write(2)[OF c23(1)] by (auto simp: on_chan_def bindE_eq_Inr)
    have st: "state c2 = state c" "wrShut c2 = wrShut c" using c23(1) by (auto simp: on_chan_def bindE_eq_Inr)
    have "\<not> isWriting (chan c2)" by (rule disableWrite_off[OF c23(1)])
    then have "c3 = (if state c = kDisconnecting then c2\<lparr>wrShut := True\<rparr> else c2)"
      using c23(2) st(1) assms(2) by (auto simp: shutdownInLoop_def split: if_splits)
    then have 3: "reads_alike c c3 \<and> inputBuffer c3 = inputBuffer c \<and> outputBuffer c3 = ob \<and> pendingTasks c3 = pendingTasks c \<and>
        (wrShut c3 \<longleftrightarrow> wrShut c \<or> state c = kDisconnecting)"
      using 2 st(2) by (simp add: reads_alike_def)
    show ?thesis
    proof (rule that[OF ob])
      show "reads_alike c c'" "inputBuffer c' = inputBuffer c" "outputBuffer c' = ob"
        using c23(3) 3 by (simp_all add: reads_alike_def queue_task_def)
      show "pendingTasks c' = pendingTasks c @ (if readableBytes ob = 0 \<and> hasWriteCompleteCb c then [Task_WriteComplete] else [])"
        using c23(3) 3 True by (simp add: reads_alike_def queue_task_def)
      show "wrShut c' \<longleftrightarrow> wrShut c \<or> state c = kDisconnecting \<and> readableBytes ob = 0"
        using c23(3) 3 True by (simp add: queue_task_def)
    qed
  qed
qed

lemma handleClose_Inr:
  "handleClose True [] c = Inr c' \<Longrightarrow> disconnected c' \<and> taken c' = taken c \<and> pendingTasks c' = pendingTasks c \<and>
     hasWriteCompleteCb c' = hasWriteCompleteCb c \<and> hasHighWaterCb c' = hasHighWaterCb c"
  by (auto simp: handleClose_def user_cb_def on_chan_def bindE_eq_Inr disconnected_def split: if_splits)

section \<open>Steps of the server\<close>

lemma server_conn_Inr:
  assumes "server_exec (SL_Conn i l) s = Inr s'"
  shows "exec l (sv_objs s ! i) = Inr (sv_objs s' ! i) \<and> sv_objs s' = (sv_objs s)[i := sv_objs s' ! i] \<and>
    sv_hasWCCb s' = sv_hasWCCb s \<and> i < length (sv_objs s)"
  using assms by (auto simp: bindE_eq_Inr Let_def server_closeConnection_def split: if_splits)

lemma server_accept_Inr:
  assumes inv: "server_inv s" and run: "server_exec (SL_Accept revs (Accepted f) calls) s = Inr s'"
  shows "sv_hasWCCb s' = sv_hasWCCb s \<and> (sv_objs s' = sv_objs s \<or>
    (\<exists>c c'. conn_start f (sv_hasWCCb s) = Inr c \<and> foldE run_api calls c = Inr c' \<and> sv_objs s' = sv_objs s @ [c']))"
proof -
  let ?s0 = "upd_acceptor (setRevents revs) s"
  let ?s1 = "upd_acceptor (\<lambda>ch. ch\<lparr>handlingEvents := True\<rparr>) ?s0"
  have a: "accepting ?s0" "accepting ?s1" using inv by (simp_all only: server_inv_def accepting_upd)
  obtain s2 where s2: "foldE (accept_cb (Accepted f) calls) (dispatch (get_acceptor ?s0)) ?s1 = Inr s2"
      "s' = upd_acceptor (\<lambda>ch. ch\<lparr>handlingEvents := False\<rparr>) s2"
    using run a(1) by (auto simp: handleEvents_def acc_owner.guard_eq_dispatch accepting_def bindE_eq_Inr)
  show ?thesis using accept_dispatch[OF a(1)]
  proof
    assume "dispatch (get_acceptor ?s0) = []"
    then show ?thesis using s2 by auto
  next
    assume d: "dispatch (get_acceptor ?s0) = [ReadCb]"
    have cb: "accept_cb (Accepted f) calls ReadCb ?s1 = server_newConnection True f calls ?s1"
      using a(2) by (simp add: acceptor_handleRead_def accepting_def)
    obtain c where c: "conn_start f (sv_hasWCCb ?s1) = Inr c" using conn_start_ok by blast
    have "sv_hasMsgCb ?s1" "sv_hasConnCb ?s1" using a(2) by (simp_all only: accepting_def)
    from trans[OF newConnection_start[OF this c, of calls, symmetric] s2(1)[unfolded d foldE_single cb]]
    obtain c' where "foldE run_api calls c = Inr c'" "sv_objs s2 = sv_objs s @ [c']" "sv_hasWCCb s2 = sv_hasWCCb s"
      by (auto simp: bindE_eq_Inr)
    then show ?thesis using c s2(2) by auto
  qed
qed

lemma okE_event:
  assumes "okE P m" and "\<And>x. m = Inr x \<Longrightarrow> P x \<Longrightarrow> okE Q (g x)"
  shows "okE Q (bindE m g)"
  using assms by (cases m) simp_all

section \<open>A property of each connection\<close>

text \<open>
  \<open>P\<close> is kept by the message callback, which starts with what was received appended to the input, and does
  not depend on what \<open>handleClose\<close> and \<open>handleWrite\<close> change.
\<close>

locale conn_app =
  fixes io :: io and P :: "conn \<Rightarrow> bool"
  assumes app_upd: "P (upd_chan (\<lambda>ch. ch\<lparr>handlingEvents := x\<rparr>) c) = P c" "P (upd_chan (setRevents rv) c) = P c"
    and app_input: "buffer_ok b \<Longrightarrow> contents b = contents (inputBuffer c) \<Longrightarrow> P (c\<lparr>inputBuffer := b\<rparr>) = P c"
    and app_close: "live c \<Longrightarrow> P c \<Longrightarrow> handleClose True (closeCalls io) c = Inr c' \<Longrightarrow> P c'"
    and app_message: "conn_inv c \<Longrightarrow> live c \<Longrightarrow> P c \<Longrightarrow> rd io = Read_Ok ds \<Longrightarrow> ds \<noteq> [] \<Longrightarrow> buffer_ok b \<Longrightarrow>
      contents b = contents (inputBuffer c) @ ds \<Longrightarrow> foldE run_api (msgCalls io) (c\<lparr>inputBuffer := b\<rparr>) = Inr c' \<Longrightarrow> P c'"
    and app_write: "conn_inv c \<Longrightarrow> live c \<Longrightarrow> isWriting (chan c) \<Longrightarrow>
      wr_ok c (length (contents (outputBuffer c))) (wres io) \<Longrightarrow> P c \<Longrightarrow> handleWrite (wres io) c = Inr c' \<Longrightarrow> P c'"
begin

lemma read_keeps:
  assumes inv: "conn_inv c" and lv: "live c" and leg: "legal_read io c" and p: "P c"
    and run: "handleRead True io c = Inr c'"
  shows "P c'"
proof (cases "rd io")
  case (Read_Err er)
  then show ?thesis using p run lv by (auto simp: handleRead_def readFd_def handleError_def live_def)
next
  case (Read_Ok ds)
  note D = conn_invD[OF inv]
  have nd: "state c \<noteq> kDisconnected" using lv by (auto simp: live_def)
  have lim: "length ds \<le> readv_limit (inputBuffer c)" using leg Read_Ok by (simp add: legal_read_def)
  obtain b where b: "readFd (Read_Ok ds) (inputBuffer c) = Inr (int (length ds), None, b)" "buffer_ok b"
      "contents b = contents (inputBuffer c) @ ds"
    using readFd_cases[OF D(1) lim] run Read_Ok by (auto simp: handleRead_def bindE_eq_Inr)
  show ?thesis
  proof (cases "ds = []")
    case True
    have "handleClose True (closeCalls io) (c\<lparr>inputBuffer := b\<rparr>) = Inr c'"
      using run b(1) Read_Ok True nd by (simp add: handleRead_def)
    moreover have "P (c\<lparr>inputBuffer := b\<rparr>)" using app_input[OF b(2)] b(3) True p by simp
    moreover have "live (c\<lparr>inputBuffer := b\<rparr>)" using lv by (simp add: live_def)
    ultimately show ?thesis using app_close by blast
  next
    case False
    then have "foldE run_api (msgCalls io) (c\<lparr>inputBuffer := b\<rparr>) = Inr c'"
      using run b(1) Read_Ok nd D(5) by (simp add: handleRead_def user_cb_def)
    then show ?thesis using app_message[OF inv lv p Read_Ok False b(2,3)] by simp
  qed
qed

lemma callbacks_keep:
  assumes "ready ks c" and "proper ks" and "legal_run io ks c" and "P c" and "foldE (conn_cb io) ks c = Inr c'"
  shows "P c'"
  using assms
proof (induction ks arbitrary: c)
  case Nil
  then show ?case by simp
next
  case (Cons k ks)
  obtain c1 where c1: "conn_cb io k c = Inr c1" "foldE (conn_cb io) ks c1 = Inr c'"
    using Cons.prems(5) by (auto simp: bindE_eq_Inr)
  have leg: "legal_cb io k c" "legal_run io ks c1" and pr: "proper ks"
    using Cons.prems(2,3) c1(1) by simp_all
  have rd: "ready ks c1" using okE_Inr[OF conn_cb_ok[OF Cons.prems(1,2) leg(1)] c1(1)] by simp
  have inv: "conn_inv c" and lv: "k = CloseCb \<or> k = ReadCb \<Longrightarrow> live c" and w: "k = WriteCb \<Longrightarrow> live c \<Longrightarrow> isWriting (chan c)"
    and est: "state c \<noteq> kConnecting"
    using Cons.prems(1) by (auto simp: ready_def)
  have "P c1"
  proof (cases k)
    case CloseCb
    then show ?thesis using app_close[OF lv Cons.prems(4)] c1(1) by simp
  next
    case ErrorCb
    then show ?thesis using Cons.prems(4) c1(1) by (simp add: handleError_def)
  next
    case ReadCb
    then show ?thesis using read_keeps[OF inv lv _ Cons.prems(4)] leg(1) c1(1) by simp
  next
    case WriteCb
    show ?thesis
    proof (cases "state c = kDisconnected")
      case True
      then show ?thesis using c1(1) WriteCb Cons.prems(4) by (simp add: handleWrite_def)
    next
      case False
      then have "live c" using est est_live by blast
      then show ?thesis using app_write[OF inv _ w[OF WriteCb] _ Cons.prems(4)] leg(1) c1(1) WriteCb False by simp
    qed
  qed
  then show ?case using Cons.IH[OF rd pr leg(2) _ c1(2)] by simp
qed

lemma event_keeps:
  assumes r: "run_inv c" and leg: "legal_label (L_Event io revs) c" and p: "P c"
    and run: "exec (L_Event io revs) c = Inr c'"
  shows "P c'"
proof -
  let ?c1 = "upd_chan (\<lambda>ch. ch\<lparr>handlingEvents := True\<rparr>) (upd_chan (setRevents revs) c)"
  have inv: "conn_inv c" using r by (simp add: run_inv_def)
  have l: "live c" "legal_event io revs c" using leg run_inv_live[OF r] by auto
  note E = conn_event_callbacks[OF inv l]
  obtain c2 where c2: "foldE (conn_cb io) (dispatch (setRevents revs (chan c))) ?c1 = Inr c2"
      "c' = upd_chan (\<lambda>ch. ch\<lparr>handlingEvents := False\<rparr>) c2"
    using run E(1) by (auto simp: bindE_eq_Inr)
  have "P ?c1" using p by (simp only: app_upd)
  from callbacks_keep[OF E(2-4) this c2(1)] show ?thesis unfolding c2(2) by (simp only: app_upd)
qed

end

end
