(* ===== verification/Ev_Echo.thy ===== *)
theory Ev_Echo
  imports Ev_ServerApp Ev_TimerQueue
begin

text \<open>
  \<^verbatim>\<open>example/EchoServer.cc\<close>: the echo server with its table of deadlines, on top of the server of
  \<^verbatim>\<open>Ev_Server\<close>. A callback of the program is the list of calls it makes on the connection and the interval it
  hands to \<open>expireAfter\<close>, if it does. \<open>connections_\<close> is a map from the place of a connection among the server's objects
  to its deadline. \<open>ec_received\<close> and \<open>ec_failed\<close> are history variables: what \<open>readv\<close> delivered for each connection, and
  whether a send met a fatal error, after which the bytes it was given are lost. The server has one
  loop, so a timer, an event and a queued task are steps that follow one another in any order.
\<close>

section \<open>The program\<close>

record echo =
  ec_server :: server
  ec_timeout :: int
  ec_connections :: "nat \<rightharpoonup> int"
  ec_received :: "nat \<Rightarrow> string"
  ec_failed :: "nat \<Rightarrow> bool"

text \<open>\<open>connections_[conn] = clock::nowAfter(interval)\<close>, the clock being \<open>now\<close>.\<close>

definition expireAfter :: "int \<Rightarrow> nat \<Rightarrow> int \<Rightarrow> echo \<Rightarrow> error + echo" where
  "expireAfter now i interval e =
     bindE (ns_add now interval) (\<lambda>t. Inr (e\<lparr>ec_connections := (ec_connections e)(i \<mapsto> t)\<rparr>))"

definition erase_connection :: "nat \<Rightarrow> echo \<Rightarrow> echo" where
  "erase_connection i e = e\<lparr>ec_connections := (ec_connections e)(i := None)\<rparr>"

type_synonym callback = "api list \<times> int option"

text \<open>The callbacks. \<open>echo_onConnection\<close> is the branch of a connection that is up; \<open>wr\<close> is the outcome of the
  \<open>write\<close> in \<open>send\<close>.\<close>

definition echo_onConnection :: "int \<Rightarrow> callback" where
  "echo_onConnection timeout = ([Api_SetHighWater 1024], Some timeout)"

definition echo_onMessage :: "int \<Rightarrow> write_result \<Rightarrow> callback" where
  "echo_onMessage timeout wr = ([Api_SendInput wr], Some timeout)"

definition echo_onHighWaterMark :: "int \<Rightarrow> callback" where
  "echo_onHighWaterMark timeout = ([Api_StopRead], Some (2 * timeout))"

definition echo_onWriteComplete :: "int \<Rightarrow> conn \<Rightarrow> callback" where
  "echo_onWriteComplete timeout c =
     (if \<not> isReading (chan c) then ([Api_StartRead], Some timeout) else ([], None))"

text \<open>The part of a callback that is about the table.\<close>

definition note_deadline :: "int \<Rightarrow> nat \<Rightarrow> int option \<Rightarrow> echo \<Rightarrow> error + echo" where
  "note_deadline now i d e = (case d of None \<Rightarrow> Inr e | Some interval \<Rightarrow> expireAfter now i interval e)"

text \<open>
  One turn of the loop of \<open>onTimeout\<close>; \<open>now\<close> is the clock when the loop is at the entry. The entries concern different
  connections, so the order of the map does not matter.
\<close>

definition timeout_entry :: "(nat \<Rightarrow> int) \<Rightarrow> nat \<Rightarrow> echo \<Rightarrow> error + echo" where
  "timeout_entry now i e =
     (case ec_connections e i of
        None \<Rightarrow> Inr e
      | Some t \<Rightarrow>
          if t \<le> now i then
            bindE (server_exec (SL_Conn i (L_Call Api_ForceClose)) (ec_server e)) (\<lambda>s.
            Inr (erase_connection i (e\<lparr>ec_server := s\<rparr>)))
          else Inr e)"

definition onTimeout :: "(nat \<Rightarrow> int) \<Rightarrow> echo \<Rightarrow> error + echo" where
  "onTimeout now e = foldE (timeout_entry now) [0..<length (sv_objs (ec_server e))] e"

section \<open>Steps\<close>

text \<open>
  \<open>E_Accept\<close>: an event of the listening socket. \<open>E_Event i rr wr wr2 revs\<close>: an event of connection \<open>i\<close>; \<open>rr\<close> is what
  \<open>readv\<close> returns, \<open>wr\<close> and \<open>wr2\<close> are the outcomes of \<open>write\<close> in \<open>handleWrite\<close> and in the \<open>send\<close> of the message
  callback. \<open>E_Task i\<close>: the oldest task of connection \<open>i\<close>. \<open>E_Timer\<close>: the repeating timer of the constructor.
\<close>

datatype elabel =
    E_Accept evmask accept_result int
  | E_Event nat read_result write_result write_result evmask int
  | E_Task nat int
  | E_Timer "nat \<Rightarrow> int"

definition echo_io :: "int \<Rightarrow> read_result \<Rightarrow> write_result \<Rightarrow> write_result \<Rightarrow> io" where
  "echo_io timeout rr wr wr2 =
     \<lparr>rd = rr, wres = wr, msgCalls = fst (echo_onMessage timeout wr2), closeCalls = []\<rparr>"

definition note_message :: "nat \<Rightarrow> read_result \<Rightarrow> bool \<Rightarrow> echo \<Rightarrow> echo" where
  "note_message i rr fatal e =
     e\<lparr>ec_received := (ec_received e)(i := ec_received e i @ delivered rr),
       ec_failed := (ec_failed e)(i := ec_failed e i \<or> fatal)\<rparr>"

text \<open>The connection callback of a connection that went down in this step.\<close>

definition note_down :: "nat \<Rightarrow> conn \<Rightarrow> echo \<Rightarrow> echo" where
  "note_down i c e =
     (if \<not> disconnected c \<and> disconnected (sv_objs (ec_server e) ! i) then erase_connection i e else e)"

fun task_callback :: "int \<Rightarrow> conn \<Rightarrow> callback" where
  "task_callback timeout c =
     (case pendingTasks c of
        Task_WriteComplete # ts \<Rightarrow> echo_onWriteComplete timeout c
      | Task_HighWater n # ts \<Rightarrow> echo_onHighWaterMark timeout
      | _ \<Rightarrow> ([], None))"

fun echo_exec :: "elabel \<Rightarrow> echo \<Rightarrow> error + echo" where
  "echo_exec (E_Accept revs res now) e =
     (let n = length (sv_objs (ec_server e)); (calls, d) = echo_onConnection (ec_timeout e) in
      bindE (server_exec (SL_Accept revs res calls) (ec_server e)) (\<lambda>s.
      if n < length (sv_objs s) then note_deadline now n d (e\<lparr>ec_server := s\<rparr>) else Inr (e\<lparr>ec_server := s\<rparr>)))"
| "echo_exec (E_Event i rr wr wr2 revs now) e =
     (let c = sv_objs (ec_server e) ! i in
      bindE (server_exec (SL_Conn i (L_Event (echo_io (ec_timeout e) rr wr wr2) revs)) (ec_server e)) (\<lambda>s.
      let e1 = e\<lparr>ec_server := s\<rparr> in
      if message_runs rr revs c then
        bindE (note_deadline now i (snd (echo_onMessage (ec_timeout e) wr2)) (note_message i rr (gives_up wr2 c) e1)) (\<lambda>e2.
        Inr (note_down i c e2))
      else Inr (note_down i c e1)))"
| "echo_exec (E_Task i now) e =
     (let c = sv_objs (ec_server e) ! i; (calls, d) = task_callback (ec_timeout e) c in
      bindE (server_exec (SL_Conn i (L_Task (Write_Err EAGAIN) calls)) (ec_server e)) (\<lambda>s.
      bindE (note_deadline now i d (e\<lparr>ec_server := s\<rparr>)) (\<lambda>e2. Inr (note_down i c e2))))"
| "echo_exec (E_Timer now) e = onTimeout now e"

text \<open>The constructor and \<open>start\<close>; the arguments are those of \<open>server_new\<close> and \<open>server_start\<close>.\<close>

definition echo_start :: "int \<Rightarrow> int \<Rightarrow> bool list \<Rightarrow> bool \<Rightarrow> error + echo" where
  "echo_start timeout acceptFd oks ok =
     bindE (server_new acceptFd oks) (\<lambda>sv.
     bindE (server_start True ok (server_setCallbacks True True True sv)) (\<lambda>s.
     Inr \<lparr>ec_server = s, ec_timeout = timeout, ec_connections = Map.empty, ec_received = (\<lambda>i. []),
          ec_failed = (\<lambda>i. False)\<rparr>))"

text \<open>
  What a step asks of its environment: documented outcomes of the system calls, a clock that is in range, and
  that the queued callbacks of a connection run while it is up.
\<close>

definition clock_ok :: "int \<Rightarrow> int \<Rightarrow> bool" where
  "clock_ok timeout now \<longleftrightarrow> time_ok now \<and> time_ok timeout \<and> time_ok (2 * timeout)"

fun echo_legal :: "elabel \<Rightarrow> echo \<Rightarrow> bool" where
  "echo_legal (E_Accept revs res now) e \<longleftrightarrow>
     polling (get_acceptor (ec_server e)) \<and> (case res of Accepted f \<Rightarrow> True | Accept_Err er \<Rightarrow> False) \<and>
     clock_ok (ec_timeout e) now"
| "echo_legal (E_Event i rr wr wr2 revs now) e \<longleftrightarrow>
     server_legal (SL_Conn i (L_Event (echo_io (ec_timeout e) rr wr wr2) revs)) (ec_server e) \<and>
     clock_ok (ec_timeout e) now"
| "echo_legal (E_Task i now) e \<longleftrightarrow>
     i < length (sv_objs (ec_server e)) \<and> clock_ok (ec_timeout e) now \<and>
     (disconnected (sv_objs (ec_server e) ! i) \<longrightarrow> snd (task_callback (ec_timeout e) (sv_objs (ec_server e) ! i)) = None)"
| "echo_legal (E_Timer now) e \<longleftrightarrow> True"

section \<open>One connection\<close>

text \<open>Whether reading will be on after the queued tasks have run.\<close>

fun will_read :: "bool \<Rightarrow> ctask list \<Rightarrow> bool" where
  "will_read r [] = r"
| "will_read r (Task_HighWater n # ts) = will_read False ts"
| "will_read r (Task_WriteComplete # ts) = will_read True ts"
| "will_read r (t # ts) = will_read r ts"

fun echo_task :: "ctask \<Rightarrow> bool" where
  "echo_task Task_WriteComplete = True"
| "echo_task (Task_HighWater n) = True"
| "echo_task Task_ForceClose = True"
| "echo_task _ = False"

text \<open>
  \<open>r\<close> is what was received and \<open>f\<close> tells that a send failed. What was received and not taken for sending is in
  the input buffer, and there is nothing like that while the connection is up. Reading is on, or will be
  switched on by a queued task, or there is output whose completion will queue one.
\<close>

definition echo_part :: "string \<Rightarrow> bool \<Rightarrow> conn \<Rightarrow> bool" where
  "echo_part r f c \<longleftrightarrow> hasWriteCompleteCb c \<and> list_all echo_task (pendingTasks c) \<and>
     (f \<or> r = taken c @ contents (inputBuffer c)) \<and>
     (live c \<longrightarrow> contents (outputBuffer c) = [] \<longrightarrow> will_read (isReading (chan c)) (pendingTasks c))"

definition echo_conn :: "string \<Rightarrow> bool \<Rightarrow> conn \<Rightarrow> bool" where
  "echo_conn r f c \<longleftrightarrow> echo_part r f c \<and> (connected c \<longrightarrow> contents (inputBuffer c) = [])"

lemma will_read_append [simp]: "will_read r (ts @ us) = will_read (will_read r ts) us"
  by (induction r ts rule: will_read.induct) simp_all

text \<open>The message callback: everything received so far is sent.\<close>

lemma expected_echo_tasks: "list_all echo_task (expected_tasks c wr data)"
  by (simp add: expected_tasks_def Let_def)

lemma send_resumes:
  assumes inv: "conn_inv c" and lv: "live c" and wr: "wr_ok c (length data) wr"
    and w: "contents (outputBuffer c) = [] \<Longrightarrow> will_read r (pendingTasks c)" and wc: "hasWriteCompleteCb c"
    and none: "contents (outputBuffer c) = []" "left_over c wr data = []"
  shows "will_read r (pendingTasks c @ expected_tasks c wr data)"
proof -
  have nw: "\<not> isWriting (chan c)" using conn_invD(9)[OF inv lv] none(1) by simp
  show ?thesis
  proof (cases wr)
    case (Wrote n)
    then have "wr = Wrote (length data)" using wr none(2) nw by (simp add: wr_ok_def left_over_def)
    then show ?thesis using nw wc none by (auto simp: expected_tasks_def)
  next
    case (Write_Err e)
    then show ?thesis using nw none w by (auto simp: expected_tasks_def)
  qed
qed

lemma echo_message:
  assumes inv: "conn_inv c" and est: "state c \<noteq> kConnecting" and leg: "legal (Api_SendInput wr) c"
    and e: "echo_part r f c" and run: "sendInput True wr c = Inr c'"
  shows "echo_conn r (f \<or> gives_up wr c) c'"
proof (cases "state c = kConnected")
  case False
  then show ?thesis using e run by (auto simp: echo_conn_def echo_part_def sendInput_def connected_def)
next
  case True
  let ?d = "contents (inputBuffer c)"
  note D = conn_invD[OF inv]
  have lv: "live c" using True by (simp add: live_def)
  have b: "buffer_ok (inputBuffer c)" using inv by (rule conn_invD)
  have len: "length ?d \<le> vec_max" by (rule buffer_contents_bound[OF b])
  have wr: "wr_ok c (length ?d) wr" using leg by simp
  obtain c1 where c1: "sendInLoop True wr ?d c = Inr c1" "c' = c1\<lparr>inputBuffer := retrieveAll (inputBuffer c1)\<rparr>"
    using run True by (auto simp: sendInput_def Let_def contents_peek[OF b] bindE_eq_Inr)
  have ok: "taken c1 = taken c @ accepted wr ?d c" "state c1 = state c"
    using okE_Inr[OF sendInLoop_ok[OF inv est len wr] c1(1)] by (simp_all add: kept_def)
  have parts: "contents (outputBuffer c1) = contents (outputBuffer c) @ left_over c wr ?d"
      "pendingTasks c1 = pendingTasks c @ expected_tasks c wr ?d"
    using okE_Inr[OF send_parts_ok[OF inv lv len wr] c1(1)] by (simp_all add: send_parts_def)
  have ra: "hasWriteCompleteCb c1" "isReading (chan c1) = isReading (chan c)"
    using sendInLoop_reads_alike[OF c1(1)] e by (simp_all add: reads_alike_def echo_part_def)
  have "will_read (isReading (chan c)) (pendingTasks c1)"
    if "contents (outputBuffer c1) = []"
    using send_resumes[OF inv lv wr, of "isReading (chan c)"] that e lv unfolding parts by (simp add: echo_part_def)
  moreover have "accepted wr ?d c = ?d \<or> gives_up wr c"
    using True by (auto simp: accepted_def gives_up_def connected_def)
  moreover have "list_all echo_task (pendingTasks c1)"
    using e expected_echo_tasks unfolding parts by (simp add: echo_part_def)
  ultimately show ?thesis
    using e ra ok(1) contents_retrieveAll[of "inputBuffer c1"] c1(2)
    by (auto simp: echo_conn_def echo_part_def)
qed

lemma echo_write:
  assumes inv: "conn_inv c" and lv: "live c" and w: "isWriting (chan c)"
    and wr: "wr_ok c (length (contents (outputBuffer c))) wr"
    and e: "echo_conn r f c" and run: "handleWrite wr c = Inr c'"
  shows "echo_conn r f c'"
proof (cases wr)
  case (Write_Err er)
  then have "c' = c" using handleWrite_ok[OF inv lv w wr] run by auto
  then show ?thesis using e by simp
next
  case (Wrote n)
  have nd: "state c \<noteq> kDisconnected" using lv by (auto simp: live_def)
  have t: "taken c' = taken c" "state c' = state c" "conn_inv c'"
    using handleWrite_ok[OF inv lv w wr] run by auto
  have ok: "buffer_ok (outputBuffer c')" using t(3) by (rule conn_invD)
  obtain ob where ob: "inputBuffer c' = inputBuffer c" "outputBuffer c' = ob" "reads_alike c c'"
    "pendingTasks c' = pendingTasks c @ (if readableBytes ob = 0 \<and> hasWriteCompleteCb c then [Task_WriteComplete] else [])"
    using handleWrite_Inr[OF run[unfolded Wrote] nd] by metis
  have "readableBytes ob = length (contents ob)" using length_contents[OF ok] ob(2) by simp
  moreover have "hasWriteCompleteCb c" using e by (simp add: echo_conn_def echo_part_def)
  ultimately show ?thesis
    using e t(1,2) ob by (simp add: echo_conn_def echo_part_def reads_alike_def connected_def)
qed

text \<open>\<open>handleClose\<close> with nothing called back.\<close>

lemma echo_close:
  assumes e: "echo_part r f c" and run: "handleClose True [] c = Inr c'"
  shows "echo_conn r f c'"
  using assms
  by (auto simp: handleClose_def user_cb_def on_chan_def bindE_eq_Inr echo_conn_def echo_part_def live_def
      connected_def split: if_splits)

lemma echo_read:
  assumes inv: "conn_inv c" and lv: "live c" and leg: "legal_read (echo_io timeout rr wr wr2) c"
    and e: "echo_conn r f c" and run: "handleRead True (echo_io timeout rr wr wr2) c = Inr c'"
  shows "echo_conn (r @ delivered rr) (f \<or> delivered rr \<noteq> [] \<and> gives_up wr2 c) c'"
proof (cases rr)
  case (Read_Err er)
  then show ?thesis using e run lv
    by (auto simp: handleRead_def readFd_def handleError_def live_def delivered_def echo_io_def)
next
  case (Read_Ok ds)
  note D = conn_invD[OF inv]
  have lim: "length ds \<le> readv_limit (inputBuffer c)" using leg Read_Ok by (simp add: legal_read_def echo_io_def)
  obtain b where b: "readFd (Read_Ok ds) (inputBuffer c) = Inr (int (length ds), None, b)" "buffer_ok b"
      "contents b = contents (inputBuffer c) @ ds"
    using readFd_cases[OF D(1) lim] run Read_Ok by (auto simp: handleRead_def bindE_eq_Inr echo_io_def)
  let ?c = "c\<lparr>inputBuffer := b\<rparr>"
  have c: "conn_inv ?c" "state ?c \<noteq> kConnecting" "gives_up wr2 ?c = gives_up wr2 c"
    using conn_inv_input[OF inv b(2)] lv by (auto simp: live_def gives_up_def connected_def)
  have p: "echo_part (r @ ds) f ?c"
    using e b(3) by (auto simp: echo_conn_def echo_part_def live_def)
  show ?thesis
  proof (cases "ds = []")
    case True
    have nd: "state c \<noteq> kDisconnected" using lv by (auto simp: live_def)
    then have "handleClose True [] ?c = Inr c'"
      using run b(1) Read_Ok True by (simp add: handleRead_def echo_io_def)
    then show ?thesis using echo_close[OF p] Read_Ok True by (simp add: delivered_def)
  next
    case False
    have nd: "state c \<noteq> kDisconnected" using lv by (auto simp: live_def)
    then have r: "sendInput True wr2 ?c = Inr c'"
      using run b(1) Read_Ok False D(5) by (simp add: handleRead_def echo_io_def user_cb_def echo_onMessage_def foldE_Nil_fun bindE_Inr_id)
    have l: "legal (Api_SendInput wr2) ?c"
      using leg b(1) Read_Ok False by (simp add: legal_read_def echo_io_def echo_onMessage_def)
    show ?thesis using echo_message[OF c(1,2) l p r] c(3) Read_Ok False by (simp add: delivered_def)
  qed
qed

text \<open>All callbacks of one dispatch: the message callback runs at most once.\<close>

lemma echo_cbs:
  assumes "ready ks c" and "proper ks" and "legal_run (echo_io timeout rr wr wr2) ks c" and "echo_conn r f c"
    and "foldE (conn_cb (echo_io timeout rr wr wr2)) ks c = Inr c'"
  shows "echo_conn (if ReadCb \<in> set ks then r @ delivered rr else r)
    (f \<or> ReadCb \<in> set ks \<and> delivered rr \<noteq> [] \<and> gives_up wr2 c) c'"
  using assms
proof (induction ks arbitrary: c r f)
  case Nil
  then show ?case by simp
next
  case (Cons k ks)
  let ?io = "echo_io timeout rr wr wr2"
  obtain c1 where c1: "conn_cb ?io k c = Inr c1" "foldE (conn_cb ?io) ks c1 = Inr c'"
    using Cons.prems(5) by (auto simp: bindE_eq_Inr)
  have leg: "legal_cb ?io k c" "legal_run ?io ks c1" and pr: "proper ks"
    using Cons.prems(2,3) c1(1) by simp_all
  have rd: "ready ks c1" using okE_Inr[OF conn_cb_ok[OF Cons.prems(1,2) leg(1)] c1(1)] by simp
  have inv: "conn_inv c" using Cons.prems(1) by (simp add: ready_def)
  note IH = Cons.IH[OF rd pr leg(2) _ c1(2)]
  show ?case
  proof (cases k)
    case CloseCb
    have "echo_conn r f c1"
      using echo_close[of r f c c1] Cons.prems(4) c1(1) CloseCb by (simp add: echo_conn_def echo_io_def)
    then show ?thesis using IH[of r f] Cons.prems(2) CloseCb by simp
  next
    case ErrorCb
    then show ?thesis using IH[of r f] Cons.prems(4) c1(1) by (simp add: handleError_def)
  next
    case ReadCb
    have "echo_conn (r @ delivered rr) (f \<or> delivered rr \<noteq> [] \<and> gives_up wr2 c) c1"
      using Cons.prems(1) leg(1) c1(1) ReadCb by (intro echo_read[OF inv _ _ Cons.prems(4)]) (simp_all add: ready_def)
    then show ?thesis using IH[of "r @ delivered rr"] Cons.prems(2) ReadCb by simp
  next
    case WriteCb
    have "echo_conn r f c1"
    proof (cases "state c = kDisconnected")
      case True
      then show ?thesis using c1(1) WriteCb Cons.prems(4) by (simp add: handleWrite_def)
    next
      case False
      then have "live c" using Cons.prems(1) est_live by (auto simp: ready_def)
      then show ?thesis
        using echo_write[OF inv _ _ _ Cons.prems(4)] Cons.prems(1) leg(1) c1(1) WriteCb False
        by (simp add: ready_def)
    qed
    then show ?thesis using IH[of r f] Cons.prems(2) WriteCb by simp
  qed
qed

lemma echo_upd:
  "echo_conn r f (upd_chan (\<lambda>ch. ch\<lparr>handlingEvents := x\<rparr>) c) = echo_conn r f c"
  "echo_conn r f (upd_chan (setRevents rv) c) = echo_conn r f c"
  "gives_up wr (upd_chan (\<lambda>ch. ch\<lparr>handlingEvents := x\<rparr>) c) = gives_up wr c"
  "gives_up wr (upd_chan (setRevents rv) c) = gives_up wr c"
  by (simp_all add: echo_conn_def echo_part_def upd_chan_def setRevents_def isReading_def isWriting_def live_def
      connected_def gives_up_def)

lemma echo_event:
  assumes r: "run_inv c" and leg: "legal_label (L_Event (echo_io timeout rr wr wr2) revs) c" and e: "echo_conn r f c"
    and run: "exec (L_Event (echo_io timeout rr wr wr2) revs) c = Inr c'"
  shows "if message_runs rr revs c then echo_conn (r @ delivered rr) (f \<or> gives_up wr2 c) c' else echo_conn r f c'"
proof -
  let ?c1 = "upd_chan (\<lambda>ch. ch\<lparr>handlingEvents := True\<rparr>) (upd_chan (setRevents revs) c)"
  have inv: "conn_inv c" using r by (simp add: run_inv_def)
  have l: "live c" "legal_event (echo_io timeout rr wr wr2) revs c" using leg run_inv_live[OF r] by auto
  note E = conn_event_callbacks[OF inv l]
  obtain c2 where c2: "foldE (conn_cb (echo_io timeout rr wr wr2)) (dispatch (setRevents revs (chan c))) ?c1 = Inr c2"
      "c' = upd_chan (\<lambda>ch. ch\<lparr>handlingEvents := False\<rparr>) c2"
    using run E(1) by (auto simp: bindE_eq_Inr)
  have "echo_conn r f ?c1" using e by (simp only: echo_upd)
  from echo_cbs[OF E(2-4) this c2(1)] show ?thesis
    unfolding c2(2) echo_upd message_runs_def by (auto split: if_splits)
qed

text \<open>The queued tasks, with what the program does in them.\<close>

lemma on_chan_events:
  "on_chan (enableRead inL) c = Inr c' \<Longrightarrow> events (chan c') = events (chan c) OR (EPOLLIN OR EPOLLPRI) \<and> c' = c\<lparr>chan := chan c', ctls := ctls c'\<rparr>"
  "on_chan (disableRead inL) c = Inr c' \<Longrightarrow> events (chan c') = events (chan c) AND NOT EPOLLIN \<and> c' = c\<lparr>chan := chan c', ctls := ctls c'\<rparr>"
  by (auto simp: on_chan_def enableRead_def disableRead_def bindE_eq_Inr dest!: update_events)

lemma reading_calls:
  "startRead True c = Inr c' \<Longrightarrow> isReading (chan c') \<and> c' = c\<lparr>chan := chan c', ctls := ctls c'\<rparr>"
  "stopRead True c = Inr c' \<Longrightarrow> \<not> isReading (chan c') \<and> c' = c\<lparr>chan := chan c', ctls := ctls c'\<rparr>"
  by (auto simp: startRead_def stopRead_def startReadInLoop_def stopReadInLoop_def isReading_def
      dest: on_chan_events split: if_splits)

lemma echo_pop:
  assumes "echo_conn r f c" and "pendingTasks c = t # ts"
  shows "echo_task t" and "list_all echo_task ts" and "hasWriteCompleteCb c"
    and "connected c \<Longrightarrow> contents (inputBuffer c) = []" and "f \<or> r = taken c @ contents (inputBuffer c)"
    and "live c \<Longrightarrow> contents (outputBuffer c) = [] \<Longrightarrow> will_read (isReading (chan c)) (t # ts)"
  using assms by (simp_all add: echo_conn_def echo_part_def)

lemma echo_conn_popped:
  assumes e: "echo_conn r f c" and p: "pendingTasks c = t # ts" and c': "c' = c\<lparr>pendingTasks := ts, chan := ch, ctls := k\<rparr>"
    and w: "\<And>b. will_read b (t # ts) = will_read (isReading ch) ts \<or> b = isReading ch \<and> will_read b (t # ts) = will_read b ts"
  shows "echo_conn r f c'"
  using echo_pop[OF e p] w[of "isReading (chan c)"]
  unfolding c' by (auto simp: echo_conn_def echo_part_def connected_def live_def)

lemma echo_tasks:
  assumes e: "echo_conn r f c"
    and run: "exec (L_Task (Write_Err EAGAIN) (fst (task_callback timeout c))) c = Inr c'"
  shows "echo_conn r f c'"
proof (cases "pendingTasks c")
  case Nil
  then show ?thesis using e run by simp
next
  case (Cons t ts)
  let ?c = "c\<lparr>pendingTasks := ts\<rparr>"
  note P = echo_pop[OF e Cons]
  show ?thesis
  proof (cases t)
    case Task_WriteComplete
    show ?thesis
    proof (cases "isReading (chan c)")
      case True
      then have "c' = c\<lparr>pendingTasks := ts\<rparr>"
        using run Cons Task_WriteComplete by (simp add: echo_onWriteComplete_def)
      then have "c' = c\<lparr>pendingTasks := ts, chan := chan c, ctls := ctls c\<rparr>" by simp
      then show ?thesis by (rule echo_conn_popped[OF e Cons]) (simp add: Task_WriteComplete True)
    next
      case False
      then have "startRead True ?c = Inr c'"
        using run Cons Task_WriteComplete by (simp add: echo_onWriteComplete_def foldE_Nil_fun bindE_Inr_id)
      from reading_calls(1)[OF this] have r: "isReading (chan c')" and eq: "c' = c\<lparr>pendingTasks := ts, chan := chan c', ctls := ctls c'\<rparr>"
        by simp_all
      show ?thesis by (rule echo_conn_popped[OF e Cons eq]) (simp add: Task_WriteComplete r)
    qed
  next
    case (Task_HighWater n)
    then have "stopRead True ?c = Inr c'"
      using run Cons by (simp add: echo_onHighWaterMark_def foldE_Nil_fun bindE_Inr_id)
    from reading_calls(2)[OF this] have r: "\<not> isReading (chan c')" and eq: "c' = c\<lparr>pendingTasks := ts, chan := chan c', ctls := ctls c'\<rparr>"
      by simp_all
    show ?thesis by (rule echo_conn_popped[OF e Cons eq]) (simp add: Task_HighWater r)
  next
    case Task_ForceClose
    have c0: "echo_conn r f ?c" using P by (auto simp: Task_ForceClose echo_conn_def echo_part_def connected_def live_def)
    show ?thesis
    proof (cases "state c = kDisconnected")
      case True
      then show ?thesis using run Cons Task_ForceClose c0 by (simp add: forceCloseInLoop_def)
    next
      case False
      then have "handleClose True [] ?c = Inr c'" using run Cons Task_ForceClose by (simp add: forceCloseInLoop_def)
      then show ?thesis using c0 by (intro echo_close[of r f ?c]) (simp_all add: echo_conn_def)
    qed
  qed (use P(1) in simp_all)
qed

lemma echo_forceClose:
  assumes "echo_conn r f c" and "forceClose c = Inr c'" and "state c \<noteq> kConnecting"
  shows "echo_conn r f c' \<and> \<not> connected c'"
  using assms
  by (auto simp: forceClose_def stateAtomicGetAndSet_def queue_task_def echo_conn_def echo_part_def connected_def live_def
      dest: est_live split: if_splits)

section \<open>The server\<close>

definition echo_inv :: "echo \<Rightarrow> bool" where
  "echo_inv e \<longleftrightarrow>
     (let objs = sv_objs (ec_server e) in
      server_inv (ec_server e) \<and> sv_hasWCCb (ec_server e) \<and>
      (\<forall>i<length objs. echo_conn (ec_received e i) (ec_failed e i) (objs ! i)) \<and>
      (\<forall>i\<ge>length objs. ec_received e i = [] \<and> \<not> ec_failed e i) \<and>
      (\<forall>i. ec_connections e i \<noteq> None \<longrightarrow> i < length objs \<and> \<not> disconnected (objs ! i)) \<and>
      (\<forall>i<length objs. connected (objs ! i) \<longrightarrow> ec_connections e i \<noteq> None))"

lemma echo_invD:
  assumes "echo_inv e"
  shows "server_inv (ec_server e)" "sv_hasWCCb (ec_server e)"
    "i < length (sv_objs (ec_server e)) \<Longrightarrow> echo_conn (ec_received e i) (ec_failed e i) (sv_objs (ec_server e) ! i)"
    "length (sv_objs (ec_server e)) \<le> i \<Longrightarrow> ec_received e i = [] \<and> \<not> ec_failed e i"
    "ec_connections e i \<noteq> None \<Longrightarrow> i < length (sv_objs (ec_server e)) \<and> \<not> disconnected (sv_objs (ec_server e) ! i)"
    "i < length (sv_objs (ec_server e)) \<Longrightarrow> connected (sv_objs (ec_server e) ! i) \<Longrightarrow> ec_connections e i \<noteq> None"
  using assms unfolding echo_inv_def Let_def by blast+

definition echo_rel :: "echo \<Rightarrow> echo \<Rightarrow> bool" where
  "echo_rel e e' \<longleftrightarrow> ec_timeout e' = ec_timeout e \<and>
     length (sv_objs (ec_server e)) \<le> length (sv_objs (ec_server e')) \<and>
     (\<forall>i. prefix (ec_received e i) (ec_received e' i))"

lemma echo_rel_refl: "echo_rel e e"
  by (simp add: echo_rel_def)

lemma echo_rel_trans: "echo_rel a b \<Longrightarrow> echo_rel b c \<Longrightarrow> echo_rel a c"
  unfolding echo_rel_def by (metis prefix_order.trans order_trans)

lemma note_deadline_ok:
  assumes "clock_ok timeout now" and "d \<in> {None, Some timeout, Some (2 * timeout)}"
  shows "\<exists>tb. note_deadline now i d e = Inr (e\<lparr>ec_connections := tb\<rparr>) \<and> (\<forall>j. j \<noteq> i \<longrightarrow> tb j = ec_connections e j) \<and>
    (tb i \<noteq> None \<longleftrightarrow> ec_connections e i \<noteq> None \<or> d \<noteq> None)"
proof (cases d)
  case None
  then have "note_deadline now i d e = Inr (e\<lparr>ec_connections := ec_connections e\<rparr>)" by (simp add: note_deadline_def)
  then show ?thesis using None by (intro exI[of _ "ec_connections e"]) simp
next
  case (Some t)
  then have "time_ok now" "time_ok t" using assms by (auto simp: clock_ok_def)
  then have "ns_add now t = Inr (now + t)" by (simp add: ns_add_def ns_ok_def time_ok_def)
  then show ?thesis using Some
    by (intro exI[of _ "(ec_connections e)(i \<mapsto> now + t)"]) (simp add: note_deadline_def expireAfter_def)
qed

text \<open>A state is good when the server is, and the connection \<open>i\<close> and its entry are.\<close>

lemma echo_inv_update:
  assumes e: "echo_inv e" and s: "server_inv s" "sv_hasWCCb s" "sv_objs s = (sv_objs (ec_server e))[i := c]"
    and i: "i < length (sv_objs (ec_server e))" and c: "echo_conn r f c"
    and tb: "\<And>j. j \<noteq> i \<Longrightarrow> tb j = ec_connections e j" "tb i \<noteq> None \<Longrightarrow> \<not> disconnected c" "connected c \<Longrightarrow> tb i \<noteq> None"
  shows "echo_inv (e\<lparr>ec_server := s, ec_connections := tb, ec_received := (ec_received e)(i := r), ec_failed := (ec_failed e)(i := f)\<rparr>)"
proof -
  note D = echo_invD[OF e]
  have rest: "tb j \<noteq> None \<Longrightarrow> j < length (sv_objs s) \<and> \<not> disconnected (sv_objs s ! j)" for j
    using tb(1)[of j] tb(2) D(5)[of j] i by (cases "j = i") (auto simp: s(3))
  have up: "connected (sv_objs s ! j) \<Longrightarrow> tb j \<noteq> None" if "j < length (sv_objs s)" for j
    using tb(1)[of j] tb(3) D(6)[of j] that i by (cases "j = i") (auto simp: s(3))
  show ?thesis
    using s D(3,4) i c rest up unfolding echo_inv_def Let_def
    by (auto simp: nth_list_update)
qed

lemma echo_step:
  assumes e: "echo_inv e" and leg: "server_legal (SL_Conn i l) (ec_server e)"
    and run: "server_exec (SL_Conn i l) (ec_server e) = Inr s"
    and ec: "echo_conn (ec_received e i @ ds) f (sv_objs s ! i)"
    and d: "d \<in> {None, Some (ec_timeout e), Some (2 * ec_timeout e)}"
      "d \<noteq> None \<Longrightarrow> \<not> disconnected (sv_objs (ec_server e) ! i)"
    and clock: "clock_ok (ec_timeout e) now"
  defines "e1 \<equiv> e\<lparr>ec_server := s, ec_received := (ec_received e)(i := ec_received e i @ ds), ec_failed := (ec_failed e)(i := f)\<rparr>"
  shows "\<exists>e2. note_deadline now i d e1 = Inr e2 \<and> echo_inv (note_down i (sv_objs (ec_server e) ! i) e2) \<and>
    echo_rel e (note_down i (sv_objs (ec_server e) ! i) e2)"
proof -
  let ?c = "sv_objs (ec_server e) ! i" let ?c' = "sv_objs s ! i"
  note D = echo_invD[OF e] and S = server_conn_Inr[OF run]
  have i: "i < length (sv_objs (ec_server e))" using S by simp
  have s: "server_inv s" "server_rel (ec_server e) s" using server_run.step_ok[OF D(1) leg] run by (auto dest: okE_Inr)
  have r: "run_inv ?c" "legal_label l ?c" using D(1) i leg by (simp_all add: server_inv_def)
  have p: "progress ?c ?c'" using okE_Inr[OF exec_ok[OF r]] S by blast
  have up: "connected ?c' \<Longrightarrow> connected ?c"
    using p r(1) by (cases "state ?c") (auto simp: progress_def connected_def run_inv_def less_eq_cstate_def)
  have dn: "disconnected ?c \<Longrightarrow> disconnected ?c'" using p by (simp add: progress_def disconnected_def)
  obtain tb where tb: "note_deadline now i d e1 = Inr (e1\<lparr>ec_connections := tb\<rparr>)"
      "\<And>j. j \<noteq> i \<Longrightarrow> tb j = ec_connections e j" "tb i \<noteq> None \<longleftrightarrow> ec_connections e i \<noteq> None \<or> d \<noteq> None"
    using note_deadline_ok[OF clock d(1), of i e1] by (auto simp: e1_def)
  let ?tb = "if \<not> disconnected ?c \<and> disconnected ?c' then tb(i := None) else tb"
  have n: "note_down i ?c (e1\<lparr>ec_connections := tb\<rparr>) = e\<lparr>ec_server := s, ec_connections := ?tb,
      ec_received := (ec_received e)(i := ec_received e i @ ds), ec_failed := (ec_failed e)(i := f)\<rparr>"
    by (simp add: note_down_def erase_connection_def e1_def)
  have tb': "tb i \<noteq> None \<Longrightarrow> \<not> disconnected ?c" using tb(3) d(2) D(5)[of i] by blast
  have "echo_inv (note_down i ?c (e1\<lparr>ec_connections := tb\<rparr>))" unfolding n
  proof (rule echo_inv_update[OF e s(1) _ _ i ec])
    show "sv_hasWCCb s" "sv_objs s = (sv_objs (ec_server e))[i := ?c']" using S D(2) by simp_all
    show "?tb j = ec_connections e j" if "j \<noteq> i" for j using tb(2) that by simp
    show "\<not> disconnected ?c'" if "?tb i \<noteq> None" using that tb' by (auto split: if_splits)
    show "?tb i \<noteq> None" if "connected ?c'"
      using that up tb(3) D(6)[OF i] by (auto simp: connected_def disconnected_def)
  qed
  moreover have "echo_rel e (note_down i ?c (e1\<lparr>ec_connections := tb\<rparr>))"
    using s(2) unfolding n by (simp add: echo_rel_def server_rel_def)
  ultimately show ?thesis using tb(1) by blast
qed

text \<open>The steps, one kind at a time.\<close>

lemma E_Event_ok:
  assumes e: "echo_inv e" and leg: "echo_legal (E_Event i rr wr wr2 revs now) e"
  shows "okE (\<lambda>e'. echo_inv e' \<and> echo_rel e e') (echo_exec (E_Event i rr wr wr2 revs now) e)"
proof -
  let ?c = "sv_objs (ec_server e) ! i" let ?l = "L_Event (echo_io (ec_timeout e) rr wr wr2) revs"
  note D = echo_invD[OF e]
  have l: "server_legal (SL_Conn i ?l) (ec_server e)" "clock_ok (ec_timeout e) now" using leg by simp_all
  then have i: "i < length (sv_objs (ec_server e))" "legal_label ?l ?c" by simp_all
  have r: "run_inv ?c" using D(1) i(1) by (simp add: server_inv_def)
  then have nd: "\<not> disconnected ?c" using run_inv_live[OF r] i(2) by (auto simp: live_def disconnected_def)
  show ?thesis unfolding echo_exec.simps Let_def
  proof (rule okE_event[OF server_run.step_ok[OF D(1) l(1)]])
    fix s
    assume s: "server_exec (SL_Conn i ?l) (ec_server e) = Inr s"
    note E = echo_event[OF r i(2) D(3)[OF i(1)]]
    have run: "exec ?l ?c = Inr (sv_objs s ! i)" using server_conn_Inr[OF s] by simp
    show "okE (\<lambda>e'. echo_inv e' \<and> echo_rel e e')
      (if message_runs rr revs ?c
       then bindE (note_deadline now i (snd (echo_onMessage (ec_timeout e) wr2)) (note_message i rr (gives_up wr2 ?c) (e\<lparr>ec_server := s\<rparr>)))
             (\<lambda>e2. Inr (note_down i ?c e2))
       else Inr (note_down i ?c (e\<lparr>ec_server := s\<rparr>)))"
    proof (cases "message_runs rr revs ?c")
      case True
      obtain e2 where "note_deadline now i (Some (ec_timeout e)) (e\<lparr>ec_server := s,
            ec_received := (ec_received e)(i := ec_received e i @ delivered rr),
            ec_failed := (ec_failed e)(i := ec_failed e i \<or> gives_up wr2 ?c)\<rparr>) = Inr e2"
          "echo_inv (note_down i ?c e2)" "echo_rel e (note_down i ?c e2)"
        using echo_step[OF e l(1) s, of "delivered rr" "ec_failed e i \<or> gives_up wr2 ?c" "Some (ec_timeout e)"] E[OF run] True l(2) nd
        by auto
      then show ?thesis using True by (simp add: echo_onMessage_def note_message_def)
    next
      case False
      then show ?thesis
        using echo_step[OF e l(1) s, of "[]" "ec_failed e i" None] E[OF run] l(2) by (simp add: note_deadline_def)
    qed
  qed
qed

lemma echo_task_legal:
  assumes e: "echo_inv e" and leg: "echo_legal (E_Task i now) e"
  shows "server_legal (SL_Conn i (L_Task (Write_Err EAGAIN) (fst (task_callback (ec_timeout e) (sv_objs (ec_server e) ! i))))) (ec_server e)"
proof -
  let ?c = "sv_objs (ec_server e) ! i" let ?cb = "task_callback (ec_timeout e) (sv_objs (ec_server e) ! i)"
  let ?l = "L_Task (Write_Err EAGAIN) (fst ?cb)"
  have i: "i < length (sv_objs (ec_server e))" and d: "snd ?cb \<noteq> None \<Longrightarrow> \<not> disconnected ?c" using leg by auto
  have c: "echo_conn (ec_received e i) (ec_failed e i) ?c" using echo_invD(3)[OF e i] .
  have "legal_label ?l ?c"
  proof (cases "pendingTasks ?c")
    case (Cons t ts)
    then show ?thesis using echo_pop(1)[OF c Cons] d
      by (cases t) (auto simp: echo_onWriteComplete_def echo_onHighWaterMark_def legal_close_def thenP_def disconnected_def split: sum.split)
  qed simp
  with i show ?thesis by simp
qed

lemma E_Task_ok:
  assumes e: "echo_inv e" and leg: "echo_legal (E_Task i now) e"
  shows "okE (\<lambda>e'. echo_inv e' \<and> echo_rel e e') (echo_exec (E_Task i now) e)"
proof -
  let ?c = "sv_objs (ec_server e) ! i" let ?cb = "task_callback (ec_timeout e) (sv_objs (ec_server e) ! i)"
  let ?l = "L_Task (Write_Err EAGAIN) (fst ?cb)"
  note D = echo_invD[OF e]
  have i: "i < length (sv_objs (ec_server e))" and clock: "clock_ok (ec_timeout e) now"
    and d: "snd ?cb \<noteq> None \<Longrightarrow> \<not> disconnected ?c" using leg by auto
  have r: "run_inv ?c" and c: "echo_conn (ec_received e i) (ec_failed e i) ?c"
    using D(1) D(3)[OF i] i by (simp_all add: server_inv_def)
  have cb: "snd ?cb \<in> {None, Some (ec_timeout e), Some (2 * ec_timeout e)}"
    by (auto simp: echo_onWriteComplete_def echo_onHighWaterMark_def split: list.splits ctask.splits)
  have l: "server_legal (SL_Conn i ?l) (ec_server e)" by (rule echo_task_legal[OF e leg])
  show ?thesis unfolding echo_exec.simps Let_def case_prod_beta
  proof (rule okE_event[OF server_run.step_ok[OF D(1) l]])
    fix s
    assume s: "server_exec (SL_Conn i ?l) (ec_server e) = Inr s"
    have "echo_conn (ec_received e i) (ec_failed e i) (sv_objs s ! i)"
      using echo_tasks[OF c] server_conn_Inr[OF s] by blast
    then show "okE (\<lambda>e'. echo_inv e' \<and> echo_rel e e')
      (bindE (note_deadline now i (snd ?cb) (e\<lparr>ec_server := s\<rparr>)) (\<lambda>e2. Inr (note_down i ?c e2)))"
      using echo_step[OF e l s, of "[]" "ec_failed e i", OF _ cb d clock] by auto
  qed
qed

lemma echo_new_conn:
  assumes "conn_start f True = Inr c"
  shows "echo_conn [] False (setHighWaterMarkCallback n c)" and "connected (setHighWaterMarkCallback n c)"
proof -
  have c: "conn_inv c" "state c = kConnected" "taken c = []" "pendingTasks c = []"
    using conn_start_ok[of f True] assms by auto
  obtain b where b: "buffer_new kInitialSize = Inr b" "contents b = []"
    using contents_buffer_new[of kInitialSize] by (auto simp: kInitialSize_def vec_max_def kCheapPrepend_def)
  have "isReading (chan c) \<and> hasWriteCompleteCb c \<and> inputBuffer c = b"
    using assms b(1)
    by (auto simp: conn_start_def conn_new_def connectEstablished_def setMessageCallback_def setWriteCompleteCallback_def
        setCloseCallBack_def on_chan_def enableRead_def bindE_eq_Inr isReading_def dest!: update_events)
  then show "echo_conn [] False (setHighWaterMarkCallback n c)" "connected (setHighWaterMarkCallback n c)"
    using c b(2) conn_invD(4)[OF c(1)]
    by (simp_all add: echo_conn_def echo_part_def setHighWaterMarkCallback_def connected_def)
qed

lemma echo_inv_accept:
  assumes e: "echo_inv e" and s: "server_inv s" "sv_hasWCCb s" "sv_objs s = sv_objs (ec_server e) @ [c]"
    and c: "echo_conn [] False c" "connected c"
  shows "echo_inv (e\<lparr>ec_server := s, ec_connections := (ec_connections e)(length (sv_objs (ec_server e)) \<mapsto> t)\<rparr>)"
proof -
  note D = echo_invD[OF e]
  let ?n = "length (sv_objs (ec_server e))"
  have new: "ec_received e ?n = []" "\<not> ec_failed e ?n" using D(4)[of ?n] by simp_all
  let ?tb = "(ec_connections e)(?n \<mapsto> t)"
  have old: "?tb j \<noteq> None \<Longrightarrow> j < length (sv_objs s) \<and> \<not> disconnected (sv_objs s ! j)" for j
    using D(5)[of j] c(2) by (cases "j = ?n") (auto simp: s(3) nth_append connected_def disconnected_def)
  have up: "j < length (sv_objs s) \<Longrightarrow> connected (sv_objs s ! j) \<Longrightarrow> ?tb j \<noteq> None" for j
    using D(6)[of j] by (cases "j = ?n") (auto simp: s(3) nth_append)
  have "j < length (sv_objs s) \<Longrightarrow> echo_conn (ec_received e j) (ec_failed e j) (sv_objs s ! j)" for j
    using D(3)[of j] c(1) new by (cases "j = ?n") (auto simp: s(3) nth_append)
  moreover have "length (sv_objs s) \<le> j \<Longrightarrow> ec_received e j = [] \<and> \<not> ec_failed e j" for j
    using D(4)[of j] by (simp add: s(3))
  ultimately show ?thesis
    using s(1,2) old up unfolding echo_inv_def Let_def by simp
qed

lemma E_Accept_ok:
  assumes e: "echo_inv e" and leg: "echo_legal (E_Accept revs res now) e"
  shows "okE (\<lambda>e'. echo_inv e' \<and> echo_rel e e') (echo_exec (E_Accept revs res now) e)"
proof -
  let ?n = "length (sv_objs (ec_server e))" let ?calls = "[Api_SetHighWater 1024]"
  note D = echo_invD[OF e]
  obtain f where f: "res = Accepted f" and pl: "polling (get_acceptor (ec_server e))" and clock: "clock_ok (ec_timeout e) now"
    using leg by (auto split: accept_result.splits)
  have l: "server_legal (SL_Accept revs res ?calls) (ec_server e)"
    using f pl by (simp add: thenP_def split: sum.split)
  show ?thesis unfolding echo_exec.simps Let_def echo_onConnection_def prod.case
  proof (rule okE_event[OF server_run.step_ok[OF D(1) l]])
    fix s
    assume s: "server_exec (SL_Accept revs res ?calls) (ec_server e) = Inr s" "server_inv s \<and> server_rel (ec_server e) s"
    note A = server_accept_Inr[OF D(1) s(1)[unfolded f]]
    have wc: "sv_hasWCCb s" using A D(2) by simp
    consider "sv_objs s = sv_objs (ec_server e)" |
        c where "conn_start f True = Inr c" "sv_objs s = sv_objs (ec_server e) @ [setHighWaterMarkCallback 1024 c]"
      using A D(2) by auto
    then show "okE (\<lambda>e'. echo_inv e' \<and> echo_rel e e')
      (if ?n < length (sv_objs s) then note_deadline now ?n (Some (ec_timeout e)) (e\<lparr>ec_server := s\<rparr>) else Inr (e\<lparr>ec_server := s\<rparr>))"
    proof cases
      case 1
      then show ?thesis using e s(2) wc by (simp add: echo_inv_def echo_rel_def Let_def)
    next
      case 2
      have "ns_add now (ec_timeout e) = Inr (now + ec_timeout e)"
        using clock by (simp add: ns_add_def ns_ok_def clock_ok_def time_ok_def)
      then show ?thesis
        using 2 echo_inv_accept[OF e _ wc 2(2) echo_new_conn[OF 2(1)]] s(2)
        by (simp add: note_deadline_def expireAfter_def echo_rel_def)
    qed
  qed
qed

text \<open>The loop of \<open>onTimeout\<close>.\<close>

lemma timeout_entry_ok:
  assumes e: "echo_inv e"
  shows "\<exists>e'. timeout_entry now i e = Inr e' \<and> echo_inv e' \<and> echo_rel e e'"
proof (cases "ec_connections e i")
  case None
  then show ?thesis using e echo_rel_refl by (simp add: timeout_entry_def)
next
  case (Some t)
  show ?thesis
  proof (cases "t \<le> now i")
    case False
    then show ?thesis using Some e echo_rel_refl by (simp add: timeout_entry_def)
  next
    case True
    note D = echo_invD[OF e]
    let ?c = "sv_objs (ec_server e) ! i" let ?l = "L_Call Api_ForceClose"
    have i: "i < length (sv_objs (ec_server e))" using D(5)[of i] Some by simp
    then have r: "run_inv ?c" using D(1) by (simp add: server_inv_def)
    then have "conn_inv ?c" "state ?c \<noteq> kConnecting" by (simp_all add: run_inv_def)
    from forceClose_ok[OF this] obtain c' where c': "forceClose ?c = Inr c'" "conn_inv c'" by blast
    have l: "server_legal (SL_Conn i ?l) (ec_server e)" using i by simp
    have ok: "okE (\<lambda>s. server_inv s \<and> server_rel (ec_server e) s) (server_exec (SL_Conn i ?l) (ec_server e))"
      using server_run.step_ok[OF D(1) l] .
    have "closedCalls c' = closedCalls ?c"
      using c'(1) by (auto simp: forceClose_def stateAtomicGetAndSet_def queue_task_def split: if_splits)
    then obtain s where s: "server_exec (SL_Conn i ?l) (ec_server e) = Inr s" "sv_objs s ! i = c'"
      using c'(1) i by (simp add: Let_def)
    have sv: "server_inv s" "server_rel (ec_server e) s" using okE_Inr[OF ok s(1)] by simp_all
    note S = server_conn_Inr[OF s(1)]
    have c2: "echo_conn (ec_received e i) (ec_failed e i) c'" "\<not> connected c'"
      using echo_forceClose[OF D(3)[OF i] c'(1)] r by (simp_all add: run_inv_def)
    have eq: "erase_connection i (e\<lparr>ec_server := s\<rparr>) = e\<lparr>ec_server := s, ec_connections := (ec_connections e)(i := None),
        ec_received := (ec_received e)(i := ec_received e i), ec_failed := (ec_failed e)(i := ec_failed e i)\<rparr>"
      by (simp add: erase_connection_def)
    have "echo_inv (erase_connection i (e\<lparr>ec_server := s\<rparr>))" unfolding eq
      by (rule echo_inv_update[OF e sv(1) _ _ i c2(1)]) (use S s(2) D(2) c2(2) in simp_all)
    moreover have "echo_rel e (erase_connection i (e\<lparr>ec_server := s\<rparr>))"
      using sv(2) by (simp add: erase_connection_def echo_rel_def server_rel_def)
    ultimately show ?thesis using Some True s(1) by (simp add: timeout_entry_def del: server_exec.simps)
  qed
qed

interpretation timeout_run: total_steps "timeout_entry now" "\<lambda>i e. True" echo_inv echo_rel for now
proof unfold_locales
  show "\<exists>e'. timeout_entry now i e = Inr e' \<and> echo_inv e' \<and> echo_rel e e'" if "echo_inv e" for i e
    using that by (rule timeout_entry_ok)
qed (blast intro: echo_rel_refl echo_rel_trans)+

lemma legal_fold_True: "legal_fold (\<lambda>i e. True) f xs s"
  by (induction xs arbitrary: s) (auto simp: thenP_def split: sum.split)

interpretation echo_run: safe_steps echo_exec echo_legal echo_inv echo_rel
proof unfold_locales
  show "okE (\<lambda>e'. echo_inv e' \<and> echo_rel e e') (echo_exec x e)" if "echo_inv e" "echo_legal x e" for e x
  proof (cases x)
    case (E_Timer now)
    have inv: "echo_inv e" by (rule that(1))
    obtain e' where "foldE (timeout_entry now) [0..<length (sv_objs (ec_server e))] e = Inr e'" "echo_inv e'" "echo_rel e e'"
      using timeout_run.run_total[OF inv legal_fold_True] by blast
    then show ?thesis by (simp add: E_Timer onTimeout_def)
  qed (use that E_Accept_ok E_Event_ok E_Task_ok in blast)+
qed (blast intro: echo_rel_refl echo_rel_trans)+

lemma echo_start_ok:
  assumes "echo_start timeout acceptFd oks ok = Inr e"
  shows "echo_inv e"
proof -
  obtain sv s where s: "server_new acceptFd oks = Inr sv" "server_start True ok (server_setCallbacks True True True sv) = Inr s"
      "e = \<lparr>ec_server = s, ec_timeout = timeout, ec_connections = Map.empty, ec_received = (\<lambda>i. []), ec_failed = (\<lambda>i. False)\<rparr>"
    using assms by (auto simp: echo_start_def bindE_eq_Inr)
  then show ?thesis using server_start_ok[OF s(1,2)] by (simp add: echo_inv_def)
qed

section \<open>Properties\<close>


text \<open>A message that arrives when nothing is waiting, and \<open>n\<close> bytes of it are written at once.\<close>

lemma send_rest_room:
  assumes inv: "buffer_ok (outputBuffer c)" "registered (ctls c) (chan c)"
    and n: "n \<le> length data" and room: "room (outputBuffer c) (length data)"
  shows "\<exists>c'. send_rest data (n, length data - n, False, c) = Inr c'"
proof (cases "n < length data")
  case True
  have t: "take (length data - n) (drop n data) = drop n data" by simp
  obtain ob where ob: "append_buf (drop n data) (outputBuffer c) = Inr ob"
    using append_fits[OF inv(1), of "drop n data"] room by (fastforce simp: room_def)
  obtain k where "enableWrite True (chan c) = Inr (with_events (events (chan c) OR EPOLLOUT) (chan c), k)"
    using enableWrite_ok[OF inv(2)] by auto
  then show ?thesis using True ob by (simp add: send_rest_def Let_def t on_chan_def queue_task_def)
qed (simp add: send_rest_def)

lemma send_has_room:
  assumes inv: "conn_inv c" and lv: "live c" and wr: "wr_ok c (length data) (Wrote n)" and nw: "\<not> isWriting (chan c)"
    and room: "room (outputBuffer c) (length data)"
  shows "\<exists>c'. sendInLoop True (Wrote n) data c = Inr c'"
proof -
  note D = conn_invD[OF inv]
  have n: "n \<le> length data" using wr by (simp add: wr_ok_def)
  have rb: "readableBytes (outputBuffer c) = 0" using D(9)[OF lv] nw length_contents[OF D(2)] by simp
  have sub: "sz_sub (length data) n = length data - n"
    using room_vec_max[OF room] vec_max_lt n by (simp add: sz_sub_small)
  have nd: "state c \<noteq> kDisconnected" using lv by (auto simp: live_def)
  let ?c1 = "c\<lparr>wire := wire c @ take n data\<rparr>"
  let ?c2 = "if length data - n = 0 \<and> hasWriteCompleteCb ?c1 then queue_task Task_WriteComplete ?c1 else ?c1"
  have "sendInLoop True (Wrote n) data c = send_rest data (n, length data - n, False, ?c2)"
    using nw rb nd sub by (simp add: sendInLoop_def send_rest_def Let_def)
  moreover have "buffer_ok (outputBuffer ?c2)" "registered (ctls ?c2) (chan ?c2)" "room (outputBuffer ?c2) (length data)"
    using D(2,3) room by (simp_all add: queue_task_def)
  ultimately show ?thesis using send_rest_room n by metis
qed

lemma first_message:
  assumes inv: "conn_inv c" and up: "connected c" and e: "contents (inputBuffer c) = []" "contents (outputBuffer c) = []"
    and ds: "ds \<noteq> []" "length ds \<le> writableBytes (inputBuffer c)" "room (outputBuffer c) (length ds)" and n: "n \<le> length ds"
    and tasks: "pendingTasks c = []" "length ds < highWaterMark c"
  shows "legal_label (L_Event (echo_io timeout (Read_Ok ds) wr (Wrote n)) EPOLLIN) c \<and>
    message_runs (Read_Ok ds) EPOLLIN c \<and>
    (\<exists>c'. exec (L_Event (echo_io timeout (Read_Ok ds) wr (Wrote n)) EPOLLIN) c = Inr c' \<and>
       connected c' \<and> contents (outputBuffer c') = drop n ds \<and>
       pendingTasks c' = (if n = length ds \<and> hasWriteCompleteCb c then [Task_WriteComplete] else []))"
proof -
  let ?io = "echo_io timeout (Read_Ok ds) wr (Wrote n)"
  let ?c1 = "upd_chan (\<lambda>ch. ch\<lparr>handlingEvents := True\<rparr>) (upd_chan (setRevents EPOLLIN) c)"
  have lv: "live c" and st: "state c = kConnected" using up by (simp_all add: live_def connected_def)
  note D = conn_invD[OF inv]
  have sel: "inputBuffer ?c1 = inputBuffer c" "outputBuffer ?c1 = outputBuffer c" "state ?c1 = state c" "isWriting (chan ?c1) = isWriting (chan c)"
    "wrShut ?c1 = wrShut c" "pendingTasks ?c1 = pendingTasks c" "hasHighWaterCb ?c1 = hasHighWaterCb c" "highWaterMark ?c1 = highWaterMark c"
    "hasWriteCompleteCb ?c1 = hasWriteCompleteCb c" "hasMessageCb ?c1 = hasMessageCb c"
    by (simp_all add: upd_chan_def setRevents_def isWriting_def)
  have inv1: "conn_inv ?c1" using inv by (simp only: conn_inv_upd)
  have nw: "\<not> isWriting (chan c)" "\<not> wrShut c" using D(9)[OF lv] D(10) e(2) st by auto
  have d: "dispatch (setRevents EPOLLIN (chan c)) = [ReadCb]"
    using inv by (simp add: dispatch_def wantsClose_def wantsError_def wantsRead_def wantsWrite_def setRevents_def has_bits
        has_or bit_masks conn_inv_def)
  have d': "dispatch (chan (upd_chan (setRevents EPOLLIN) c)) = [ReadCb]" using d by (simp add: upd_chan_def)
  obtain b where b: "readFd (Read_Ok ds) (inputBuffer c) = Inr (int (length ds), None, b)" "buffer_ok b" "contents b = ds"
    using readFd_small[OF D(1) ds(2)] e(1) by auto
  let ?c2 = "?c1\<lparr>inputBuffer := b\<rparr>"
  have c2: "conn_inv ?c2" "live ?c2" using conn_inv_input[OF inv1 b(2)] lv sel(3) by (simp_all add: live_def)
  have wr: "wr_ok ?c2 (length ds) (Wrote n)" using n nw(2) sel(5) by (simp add: wr_ok_def)
  obtain c3 where c3: "sendInLoop True (Wrote n) ds ?c2 = Inr c3"
    using send_has_room[OF c2 wr] nw(1) sel(2,4) ds(3) by auto
  have len: "length ds \<le> vec_max" by (rule room_vec_max[OF ds(3)])
  have P: "contents (outputBuffer c3) = drop n ds"
      "pendingTasks c3 = (if n = length ds \<and> hasWriteCompleteCb c then [Task_WriteComplete] else [])"
    using okE_Inr[OF send_parts_ok[OF c2(1,2) len wr] c3] sel nw e(2) tasks n
    by (auto simp: send_parts_def left_over_def expected_tasks_def Let_def)
  have k: "state c3 = kConnected"
    using okE_Inr[OF sendInLoop_ok[OF c2(1) _ len wr] c3] st sel(3) by (auto simp: kept_def)
  have r: "conn_cb ?io ReadCb ?c1 = Inr (c3\<lparr>inputBuffer := retrieveAll (inputBuffer c3)\<rparr>)"
    using b ds(1) st sel D(5) c3 contents_peek[OF b(2)]
    by (simp add: handleRead_def echo_io_def user_cb_def echo_onMessage_def sendInput_def Let_def)
  have l: "legal_read ?io ?c1"
    using b ds(1,2) n nw(2) sel(1,5)
    by (simp add: legal_read_def echo_io_def echo_onMessage_def readv_limit_def wr_ok_def thenP_def split: sum.split)
  have "reported_ok EPOLLIN c" by (simp add: reported_ok_def has_bits bit_masks)
  then have leg: "legal_event ?io EPOLLIN c"
    using l r unfolding legal_event_def Let_def d' by (simp del: conn_cb.simps)
  have "polling (chan c)" using D(7)[OF lv] .
  moreover have "message_runs (Read_Ok ds) EPOLLIN c" using ds(1) by (simp add: message_runs_def d delivered_def)
  moreover have "exec (L_Event ?io EPOLLIN) c = Inr (upd_chan (\<lambda>ch. ch\<lparr>handlingEvents := False\<rparr>) (c3\<lparr>inputBuffer := retrieveAll (inputBuffer c3)\<rparr>))"
    using r conn_event_callbacks(1)[OF inv lv leg] by (simp add: d del: conn_cb.simps)
  ultimately show ?thesis using leg P k by (simp add: upd_chan_def connected_def)
qed

section \<open>A timeout at the wrong moment\<close>

text \<open>
  What a connection goes through when it is told to close, its output drains in the same turn of the loop,
  and then the two tasks run.
\<close>

lemma server_conn_exec:
  assumes "i < length (sv_objs s)" and "exec l (sv_objs s ! i) = Inr c" and "closedCalls c = closedCalls (sv_objs s ! i)"
  shows "server_exec (SL_Conn i l) s = Inr (s\<lparr>sv_objs := (sv_objs s)[i := c]\<rparr>)"
  using assms by simp

lemma closing_drains:
  assumes inv: "conn_inv c" and st: "state c = kDisconnecting" and ne: "contents (outputBuffer c) \<noteq> []" and ns: "\<not> wrShut c"
    and p: "pendingTasks c = [Task_ForceClose]" and wc: "hasWriteCompleteCb c"
    and i: "i = echo_io timeout rr (Wrote (length (contents (outputBuffer c)))) wr2"
  obtains c' where "legal_label (L_Event i EPOLLOUT) c" "exec (L_Event i EPOLLOUT) c = Inr c'" "conn_inv c'"
    "state c' = kDisconnecting" "pendingTasks c' = [Task_ForceClose, Task_WriteComplete]"
proof -
  let ?n = "length (contents (outputBuffer c))"
  let ?c1 = "upd_chan (\<lambda>ch. ch\<lparr>handlingEvents := True\<rparr>) (upd_chan (setRevents EPOLLOUT) c)"
  have lv: "live c" using st by (simp add: live_def)
  note D = conn_invD[OF inv]
  have w: "isWriting (chan c)" using D(9)[OF lv] ne by simp
  have sel: "outputBuffer ?c1 = outputBuffer c" "state ?c1 = state c" "isWriting (chan ?c1) = isWriting (chan c)"
    "wrShut ?c1 = wrShut c" "pendingTasks ?c1 = pendingTasks c" "hasWriteCompleteCb ?c1 = hasWriteCompleteCb c"
    by (simp_all add: upd_chan_def setRevents_def isWriting_def)
  have c1: "conn_inv ?c1" "live ?c1" "isWriting (chan ?c1)" "wr_ok ?c1 (length (contents (outputBuffer ?c1))) (Wrote ?n)"
    using inv lv w ns sel by (simp_all only: conn_inv_upd) (simp_all add: live_def wr_ok_def)
  have d: "dispatch (setRevents EPOLLOUT (chan c)) = [WriteCb]"
    using inv by (simp add: dispatch_def wantsClose_def wantsError_def wantsRead_def wantsWrite_def setRevents_def has_bits
        has_or bit_masks EPOLLRDHUP_def conn_inv_def) (simp add: has_def EPOLLOUT_def)
  have d': "dispatch (chan (upd_chan (setRevents EPOLLOUT) c)) = [WriteCb]" using d by (simp add: upd_chan_def)
  have "reported_ok EPOLLOUT c" using w by (simp add: reported_ok_def has_bits bit_masks)
  then have leg: "legal_event i EPOLLOUT c"
    using c1(4) sel(1) unfolding legal_event_def Let_def d' by (simp add: i echo_io_def thenP_def split: sum.split)
  obtain c2 where c2: "handleWrite (Wrote ?n) ?c1 = Inr c2" "conn_inv c2" "state c2 = kDisconnecting" "contents (outputBuffer c2) = []"
    using handleWrite_ok[OF c1] sel(1,2) st by auto
  have nd: "state ?c1 \<noteq> kDisconnected" using st sel(2) by simp
  have "pendingTasks c2 = [Task_ForceClose, Task_WriteComplete]"
  proof (rule handleWrite_Inr[OF c2(1) nd])
    fix ob
    assume ob: "outputBuffer c2 = ob" "pendingTasks c2 = pendingTasks ?c1 @
        (if readableBytes ob = 0 \<and> hasWriteCompleteCb ?c1 then [Task_WriteComplete] else [])"
    then show "pendingTasks c2 = [Task_ForceClose, Task_WriteComplete]"
      using length_contents[OF conn_invD(2)[OF c2(2)]] c2(4) p wc sel(5,6) by simp
  qed
  moreover have "exec (L_Event i EPOLLOUT) c = Inr (upd_chan (\<lambda>ch. ch\<lparr>handlingEvents := False\<rparr>) c2)"
    using c2(1) conn_event_callbacks(1)[OF inv lv leg] by (simp add: d i echo_io_def)
  moreover have "conn_inv (upd_chan (\<lambda>ch. ch\<lparr>handlingEvents := False\<rparr>) c2)" using c2(2) by (simp only: conn_inv_upd)
  moreover have "legal_label (L_Event i EPOLLOUT) c" using leg D(7)[OF lv] by simp
  ultimately show ?thesis
    using c2(3) by (intro that[of "upd_chan (\<lambda>ch. ch\<lparr>handlingEvents := False\<rparr>) c2"]) (simp_all add: upd_chan_def)
qed

lemma closing_task:
  assumes inv: "conn_inv c" and lv: "live c" and p: "pendingTasks c = Task_ForceClose # ts"
  obtains c' where "exec (L_Task (Write_Err EAGAIN) []) c = Inr c'" "conn_inv c'" "disconnected c'" "pendingTasks c' = ts"
proof -
  let ?c = "c\<lparr>pendingTasks := ts\<rparr>"
  have c: "conn_inv ?c" "live ?c" using conn_inv_pop[OF inv p] lv by (simp_all add: live_def)
  obtain c' where c': "closing ?c = Inr c'" "conn_inv c'" "state c' = kDisconnected" using closing_ok[OF c] by blast
  have st: "state c = kConnected \<or> state c = kDisconnecting" using lv by (simp add: live_def)
  have "handleClose True [] ?c = Inr c'"
    using c'(1) st conn_invD(6)[OF inv] by (auto simp: handleClose_def closing_def on_chan_def user_cb_def bindE_eq_Inr)
  moreover have "pendingTasks c' = ts" using c'(1) by (auto simp: closing_def on_chan_def bindE_eq_Inr)
  ultimately show ?thesis using st p c' by (intro that[of c']) (auto simp: forceCloseInLoop_def disconnected_def)
qed

text \<open>The timer's loop does to each connection what its entry asks, and nothing to the others.\<close>

lemma timeout_other:
  assumes "timeout_entry now j e = Inr e'" and "j \<noteq> i"
  shows "sv_objs (ec_server e') ! i = sv_objs (ec_server e) ! i \<and> ec_connections e' i = ec_connections e i \<and>
    length (sv_objs (ec_server e')) = length (sv_objs (ec_server e)) \<and> ec_timeout e' = ec_timeout e"
proof (cases "\<exists>t. ec_connections e j = Some t \<and> t \<le> now j")
  case True
  then obtain s where s: "server_exec (SL_Conn j (L_Call Api_ForceClose)) (ec_server e) = Inr s"
      "e' = erase_connection j (e\<lparr>ec_server := s\<rparr>)"
    using assms(1) by (auto simp: timeout_entry_def bindE_eq_Inr simp del: server_exec.simps)
  note S = server_conn_Inr[OF s(1)]
  have "length (sv_objs s) = length (sv_objs (ec_server e))" "sv_objs s ! i = sv_objs (ec_server e) ! i"
    using S assms(2) by (metis length_list_update, metis nth_list_update_neq)
  then show ?thesis using assms(2) by (simp add: s(2) erase_connection_def)
next
  case False
  then show ?thesis using assms(1) by (auto simp: timeout_entry_def split: option.splits if_splits)
qed

lemma timeout_others:
  assumes "foldE (timeout_entry now) js e = Inr e'" and "i \<notin> set js"
  shows "sv_objs (ec_server e') ! i = sv_objs (ec_server e) ! i \<and> ec_connections e' i = ec_connections e i \<and>
    length (sv_objs (ec_server e')) = length (sv_objs (ec_server e)) \<and> ec_timeout e' = ec_timeout e"
  using assms
proof (induction js arbitrary: e)
  case Nil
  then show ?case by simp
next
  case (Cons j js)
  then obtain e1 where e1: "timeout_entry now j e = Inr e1" "foldE (timeout_entry now) js e1 = Inr e'"
    by (auto simp: bindE_eq_Inr)
  show ?case using timeout_other[OF e1(1), of i] Cons.IH[OF e1(2)] Cons.prems(2) by simp
qed

lemma onTimeout_expires:
  assumes inv: "echo_inv e" and i: "i < length (sv_objs (ec_server e))" and up: "connected (sv_objs (ec_server e) ! i)"
    and t: "ec_connections e i = Some t" "t \<le> now i"
  obtains e' where "onTimeout now e = Inr e'" "echo_inv e'" "ec_timeout e' = ec_timeout e" "ec_connections e' i = None"
    "length (sv_objs (ec_server e')) = length (sv_objs (ec_server e))"
    "forceClose (sv_objs (ec_server e) ! i) = Inr (sv_objs (ec_server e') ! i)"
proof -
  let ?n = "length (sv_objs (ec_server e))"
  have sp: "[0..<?n] = [0..<i] @ i # [Suc i..<?n]"
    using i by (metis less_imp_le_nat upt_add_eq_append[of 0 i "?n - i"] le_add_diff_inverse upt_conv_Cons zero_le)
  obtain e3 where e3: "foldE (timeout_entry now) [0..<?n] e = Inr e3" "echo_inv e3"
    using timeout_run.run_total[OF inv legal_fold_True] by blast
  then obtain e1 e2 where e12: "foldE (timeout_entry now) [0..<i] e = Inr e1" "timeout_entry now i e1 = Inr e2"
      "foldE (timeout_entry now) [Suc i..<?n] e2 = Inr e3"
    unfolding sp by (auto simp: foldE_append bindE_eq_Inr)
  have 1: "sv_objs (ec_server e1) ! i = sv_objs (ec_server e) ! i" "ec_connections e1 i = Some t"
      "length (sv_objs (ec_server e1)) = ?n" "ec_timeout e1 = ec_timeout e"
    using timeout_others[OF e12(1), of i] t(1) by simp_all
  obtain s where s: "server_exec (SL_Conn i (L_Call Api_ForceClose)) (ec_server e1) = Inr s"
      "e2 = erase_connection i (e1\<lparr>ec_server := s\<rparr>)"
    using e12(2) 1(2) t(2) by (auto simp: timeout_entry_def bindE_eq_Inr simp del: server_exec.simps)
  note S = server_conn_Inr[OF s(1)]
  have 2: "length (sv_objs s) = ?n" using S 1(3) by (metis length_list_update)
  have 3: "sv_objs (ec_server e3) ! i = sv_objs s ! i" "ec_connections e3 i = None" "length (sv_objs (ec_server e3)) = ?n"
      "ec_timeout e3 = ec_timeout e"
    using timeout_others[OF e12(3), of i] 1(4) 2 by (simp_all add: s(2) erase_connection_def)
  show ?thesis using S 1(1) 3 e3 by (intro that[of e3]) (simp_all add: onTimeout_def)
qed

lemma server_conn_runs:
  assumes "server_inv s" and "server_legal (SL_Conn i l) s" and "exec l (sv_objs s ! i) = Inr c"
  obtains s' where "server_exec (SL_Conn i l) s = Inr s'" "server_inv s'" "sv_objs s' = (sv_objs s)[i := c]"
proof -
  have "okE (\<lambda>s'. server_inv s' \<and> server_rel s s') (server_exec (SL_Conn i l) s)"
    using server_run.step_ok[OF assms(1,2)] .
  moreover have "server_exec (SL_Conn i l) s \<noteq> Inl Length_Error"
    using assms(3) by (auto simp: server_closeConnection_def Let_def assertE_def)
  ultimately obtain s' where s': "server_exec (SL_Conn i l) s = Inr s'" "server_inv s'"
    by (cases "server_exec (SL_Conn i l) s") auto
  then have "sv_objs s' = (sv_objs s)[i := c]" using server_conn_Inr[OF s'(1)] assms(3) by simp
  with s' show ?thesis by (rule that)
qed

text \<open>An event with nothing to read, and a task that only acts on the connection, in terms of the server.\<close>

lemma E_Event_out:
  assumes inv: "conn_inv (sv_objs (ec_server e) ! i)"
    and s: "server_exec (SL_Conn i (L_Event (echo_io (ec_timeout e) rr wr wr2) EPOLLOUT)) (ec_server e) = Inr s"
    and up: "\<not> disconnected (sv_objs s ! i)"
  shows "echo_exec (E_Event i rr wr wr2 EPOLLOUT now) e = Inr (e\<lparr>ec_server := s\<rparr>)"
proof -
  have "ReadCb \<notin> set (dispatch (setRevents EPOLLOUT (chan (sv_objs (ec_server e) ! i))))"
    by (simp add: dispatch_def wantsRead_def setRevents_def has_bits has_or bit_masks)
  then show ?thesis using s up by (simp add: message_runs_def note_down_def Let_def del: server_exec.simps)
qed

lemma closing_turn:
  assumes s: "server_inv (ec_server e)" and i: "i < length (sv_objs (ec_server e))" and c: "c = sv_objs (ec_server e) ! i"
    and st: "state c = kDisconnecting" "contents (outputBuffer c) \<noteq> []" "\<not> wrShut c" "pendingTasks c = [Task_ForceClose]"
      "hasWriteCompleteCb c" and clock: "clock_ok (ec_timeout e) now"
  shows "\<exists>e'. foldE echo_exec [E_Event i rr (Wrote (length (contents (outputBuffer c)))) wr2 EPOLLOUT now,
      E_Task i now, E_Task i now] e = Inr e' \<and>
    disconnected (sv_objs (ec_server e') ! i) \<and> ec_connections e' i \<noteq> None \<and>
    interest_after (ctls (sv_objs (ec_server e') ! i)) = Inr (Some (EPOLLIN OR EPOLLPRI)) \<and>
    (\<forall>rr wr wr2 n. echo_exec (E_Event i rr wr wr2 EPOLLIN n) e' = Inl Assert_Failed)"
proof -
  let ?s = "ec_server e" let ?wr = "Wrote (length (contents (outputBuffer c)))" let ?t = "ec_timeout e"
  let ?l1 = "L_Event (echo_io ?t rr ?wr wr2) EPOLLOUT" let ?l2 = "L_Task (Write_Err EAGAIN) []"
    and ?l3 = "L_Task (Write_Err EAGAIN) [Api_StartRead]"
  have inv: "conn_inv c" using s i c by (simp add: server_inv_def run_inv_def)
  obtain c1 where c1: "legal_label ?l1 c" "exec ?l1 c = Inr c1" "conn_inv c1" "state c1 = kDisconnecting"
      "pendingTasks c1 = [Task_ForceClose, Task_WriteComplete]"
    using closing_drains[OF inv st refl] by blast
  obtain s1 where s1: "server_exec (SL_Conn i ?l1) ?s = Inr s1" "server_inv s1" "sv_objs s1 = (sv_objs ?s)[i := c1]"
    using server_conn_runs[OF s, of i ?l1 c1] c1(1,2) i c by auto
  have o1: "sv_objs s1 ! i = c1" "i < length (sv_objs s1)" using s1(3) i by simp_all
  have lv: "live c1" using c1(4) by (simp add: live_def)
  obtain c2 where c2: "exec ?l2 c1 = Inr c2" "conn_inv c2" "disconnected c2" "pendingTasks c2 = [Task_WriteComplete]"
    using closing_task[OF c1(3) lv c1(5)] by blast
  have "legal_label ?l2 c1" using c1(5) by (simp add: legal_close_def thenP_def split: sum.split)
  then obtain s2 where s2: "server_exec (SL_Conn i ?l2) s1 = Inr s2" "server_inv s2" "sv_objs s2 = (sv_objs s1)[i := c2]"
    using server_conn_runs[OF s1(2), of i ?l2 c2] c2(1) o1 by auto
  have o2: "sv_objs s2 ! i = c2" "i < length (sv_objs s2)" using s2(3) o1 by simp_all
  have c2': "conn_inv (c2\<lparr>pendingTasks := []\<rparr>)" "disconnected (c2\<lparr>pendingTasks := []\<rparr>)"
    using conn_inv_pop[OF c2(2,4)] c2(3) by (simp_all add: disconnected_def)
  obtain c3 where c3: "startRead True (c2\<lparr>pendingTasks := []\<rparr>) = Inr c3"
      "interest_after (ctls c3) = Inr (Some (EPOLLIN OR EPOLLPRI))" "disconnected c3"
    using startRead_after_close[OF c2'] by blast
  have bad: "conn_handleEvents io EPOLLIN c3 = Inl Assert_Failed" for io
    using startRead_after_close[OF c2', of io] c3(1) by auto
  have run3: "exec ?l3 c2 = Inr c3" using c2(4) c3(1) by simp
  have "c3 = (c2\<lparr>pendingTasks := []\<rparr>)\<lparr>chan := chan c3, ctls := ctls c3\<rparr>" using reading_calls(1)[OF c3(1)] ..
  then have "closedCalls c3 = closedCalls ((c2\<lparr>pendingTasks := []\<rparr>)\<lparr>chan := chan c3, ctls := ctls c3\<rparr>)" by (rule arg_cong)
  then have "closedCalls c3 = closedCalls c2" by simp
  then have s3: "server_exec (SL_Conn i ?l3) s2 = Inr (s2\<lparr>sv_objs := (sv_objs s2)[i := c3]\<rparr>)"
    using server_conn_exec o2 run3 by simp
  have nr: "\<not> isReading (chan c2)" using c2(2,3) by (simp add: conn_inv_def live_def disconnected_def isReading_def)
  have cb: "task_callback ?t c1 = ([], None)" "task_callback ?t c2 = ([Api_StartRead], Some ?t)"
    using c1(5) c2(4) nr by (simp_all add: echo_onWriteComplete_def)
  have na: "ns_add now ?t = Inr (now + ?t)" using clock by (simp add: ns_add_def ns_ok_def clock_ok_def time_ok_def)
  let ?e1 = "e\<lparr>ec_server := s1\<rparr>"
  let ?e2 = "erase_connection i (e\<lparr>ec_server := s2\<rparr>)"
  let ?e3 = "?e2\<lparr>ec_server := s2\<lparr>sv_objs := (sv_objs s2)[i := c3]\<rparr>, ec_connections := (ec_connections ?e2)(i \<mapsto> now + ?t)\<rparr>"
  have 1: "echo_exec (E_Event i rr ?wr wr2 EPOLLOUT now) e = Inr ?e1"
    using inv c s1(1) o1 c1(4) by (intro E_Event_out) (simp_all add: disconnected_def)
  have 2: "echo_exec (E_Task i now) ?e1 = Inr ?e2"
    using s2(1) o1 o2 c1(4) c2(3) cb(1) by (simp add: note_deadline_def note_down_def disconnected_def del: server_exec.simps task_callback.simps)
  have 3: "echo_exec (E_Task i now) ?e2 = Inr ?e3"
    using s3 o2 c2(3) cb(2) na
    by (simp add: erase_connection_def note_deadline_def expireAfter_def note_down_def disconnected_def del: server_exec.simps task_callback.simps)
  have "echo_exec (E_Event i rr wr wr2 EPOLLIN n) ?e3 = Inl Assert_Failed" for rr wr wr2 n
    using bad o2 by (simp add: erase_connection_def)
  then show ?thesis using 1 2 3 c3(2,3) o2 by (intro exI[of _ ?e3]) (simp add: erase_connection_def del: echo_exec.simps)
qed

text \<open>
  C35: A connection that times out while its output drains brings the echo server down. In every state
  the server can reach, take a connection that is up, has output waiting, and whose deadline has passed. In one
  turn of the loop the timer queues its closing, the event of the socket drains the output and queues
  the write-complete callback, and the two tasks run in this order: the connection is closed, and then
  \<open>onWriteComplete\<close> finds that it does not read and calls \<open>startRead\<close>. The descriptor is registered again,
  the closed connection has a deadline again, and the next event of the socket fails an assert.
\<close>

theorem echo_timeout_aborts:
  assumes "echo_start timeout acceptFd oks ok = Inr e0" and "legal_fold echo_legal echo_exec xs e0"
    and "foldE echo_exec xs e0 = Inr e"
    and "i < length (sv_objs (ec_server e))" and "c = sv_objs (ec_server e) ! i"
    and "connected c" and "contents (outputBuffer c) \<noteq> []" and "pendingTasks c = []"
    and "ec_connections e i = Some t" and "t \<le> now i" and "clock_ok (ec_timeout e) now2"
  shows "\<exists>e'. foldE echo_exec [E_Timer now, E_Event i rr (Wrote (length (contents (outputBuffer c)))) wr2 EPOLLOUT now2,
      E_Task i now2, E_Task i now2] e = Inr e' \<and>
    disconnected (sv_objs (ec_server e') ! i) \<and> ec_connections e' i \<noteq> None \<and>
    interest_after (ctls (sv_objs (ec_server e') ! i)) = Inr (Some (EPOLLIN OR EPOLLPRI)) \<and>
    (\<forall>rr wr wr2 n. echo_exec (E_Event i rr wr wr2 EPOLLIN n) e' = Inl Assert_Failed)"
proof -
  have inv: "echo_inv e" using echo_run.run_Inr[OF echo_start_ok[OF assms(1)] assms(2,3)] by simp
  have c: "conn_inv c" "hasWriteCompleteCb c" "state c = kConnected"
    using echo_invD(1)[OF inv] echo_invD(3)[OF inv assms(4)] assms(4-6)
    by (simp_all add: server_inv_def run_inv_def echo_conn_def echo_part_def connected_def)
  have ns: "\<not> wrShut c" using conn_invD(10)[OF c(1)] c(3) by auto
  have "connected (sv_objs (ec_server e) ! i)" using assms(5,6) by simp
  from onTimeout_expires[OF inv assms(4) this assms(9), of now, OF assms(10)] obtain e1 where
    e1: "onTimeout now e = Inr e1" "echo_inv e1" "ec_timeout e1 = ec_timeout e"
      "length (sv_objs (ec_server e1)) = length (sv_objs (ec_server e))"
      "forceClose c = Inr (sv_objs (ec_server e1) ! i)" unfolding assms(5) by metis
  let ?c1 = "sv_objs (ec_server e1) ! i"
  have c1: "state ?c1 = kDisconnecting" "outputBuffer ?c1 = outputBuffer c" "pendingTasks ?c1 = [Task_ForceClose]"
      "hasWriteCompleteCb ?c1" "\<not> wrShut ?c1"
  proof -
    have "?c1 = c\<lparr>state := kDisconnecting, pendingTasks := [Task_ForceClose]\<rparr>"
      using e1(5) c(3) assms(8) by (simp add: forceClose_def stateAtomicGetAndSet_def queue_task_def)
    then show "state ?c1 = kDisconnecting" "outputBuffer ?c1 = outputBuffer c" "pendingTasks ?c1 = [Task_ForceClose]"
      "hasWriteCompleteCb ?c1" "\<not> wrShut ?c1" using c(2) ns by simp_all
  qed
  show ?thesis
    using closing_turn[OF echo_invD(1)[OF e1(2)] _ refl c1(1) _ c1(5,3,4), of now2 rr wr2] e1(1,3,4) assms(4,7,11) c1(2)
    by simp
qed

text \<open>A server with one connection that has received a message and written \<open>n\<close> of its two bytes.\<close>

lemma demo_accepted:
  "\<exists>e0 e c0. echo_start 5 3 [True, True, True] True = Inr e0 \<and> echo_legal (E_Accept EPOLLIN (Accepted 7) 100) e0 \<and>
     echo_exec (E_Accept EPOLLIN (Accepted 7) 100) e0 = Inr e \<and> conn_start 7 True = Inr c0 \<and>
     sv_objs (ec_server e) = [setHighWaterMarkCallback 1024 c0] \<and> ec_connections e = [0 \<mapsto> 105] \<and> ec_timeout e = 5 \<and>
     ec_received e 0 = [] \<and> \<not> ec_failed e 0"
  by (simp add: echo_start_def server_new_def acceptor_new_def setNewConnectionCallback_def server_start_def
      server_setCallbacks_def acceptor_listen_def echo_onConnection_def note_deadline_def expireAfter_def clock_ok_def
      time_ok_def ns_add_def ns_ok_def setHighWaterMarkCallback_def server_eval conn_eval fun_upd_def)

lemma conn_start_room:
  assumes "conn_start f w = Inr c"
  shows "2 \<le> writableBytes (inputBuffer c) \<and> room (outputBuffer c) 2"
  using assms by (auto simp: conn_eval room_def)

lemma demo_received:
  assumes "n \<le> 2"
  shows "\<exists>e0 e. echo_start 5 3 [True, True, True] True = Inr e0 \<and>
    legal_fold echo_legal echo_exec [E_Accept EPOLLIN (Accepted 7) 100,
      E_Event 0 (Read_Ok ''hi'') (Write_Err EAGAIN) (Wrote n) EPOLLIN 101] e0 \<and>
    foldE echo_exec [E_Accept EPOLLIN (Accepted 7) 100,
      E_Event 0 (Read_Ok ''hi'') (Write_Err EAGAIN) (Wrote n) EPOLLIN 101] e0 = Inr e \<and>
    length (sv_objs (ec_server e)) = 1 \<and> connected (sv_objs (ec_server e) ! 0) \<and>
    contents (outputBuffer (sv_objs (ec_server e) ! 0)) = drop n ''hi'' \<and>
    pendingTasks (sv_objs (ec_server e) ! 0) = (if n = 2 then [Task_WriteComplete] else []) \<and>
    ec_connections e 0 = Some 106 \<and> ec_timeout e = 5 \<and> ec_received e 0 = ''hi'' \<and> \<not> ec_failed e 0"
proof -
  let ?x = "E_Accept EPOLLIN (Accepted 7) 100"
  obtain e0 e1 c0 where e1: "echo_start 5 3 [True, True, True] True = Inr e0" "echo_legal ?x e0" "echo_exec ?x e0 = Inr e1"
      "conn_start 7 True = Inr c0" "sv_objs (ec_server e1) = [setHighWaterMarkCallback 1024 c0]"
      "ec_connections e1 = [0 \<mapsto> 105]" "ec_timeout e1 = 5" "ec_received e1 0 = []" "\<not> ec_failed e1 0"
    using demo_accepted by blast
  let ?c = "setHighWaterMarkCallback 1024 c0"
  have inv: "echo_inv e1" using okE_Inr[OF echo_run.step_ok[OF echo_start_ok[OF e1(1)] e1(2)] e1(3)] by simp
  have c: "conn_inv ?c" "run_inv ?c" using inv e1(5) by (simp_all add: echo_inv_def Let_def server_inv_def run_inv_def)
  note N = echo_new_conn[OF e1(4), of 1024]
  have out: "contents (outputBuffer ?c) = []"
    using conn_start_ok[of 7 True] e1(4) conn_invD(4)[of c0] by (auto simp: setHighWaterMarkCallback_def)
  have sel: "contents (inputBuffer ?c) = []" "hasWriteCompleteCb ?c" "pendingTasks ?c = []" "highWaterMark ?c = 1024"
    using N conn_start_ok[of 7 True] e1(4) by (auto simp: echo_conn_def echo_part_def setHighWaterMarkCallback_def)
  have fit: "length ''hi'' \<le> writableBytes (inputBuffer ?c)" "room (outputBuffer ?c) (length ''hi'')"
    using conn_start_room[OF e1(4)] by (simp_all add: setHighWaterMarkCallback_def eval_nat_numeral)
  let ?l = "L_Event (echo_io 5 (Read_Ok ''hi'') (Write_Err EAGAIN) (Wrote n)) EPOLLIN"
  obtain c' where c': "legal_label ?l ?c" "message_runs (Read_Ok ''hi'') EPOLLIN ?c" "exec ?l ?c = Inr c'" "connected c'"
      "contents (outputBuffer c') = drop n ''hi''" "pendingTasks c' = (if n = 2 then [Task_WriteComplete] else [])"
    using first_message[OF c(1) N(2) sel(1) out _ fit, of n 5 "Write_Err EAGAIN"] assms sel by auto
  obtain s where s: "server_exec (SL_Conn 0 ?l) (ec_server e1) = Inr s" "sv_objs s = [c']"
    using server_conn_runs[OF echo_invD(1)[OF inv], of 0 ?l c'] c'(1,3) e1(5) by auto
  let ?y = "E_Event 0 (Read_Ok ''hi'') (Write_Err EAGAIN) (Wrote n) EPOLLIN 101"
  have l: "echo_legal ?y e1" using c'(1) e1(5,7) by (simp add: clock_ok_def time_ok_def)
  have r: "echo_exec ?y e1 = Inr (e1\<lparr>ec_server := s, ec_received := (ec_received e1)(0 := ''hi''),
      ec_connections := [0 \<mapsto> 106]\<rparr>)"
    using s c'(2,4) e1(5-9)
    by (simp add: echo_onMessage_def note_message_def note_deadline_def expireAfter_def note_down_def ns_add_def ns_ok_def
        delivered_def gives_up_def connected_def disconnected_def del: server_exec.simps)
  show ?thesis using e1(1-3) l r s(2) c'(4-6) e1(7,9) by (simp del: echo_exec.simps echo_legal.simps)
qed


lemma echo_timeout_aborts_witness:
  "\<exists>e0 e. echo_start 5 3 [True, True, True] True = Inr e0 \<and>
    foldE echo_exec [E_Accept EPOLLIN (Accepted 7) 100,
      E_Event 0 (Read_Ok ''hi'') (Write_Err EAGAIN) (Wrote 1) EPOLLIN 101] e0 = Inr e \<and>
    foldE echo_exec [E_Timer (\<lambda>i. 106), E_Event 0 (Read_Err 0) (Wrote 1) (Write_Err EAGAIN) EPOLLOUT 106,
      E_Task 0 106, E_Task 0 106, E_Event 0 (Read_Ok []) (Write_Err EAGAIN) (Write_Err EAGAIN) EPOLLIN 107] e = Inl Assert_Failed"
proof -
  let ?xs = "[E_Accept EPOLLIN (Accepted 7) 100, E_Event 0 (Read_Ok ''hi'') (Write_Err EAGAIN) (Wrote 1) EPOLLIN 101]"
  obtain e0 e where r: "echo_start 5 3 [True, True, True] True = Inr e0" "legal_fold echo_legal echo_exec ?xs e0"
      "foldE echo_exec ?xs e0 = Inr e" "length (sv_objs (ec_server e)) = 1" "connected (sv_objs (ec_server e) ! 0)"
      "contents (outputBuffer (sv_objs (ec_server e) ! 0)) = ''i''" "pendingTasks (sv_objs (ec_server e) ! 0) = []"
      "ec_connections e 0 = Some 106" "ec_timeout e = 5"
    using demo_received[of 1] by auto
  let ?ys = "[E_Timer (\<lambda>i. 106), E_Event 0 (Read_Err 0) (Wrote 1) (Write_Err EAGAIN) EPOLLOUT 106, E_Task 0 106, E_Task 0 106]"
  let ?z = "E_Event 0 (Read_Ok []) (Write_Err EAGAIN) (Write_Err EAGAIN) EPOLLIN 107"
  have "clock_ok (ec_timeout e) 106" using r(9) by (simp add: clock_ok_def time_ok_def)
  from echo_timeout_aborts[OF r(1-3) _ refl r(5) _ r(7,8) _ this, of "\<lambda>i. 106" "Read_Err 0" "Write_Err EAGAIN"] r(4,6)
  obtain e' where "foldE echo_exec ?ys e = Inr e'" "echo_exec ?z e' = Inl Assert_Failed"
    by (auto simp del: foldE.simps echo_exec.simps)
  then have "foldE echo_exec (?ys @ [?z]) e = Inl Assert_Failed"
    by (simp only: foldE_append bindE_Inr foldE_single)
  then show ?thesis using r(1,3) by (auto simp del: foldE.simps echo_exec.simps)
qed

end
