(* ===== verification/Ev_Chargen.thy ===== *)
theory Ev_Chargen
  imports Ev_ServerApp
begin

text \<open>
  Two small programs on a server of one loop: the character generator (\<^verbatim>\<open>example/ChargenServer.cc\<close>), which sends its text
  again each time the previous one has been written, and the discard server (\<^verbatim>\<open>example/DiscardServer.cc\<close>).
  \<open>cg_failed\<close> and \<open>cg_completes\<close> are history variables: whether a write of the connection met a fatal error, and how often the
  write-complete callback has run.
\<close>

section \<open>The character generator\<close>

definition chargen_line :: string where
  "chargen_line = (let line = map char_of [33..<127 :: nat] in line @ line)"

definition chargen_message :: string where
  "chargen_message = concat (map (\<lambda>i. take 72 (drop i chargen_line) @ [CHR 0x0A]) [0..<127 - 33])"

definition chargen_banner :: string where
  "chargen_banner = ''[tinyev chargen server]'' @ [CHR 0x0A]"

record chargen =
  cg_server :: server
  transfered :: nat
  cg_failed :: "nat \<Rightarrow> bool"
  cg_completes :: nat

text \<open>The constructor and \<open>start\<close>; the arguments are those of \<open>server_new\<close> and \<open>server_start\<close>.\<close>

definition chargen_start :: "int \<Rightarrow> bool list \<Rightarrow> bool \<Rightarrow> error + chargen" where
  "chargen_start acceptFd oks ok =
     bindE (server_new acceptFd oks) (\<lambda>sv.
     bindE (server_start True ok (server_setCallbacks True True True sv)) (\<lambda>s.
     Inr \<lparr>cg_server = s, transfered = sz_add 0 (length chargen_message), cg_failed = (\<lambda>i. False), cg_completes = 0\<rparr>))"

text \<open>The callbacks; a connection that goes down is only logged. The message callback is the default of \<open>TcpServer\<close>.\<close>

definition cg_onConnection :: "write_result \<Rightarrow> write_result \<Rightarrow> api list" where
  "cg_onConnection wr1 wr2 = [Api_Send wr1 chargen_banner, Api_Send wr2 chargen_message]"

definition cg_onWriteComplete :: "write_result \<Rightarrow> chargen \<Rightarrow> api list \<times> chargen" where
  "cg_onWriteComplete wr s =
     ([Api_Send wr chargen_message],
      s\<lparr>transfered := sz_add (transfered s) (length chargen_message), cg_completes := Suc (cg_completes s)\<rparr>)"

definition cg_io :: "read_result \<Rightarrow> write_result \<Rightarrow> io" where
  "cg_io rr wr = \<lparr>rd = rr, wres = wr, msgCalls = defaultMessageCallback, closeCalls = []\<rparr>"

datatype cglabel =
    CG_Accept evmask accept_result write_result write_result
  | CG_Event nat read_result write_result evmask
  | CG_Task nat write_result

definition fatal_write :: "write_result \<Rightarrow> bool" where
  "fatal_write wr \<longleftrightarrow> wr = Write_Err EPIPE \<or> wr = Write_Err ECONNRESET"

definition note_failed :: "nat \<Rightarrow> bool \<Rightarrow> chargen \<Rightarrow> chargen" where
  "note_failed i fatal s = s\<lparr>cg_failed := (cg_failed s)(i := cg_failed s i \<or> fatal)\<rparr>"

text \<open>The oldest task of a connection is its write-complete callback.\<close>

definition wc_next :: "conn \<Rightarrow> bool" where
  "wc_next c = (case pendingTasks c of Task_WriteComplete # ts \<Rightarrow> True | _ \<Rightarrow> False)"

definition cg_task :: "write_result \<Rightarrow> conn \<Rightarrow> chargen \<Rightarrow> api list \<times> chargen" where
  "cg_task wr c s = (if wc_next c then cg_onWriteComplete wr s else ([], s))"

fun chargen_exec :: "cglabel \<Rightarrow> chargen \<Rightarrow> error + chargen" where
  "chargen_exec (CG_Accept revs res wr1 wr2) s =
     bindE (server_exec (SL_Accept revs res (cg_onConnection wr1 wr2)) (cg_server s)) (\<lambda>sv.
     let n = length (sv_objs (cg_server s)) in
     Inr (note_failed n (n < length (sv_objs sv) \<and> (fatal_write wr1 \<or> fatal_write wr2)) (s\<lparr>cg_server := sv\<rparr>)))"
| "chargen_exec (CG_Event i rr wr revs) s =
     bindE (server_exec (SL_Conn i (L_Event (cg_io rr wr) revs)) (cg_server s)) (\<lambda>sv. Inr (s\<lparr>cg_server := sv\<rparr>))"
| "chargen_exec (CG_Task i wr) s =
     (let (calls, s1) = cg_task wr (sv_objs (cg_server s) ! i) s in
      bindE (server_exec (SL_Conn i (L_Task wr calls)) (cg_server s)) (\<lambda>sv.
      Inr (note_failed i (fatal_write wr) (s1\<lparr>cg_server := sv\<rparr>))))"

fun chargen_legal :: "cglabel \<Rightarrow> chargen \<Rightarrow> bool" where
  "chargen_legal (CG_Accept revs res wr1 wr2) s = server_legal (SL_Accept revs res (cg_onConnection wr1 wr2)) (cg_server s)"
| "chargen_legal (CG_Event i rr wr revs) s = server_legal (SL_Conn i (L_Event (cg_io rr wr) revs)) (cg_server s)"
| "chargen_legal (CG_Task i wr) s =
     server_legal (SL_Conn i (L_Task wr (fst (cg_task wr (sv_objs (cg_server s) ! i) s)))) (cg_server s)"

section \<open>The text\<close>

lemma chargen_line_nth: "k < 188 \<Longrightarrow> chargen_line ! k = char_of (33 + k mod 94 :: nat)"
proof -
  assume k: "k < 188"
  show ?thesis
  proof (cases "k < 94")
    case True
    then show ?thesis by (simp add: chargen_line_def Let_def nth_append del: upt_rec_numeral)
  next
    case False
    then have "k mod 94 = k - 94" using k by (simp add: mod_if)
    then show ?thesis using k False by (simp add: chargen_line_def Let_def nth_append del: upt_rec_numeral)
  qed
qed

text \<open>The pattern: each line is the previous one shifted by a character, in the circle of the 94 printable ones.\<close>

lemma chargen_pattern:
  "chargen_message = concat (map (\<lambda>i. map (\<lambda>j. char_of (33 + (i + j) mod 94 :: nat)) [0..<72] @ [CHR 0x0A]) [0..<94])"
proof -
  have "take 72 (drop i chargen_line) = map (\<lambda>j. char_of (33 + (i + j) mod 94 :: nat)) [0..<72]" if "i < 94" for i
  proof (rule nth_equalityI)
    have "length chargen_line = 188" by (simp add: chargen_line_def Let_def del: upt_rec_numeral)
    then show "length (take 72 (drop i chargen_line)) = length (map (\<lambda>j. char_of (33 + (i + j) mod 94 :: nat)) [0..<72])"
      using that by (simp del: upt_rec_numeral)
    fix j
    assume "j < length (take 72 (drop i chargen_line))"
    then show "take 72 (drop i chargen_line) ! j = map (\<lambda>j. char_of (33 + (i + j) mod 94 :: nat)) [0..<72] ! j"
      using that \<open>length chargen_line = 188\<close> by (simp add: chargen_line_nth del: upt_rec_numeral)
  qed
  then show ?thesis unfolding chargen_message_def by (intro arg_cong[where f = concat] map_cong) (auto simp del: upt_rec_numeral)
qed

lemma length_chargen_message: "length chargen_message = 6862"
proof -
  have "length chargen_message = sum_list (map (\<lambda>i. 73) [0..<94])"
    unfolding chargen_pattern length_concat map_map by (intro arg_cong[where f = sum_list] map_cong) (auto simp del: upt_rec_numeral)
  then show ?thesis by (simp add: sum_list_triv del: upt_rec_numeral)
qed

lemma chargen_sizes: "chargen_message \<noteq> []" "length chargen_message \<le> vec_max" "length chargen_banner \<le> vec_max" "chargen_banner \<noteq> []"
  using length_chargen_message by (auto simp: vec_max_def chargen_banner_def)

section \<open>One connection\<close>

text \<open>
  Unless a write failed, what was taken for sending is the banner and a number of whole texts, and while the connection is up
  there is output or a write-complete callback to come.
\<close>

definition cg_frame :: "conn \<Rightarrow> bool" where
  "cg_frame c \<longleftrightarrow> hasWriteCompleteCb c \<and> \<not> hasHighWaterCb c \<and> list_all (\<lambda>t. t = Task_WriteComplete) (pendingTasks c) \<and>
     (connected c \<or> disconnected c)"

definition cg_text :: "string \<Rightarrow> bool" where
  "cg_text s \<longleftrightarrow> (\<exists>k. s = chargen_banner @ concat (replicate k chargen_message))"

definition cg_alive :: "conn \<Rightarrow> bool" where
  "cg_alive c \<longleftrightarrow> contents (outputBuffer c) \<noteq> [] \<or> pendingTasks c \<noteq> []"

definition cg_conn :: "bool \<Rightarrow> conn \<Rightarrow> bool" where
  "cg_conn f c \<longleftrightarrow> cg_frame c \<and> (f \<or> cg_text (taken c) \<and> (connected c \<longrightarrow> cg_alive c))"

lemma cg_text_banner: "cg_text chargen_banner"
  unfolding cg_text_def by (rule exI[of _ 0]) simp

lemma cg_text_more: "cg_text s \<Longrightarrow> cg_text (s @ chargen_message)"
proof -
  assume "cg_text s"
  then obtain k where "s = chargen_banner @ concat (replicate k chargen_message)" by (auto simp: cg_text_def)
  moreover have "concat (replicate k chargen_message) @ chargen_message = concat (replicate (Suc k) chargen_message)"
    by (simp only: replicate_Suc replicate_append_same[symmetric]) simp
  ultimately show ?thesis unfolding cg_text_def by (metis append.assoc)
qed

lemma cg_send:
  assumes inv: "conn_inv c" and fr: "cg_frame c" and con: "connected c" and len: "length data \<le> vec_max" "data \<noteq> []"
    and wr: "wr_ok c (length data) wr" and run: "sendInLoop True wr data c = Inr c'"
  shows "conn_inv c' \<and> cg_frame c' \<and> connected c' \<and> (\<not> fatal_write wr \<longrightarrow> taken c' = taken c @ data \<and> cg_alive c')"
proof -
  have lv: "live c" and est: "state c \<noteq> kConnecting" using con by (simp_all add: live_def connected_def)
  have ok: "conn_inv c'" "taken c' = taken c @ accepted wr data c" "state c' = state c"
    using okE_Inr[OF sendInLoop_ok[OF inv est len(1) wr] run] by (simp_all add: kept_def)
  have parts: "contents (outputBuffer c') = contents (outputBuffer c) @ left_over c wr data"
      "pendingTasks c' = pendingTasks c @ expected_tasks c wr data"
    using okE_Inr[OF send_parts_ok[OF inv lv len(1) wr] run] by (simp_all add: send_parts_def)
  have ra: "hasWriteCompleteCb c' = hasWriteCompleteCb c" "hasHighWaterCb c' = hasHighWaterCb c"
    using sendInLoop_reads_alike[OF run] by (simp_all add: reads_alike_def)
  have "cg_frame c'" using fr ok(3) ra parts by (simp add: cg_frame_def expected_tasks_def Let_def connected_def disconnected_def)
  moreover have "accepted wr data c = data" if "\<not> fatal_write wr"
    using that con by (auto simp: accepted_def fatal_write_def connected_def)
  moreover have "cg_alive c'" if "\<not> fatal_write wr"
  proof (cases "isWriting (chan c)")
    case True
    then show ?thesis using parts len(2) by (simp add: cg_alive_def left_over_def)
  next
    case nw: False
    show ?thesis
    proof (cases wr)
      case (Wrote n)
      then show ?thesis using parts nw wr fr by (cases "n = length data") (auto simp: cg_alive_def left_over_def expected_tasks_def wr_ok_def cg_frame_def)
    next
      case (Write_Err e)
      then show ?thesis using parts nw that len(2) by (auto simp: cg_alive_def left_over_def fatal_write_def)
    qed
  qed
  ultimately show ?thesis using ok con by (simp add: connected_def)
qed

interpretation cg_app: conn_app "cg_io rr wr" "cg_conn f" for rr wr f
proof unfold_locales
  show "cg_conn f (upd_chan (\<lambda>ch. ch\<lparr>handlingEvents := x\<rparr>) c) = cg_conn f c" "cg_conn f (upd_chan (setRevents rv) c) = cg_conn f c" for x rv c
    by (simp_all add: cg_conn_def cg_frame_def cg_alive_def upd_chan_def connected_def disconnected_def)
  show "cg_conn f (c\<lparr>inputBuffer := b\<rparr>) = cg_conn f c" for b c
    by (simp add: cg_conn_def cg_frame_def cg_alive_def connected_def disconnected_def)
  show "cg_conn f c'" if "cg_conn f c" "handleClose True (closeCalls (cg_io rr wr)) c = Inr c'" for c c'
    using that by (auto simp: cg_io_def handleClose_def user_cb_def on_chan_def bindE_eq_Inr cg_conn_def cg_frame_def cg_alive_def
        connected_def disconnected_def split: if_splits)
  show "cg_conn f c'" if "cg_conn f c" "foldE run_api (msgCalls (cg_io rr wr)) (c\<lparr>inputBuffer := b\<rparr>) = Inr c'" for c b c'
    using that by (auto simp: cg_io_def defaultMessageCallback_def cg_conn_def cg_frame_def cg_alive_def connected_def disconnected_def)
  show "cg_conn f c'" if a: "conn_inv c" "live c" "isWriting (chan c)" "wr_ok c (length (contents (outputBuffer c))) (wres (cg_io rr wr))"
    "cg_conn f c" "handleWrite (wres (cg_io rr wr)) c = Inr c'" for c c'
  proof (cases wr)
    case (Write_Err e)
    then have "c' = c" using handleWrite_ok[OF a(1-4)] a(6) by (auto simp: cg_io_def)
    then show ?thesis using a(5) by simp
  next
    case (Wrote n)
    have nd: "state c \<noteq> kDisconnected" using a(2) by (auto simp: live_def)
    have t: "taken c' = taken c" "state c' = state c" "conn_inv c'" using handleWrite_ok[OF a(1-4)] a(6) by auto
    obtain ob where ob: "outputBuffer c' = ob" "reads_alike c c'"
      "pendingTasks c' = pendingTasks c @ (if readableBytes ob = 0 \<and> hasWriteCompleteCb c then [Task_WriteComplete] else [])"
      using handleWrite_Inr[of n c c'] a(6) nd Wrote by (auto simp: cg_io_def)
    have "readableBytes ob = length (contents ob)" using length_contents[OF conn_invD(2)[OF t(3)]] ob(1) by simp
    then have "cg_alive c'" using ob a(5) t by (auto simp: cg_alive_def cg_conn_def cg_frame_def)
    then show ?thesis using a(5) ob t by (auto simp: cg_conn_def cg_frame_def reads_alike_def connected_def disconnected_def)
  qed
qed

lemma cg_frame_pop: "cg_frame c \<Longrightarrow> pendingTasks c = t # ts \<Longrightarrow> cg_frame (c\<lparr>pendingTasks := ts\<rparr>) \<and> wc_next c"
  by (auto simp: cg_frame_def wc_next_def connected_def disconnected_def)

lemma cg_task_keeps:
  assumes r: "run_inv c" and p: "cg_conn f c" and leg: "legal_label (L_Task wr (fst (cg_task wr c s))) c"
    and run: "exec (L_Task wr (fst (cg_task wr c s))) c = Inr c'"
  shows "cg_conn (f \<or> fatal_write wr) c'"
proof (cases "pendingTasks c")
  case Nil
  then show ?thesis using p run by (auto simp: cg_conn_def)
next
  case (Cons t ts)
  let ?c = "c\<lparr>pendingTasks := ts\<rparr>"
  have fr: "cg_frame ?c" and wc: "wc_next c" using cg_frame_pop[OF _ Cons] p by (auto simp: cg_conn_def)
  have calls: "fst (cg_task wr c s) = [Api_Send wr chargen_message]" using wc by (simp add: cg_task_def cg_onWriteComplete_def)
  have t: "t = Task_WriteComplete" using p Cons by (simp add: cg_conn_def cg_frame_def)
  have snd: "send True wr chargen_message ?c = Inr c'"
    using run Cons by (simp add: calls t foldE_Nil_fun bindE_Inr_id)
  show ?thesis
  proof (cases "connected c")
    case False
    then have "c' = ?c" using snd by (simp add: send_def connected_def)
    then show ?thesis using p fr False by (auto simp: cg_conn_def connected_def)
  next
    case True
    have inv: "conn_inv ?c" using conn_inv_pop[OF _ Cons] r by (simp add: run_inv_def)
    have wr: "wr_ok ?c (length chargen_message) wr" using leg Cons by (simp add: calls t)
    have "sendInLoop True wr chargen_message ?c = Inr c'" using snd True by (simp add: send_def connected_def)
    from cg_send[OF inv fr _ chargen_sizes(2,1) wr this] True
    have "cg_frame c'" "\<not> fatal_write wr \<Longrightarrow> taken c' = taken c @ chargen_message \<and> cg_alive c'"
      by (simp_all add: connected_def)
    then show ?thesis using p cg_text_more by (auto simp: cg_conn_def)
  qed
qed

lemma conn_start_callbacks: "conn_start f w = Inr c \<Longrightarrow> hasWriteCompleteCb c = w \<and> \<not> hasHighWaterCb c"
  by (auto simp: conn_start_def conn_new_def connectEstablished_def on_chan_def setMessageCallback_def setWriteCompleteCallback_def
      setCloseCallBack_def bindE_eq_Inr)

lemma cg_accepted:
  assumes c: "conn_start n True = Inr c" and leg: "legal_calls (cg_onConnection wr1 wr2) c"
    and run: "foldE run_api (cg_onConnection wr1 wr2) c = Inr c'"
  shows "cg_conn (fatal_write wr1 \<or> fatal_write wr2) c'"
proof -
  have s: "conn_inv c" "connected c" "taken c = []" "pendingTasks c = []"
    using conn_start_ok[of n True] c by (auto simp: connected_def)
  then have fr: "cg_frame c" using conn_start_callbacks[OF c] by (simp add: cg_frame_def)
  obtain c1 where c1: "sendInLoop True wr1 chargen_banner c = Inr c1" "send True wr2 chargen_message c1 = Inr c'"
    using run s(2) by (auto simp: cg_onConnection_def send_def connected_def bindE_eq_Inr)
  have w1: "wr_ok c (length chargen_banner) wr1" using leg by (simp add: cg_onConnection_def)
  note 1 = cg_send[OF s(1) fr s(2) chargen_sizes(3,4) w1 c1(1)]
  have w2: "wr_ok c1 (length chargen_message) wr2"
    using leg c1(1) s(2) by (simp add: cg_onConnection_def send_def connected_def)
  have "sendInLoop True wr2 chargen_message c1 = Inr c'" using c1(2) 1 by (simp add: send_def connected_def)
  note 2 = cg_send[OF _ _ _ chargen_sizes(2,1) w2 this]
  show ?thesis using 1 2 cg_text_more[OF cg_text_banner] s(3) by (auto simp: cg_conn_def)
qed

section \<open>The server\<close>

definition chargen_inv :: "chargen \<Rightarrow> bool" where
  "chargen_inv s \<longleftrightarrow> server_inv (cg_server s) \<and> sv_hasWCCb (cg_server s) \<and>
     (\<forall>i<length (sv_objs (cg_server s)). cg_conn (cg_failed s i) (sv_objs (cg_server s) ! i)) \<and>
     (\<forall>i\<ge>length (sv_objs (cg_server s)). \<not> cg_failed s i) \<and>
     transfered s = ((1 + cg_completes s) * length chargen_message) mod 2 ^ 64"

definition chargen_rel :: "chargen \<Rightarrow> chargen \<Rightarrow> bool" where
  "chargen_rel s s' \<longleftrightarrow> length (sv_objs (cg_server s)) \<le> length (sv_objs (cg_server s')) \<and> cg_completes s \<le> cg_completes s'"

lemma chargen_conn_step:
  assumes inv: "chargen_inv s" and leg: "server_legal (SL_Conn i l) (cg_server s)"
    and run: "server_exec (SL_Conn i l) (cg_server s) = Inr sv" and c: "cg_conn f (sv_objs sv ! i)"
  shows "chargen_inv (s\<lparr>cg_server := sv, cg_failed := (cg_failed s)(i := f)\<rparr>) \<and>
    chargen_rel s (s\<lparr>cg_server := sv, cg_failed := (cg_failed s)(i := f)\<rparr>)"
proof -
  have sv: "server_inv sv" "server_rel (cg_server s) sv"
    using server_run.step_ok[OF _ leg] run inv by (auto simp: chargen_inv_def dest: okE_Inr)
  have S: "sv_objs sv = (sv_objs (cg_server s))[i := sv_objs sv ! i]" "sv_hasWCCb sv = sv_hasWCCb (cg_server s)"
      "i < length (sv_objs (cg_server s))" using server_conn_Inr[OF run] by simp_all
  have len: "length (sv_objs sv) = length (sv_objs (cg_server s))" using S(1) by (metis length_list_update)
  have "cg_conn (((cg_failed s)(i := f)) j) (sv_objs sv ! j)" if "j < length (sv_objs sv)" for j
  proof (cases "j = i")
    case False
    then have "sv_objs sv ! j = sv_objs (cg_server s) ! j" using S(1) by (metis nth_list_update_neq)
    then show ?thesis using inv that False len by (simp add: chargen_inv_def)
  qed (use c in simp)
  then show ?thesis using inv sv S(2,3) len by (simp add: chargen_inv_def chargen_rel_def server_rel_def)
qed

lemma CG_Event_ok:
  assumes inv: "chargen_inv s" and leg: "chargen_legal (CG_Event i rr wr revs) s"
  shows "okE (\<lambda>s'. chargen_inv s' \<and> chargen_rel s s') (chargen_exec (CG_Event i rr wr revs) s)"
proof -
  have l: "server_legal (SL_Conn i (L_Event (cg_io rr wr) revs)) (cg_server s)" using leg by simp
  have si: "server_inv (cg_server s)" using inv by (simp add: chargen_inv_def)
  have i: "run_inv (sv_objs (cg_server s) ! i)" "cg_conn (cg_failed s i) (sv_objs (cg_server s) ! i)"
      "legal_label (L_Event (cg_io rr wr) revs) (sv_objs (cg_server s) ! i)"
    using l inv si by (auto simp: chargen_inv_def server_inv_def)
  show ?thesis unfolding chargen_exec.simps
  proof (rule okE_event[OF server_run.step_ok[OF si l]])
    fix sv
    assume run: "server_exec (SL_Conn i (L_Event (cg_io rr wr) revs)) (cg_server s) = Inr sv"
    have "cg_conn (cg_failed s i) (sv_objs sv ! i)"
      using cg_app.event_keeps[OF i(1,3,2)] server_conn_Inr[OF run] by blast
    from chargen_conn_step[OF inv l run this]
    show "okE (\<lambda>s'. chargen_inv s' \<and> chargen_rel s s') (Inr (s\<lparr>cg_server := sv\<rparr>))" by simp
  qed
qed

lemma CG_Task_ok:
  assumes inv: "chargen_inv s" and leg: "chargen_legal (CG_Task i wr) s"
  shows "okE (\<lambda>s'. chargen_inv s' \<and> chargen_rel s s') (chargen_exec (CG_Task i wr) s)"
proof -
  let ?c = "sv_objs (cg_server s) ! i"
  let ?l = "L_Task wr (fst (cg_task wr ?c s))" let ?s1 = "snd (cg_task wr ?c s)"
  have l: "server_legal (SL_Conn i ?l) (cg_server s)" using leg by simp
  have si: "server_inv (cg_server s)" using inv by (simp add: chargen_inv_def)
  have i: "run_inv ?c" "cg_conn (cg_failed s i) ?c" "legal_label ?l ?c"
    using l inv si by (auto simp: chargen_inv_def server_inv_def)
  have s1: "chargen_inv ?s1" "cg_server ?s1 = cg_server s" "cg_failed ?s1 = cg_failed s" "cg_completes s \<le> cg_completes ?s1"
    using inv by (simp_all add: cg_task_def cg_onWriteComplete_def chargen_inv_def sz_add_def mod_simps add.commute add.left_commute)
  show ?thesis unfolding chargen_exec.simps Let_def case_prod_beta
  proof (rule okE_event[OF server_run.step_ok[OF si l]])
    fix sv
    assume run: "server_exec (SL_Conn i ?l) (cg_server s) = Inr sv"
    have "cg_conn (cg_failed s i \<or> fatal_write wr) (sv_objs sv ! i)"
      using cg_task_keeps[OF i(1,2,3)] server_conn_Inr[OF run] by blast
    from chargen_conn_step[OF s1(1) _ _ this, of "L_Task wr (fst (cg_task wr ?c s))"] l run s1
    show "okE (\<lambda>s'. chargen_inv s' \<and> chargen_rel s s') (Inr (note_failed i (fatal_write wr) (?s1\<lparr>cg_server := sv\<rparr>)))"
      by (simp add: note_failed_def chargen_rel_def)
  qed
qed

lemma CG_Accept_ok:
  assumes inv: "chargen_inv s" and leg: "chargen_legal (CG_Accept revs res wr1 wr2) s"
  shows "okE (\<lambda>s'. chargen_inv s' \<and> chargen_rel s s') (chargen_exec (CG_Accept revs res wr1 wr2) s)"
proof -
  let ?n = "length (sv_objs (cg_server s))" let ?calls = "cg_onConnection wr1 wr2"
  have si: "server_inv (cg_server s)" and wc: "sv_hasWCCb (cg_server s)" using inv by (simp_all add: chargen_inv_def)
  have l: "server_legal (SL_Accept revs res ?calls) (cg_server s)" using leg by simp
  then obtain f where f: "res = Accepted f" "thenP (conn_start f True) (legal_calls ?calls)"
    using wc by (auto split: accept_result.splits)
  show ?thesis unfolding chargen_exec.simps Let_def
  proof (rule okE_event[OF server_run.step_ok[OF si l]])
    fix sv
    assume run: "server_exec (SL_Accept revs res ?calls) (cg_server s) = Inr sv" and sv: "server_inv sv \<and> server_rel (cg_server s) sv"
    note A = server_accept_Inr[OF si run[unfolded f(1)]]
    have wc': "sv_hasWCCb sv" using A wc by simp
    consider "sv_objs sv = sv_objs (cg_server s)" |
      c c' where "conn_start f True = Inr c" "foldE run_api ?calls c = Inr c'" "sv_objs sv = sv_objs (cg_server s) @ [c']"
      using A wc by auto
    then show "okE (\<lambda>s'. chargen_inv s' \<and> chargen_rel s s')
      (Inr (note_failed ?n (?n < length (sv_objs sv) \<and> (fatal_write wr1 \<or> fatal_write wr2)) (s\<lparr>cg_server := sv\<rparr>)))"
    proof cases
      case 1
      then show ?thesis using inv sv wc' by (simp add: chargen_inv_def chargen_rel_def note_failed_def)
    next
      case 2
      have "cg_conn (fatal_write wr1 \<or> fatal_write wr2) c'" using cg_accepted[OF 2(1) _ 2(2)] f(2) 2(1) by simp
      then show ?thesis using inv sv wc' 2(3)
        by (auto simp: chargen_inv_def chargen_rel_def note_failed_def nth_append less_Suc_eq)
    qed
  qed
qed

interpretation chargen_run: safe_steps chargen_exec chargen_legal chargen_inv chargen_rel
proof unfold_locales
  show "okE (\<lambda>s'. chargen_inv s' \<and> chargen_rel s s') (chargen_exec x s)" if "chargen_inv s" "chargen_legal x s" for s x
    using that by (cases x) (use CG_Accept_ok CG_Event_ok CG_Task_ok in blast)+
qed (auto simp: chargen_rel_def)

lemma chargen_start_inv: "chargen_start f oks ok = Inr s \<Longrightarrow> chargen_inv s"
  using server_start_ok length_chargen_message
  by (fastforce simp: chargen_start_def bindE_eq_Inr chargen_inv_def sz_add_def)

text \<open>
  C39: The character generator never runs dry and sends nothing but its text. Take any run of accepts, events and
  queued tasks, with any outcomes of the writes. Nothing fails, running out of address space apart; for each connection on which no
  write failed for good, what was written and what is buffered are the banner followed by a number of whole texts; while such a
  connection is up, epoll watches for room to write or the write-complete callback is queued, which sends the text again. The
  counter is the size of the text times one more than the number of write-complete callbacks, however many connections
  there are, though each of them is sent a text that no write-complete callback has counted.
\<close>

theorem chargen_never_dries:
  assumes "chargen_start f oks ok = Inr s0" and "legal_fold chargen_legal chargen_exec xs s0"
  shows "foldE chargen_exec xs s0 = Inl Length_Error \<or>
    (\<exists>s. foldE chargen_exec xs s0 = Inr s \<and>
      (\<forall>i<length (sv_objs (cg_server s)). \<not> cg_failed s i \<longrightarrow>
        (let c = sv_objs (cg_server s) ! i in
         (\<exists>k. wire c @ contents (outputBuffer c) = chargen_banner @ concat (replicate k chargen_message)) \<and>
         (connected c \<longrightarrow> isWriting (chan c) \<or> wc_next c))) \<and>
      transfered s = ((1 + cg_completes s) * length chargen_message) mod 2 ^ 64)"
proof -
  have "okE (\<lambda>s'. chargen_inv s' \<and> chargen_rel s0 s') (foldE chargen_exec xs s0)"
    using chargen_run.run_ok[OF chargen_start_inv[OF assms(1)] assms(2)] .
  moreover have "(\<exists>k. wire c @ contents (outputBuffer c) = chargen_banner @ concat (replicate k chargen_message)) \<and>
      (connected c \<longrightarrow> isWriting (chan c) \<or> wc_next c)"
    if "chargen_inv s" "i < length (sv_objs (cg_server s))" "\<not> cg_failed s i" "c = sv_objs (cg_server s) ! i" for s i c
  proof -
    have c: "cg_frame c" "cg_text (taken c)" "connected c \<Longrightarrow> cg_alive c" "conn_inv c"
      using that by (auto simp: chargen_inv_def cg_conn_def server_inv_def run_inv_def)
    have "wc_next c" if "pendingTasks c \<noteq> []" using cg_frame_pop[OF c(1)] that by (cases "pendingTasks c") auto
    moreover have "isWriting (chan c)" if "connected c" "contents (outputBuffer c) \<noteq> []"
      using conn_invD(9)[OF c(4)] that by (simp add: live_def connected_def)
    ultimately show ?thesis using c conn_invD(4)[OF c(4)] by (auto simp: cg_text_def cg_alive_def)
  qed
  ultimately show ?thesis unfolding okE_iff Let_def by (auto simp: chargen_inv_def)
qed

definition chargen_demo :: chargen where
  "chargen_demo = \<lparr>cg_server = demo_server, transfered = 6862, cg_failed = (\<lambda>i. False), cg_completes = 0\<rparr>"

lemma chargen_never_dries_witness:
  "\<exists>s. foldE chargen_exec [CG_Accept EPOLLIN (Accepted 7) (Wrote 24) (Wrote 6862), CG_Task 0 (Wrote 6862)] chargen_demo = Inr s \<and>
     wc_next (sv_objs (cg_server s) ! 0) \<and> transfered s = 2 * 6862"
proof -
  let ?xs = "[CG_Accept EPOLLIN (Accepted 7) (Wrote 24) (Wrote 6862), CG_Task 0 (Wrote 6862)]"
  have st: "chargen_start 3 [True, True, True] True = Inr chargen_demo"
    using demo_server_started length_chargen_message by (simp add: chargen_start_def chargen_demo_def sz_add_def)
  have len: "length chargen_banner = 24" by (simp add: chargen_banner_def)
  have l: "legal_fold chargen_legal chargen_exec ?xs chargen_demo"
    using length_chargen_message len
    by (simp add: chargen_demo_def demo_server_def server_eval conn_eval cg_onConnection_def cg_task_def cg_onWriteComplete_def wc_next_def
        note_failed_def fatal_write_def vec_max_def)
  have r: "\<exists>s. foldE chargen_exec ?xs chargen_demo = Inr s \<and> cg_completes s = 1 \<and> length (sv_objs (cg_server s)) = 1 \<and> \<not> cg_failed s 0 \<and>
      connected (sv_objs (cg_server s) ! 0) \<and> \<not> isWriting (chan (sv_objs (cg_server s) ! 0))"
    using length_chargen_message len
    by (simp add: chargen_demo_def demo_server_def server_eval conn_eval cg_onConnection_def cg_task_def cg_onWriteComplete_def wc_next_def
        note_failed_def fatal_write_def vec_max_def)
  from chargen_never_dries[OF st l] r length_chargen_message show ?thesis by (auto simp: Let_def)
qed

section \<open>The discard server\<close>

text \<open>\<open>DiscardServer\<close>: only the message callback is set; the connection callback is the default, which logs.\<close>

definition discard_onMessage :: "api list" where
  "discard_onMessage = [Api_RetrieveAll]"

definition discard_start :: "int \<Rightarrow> bool list \<Rightarrow> bool \<Rightarrow> error + server" where
  "discard_start acceptFd oks ok =
     bindE (server_new acceptFd oks) (\<lambda>sv. server_start True ok (server_setCallbacks True True False sv))"

definition discard_io :: "read_result \<Rightarrow> write_result \<Rightarrow> io" where
  "discard_io rr wr = \<lparr>rd = rr, wres = wr, msgCalls = discard_onMessage, closeCalls = []\<rparr>"

datatype dlabel = D_Accept evmask accept_result | D_Event nat read_result write_result evmask

fun discard_label :: "dlabel \<Rightarrow> slabel" where
  "discard_label (D_Accept revs res) = SL_Accept revs res []"
| "discard_label (D_Event i rr wr revs) = SL_Conn i (L_Event (discard_io rr wr) revs)"

definition dc_conn :: "conn \<Rightarrow> bool" where
  "dc_conn c \<longleftrightarrow> contents (inputBuffer c) = [] \<and> taken c = [] \<and> pendingTasks c = [] \<and>
     (connected c \<and> isReading (chan c) \<or> disconnected c)"

interpretation dc_app: conn_app "discard_io rr wr" dc_conn for rr wr
proof unfold_locales
  show "dc_conn (upd_chan (\<lambda>ch. ch\<lparr>handlingEvents := x\<rparr>) c) = dc_conn c" "dc_conn (upd_chan (setRevents rv) c) = dc_conn c" for x rv c
    by (simp_all add: dc_conn_def upd_chan_def setRevents_def isReading_def connected_def disconnected_def)
  show "dc_conn (c\<lparr>inputBuffer := b\<rparr>) = dc_conn c" if "contents b = contents (inputBuffer c)" for b c
    using that by (simp add: dc_conn_def connected_def disconnected_def)
  show "dc_conn c'" if "dc_conn c" "handleClose True (closeCalls (discard_io rr wr)) c = Inr c'" for c c'
    using that by (auto simp: discard_io_def handleClose_def user_cb_def on_chan_def bindE_eq_Inr dc_conn_def
        connected_def disconnected_def split: if_splits)
  show "dc_conn c'" if "dc_conn c" "foldE run_api (msgCalls (discard_io rr wr)) (c\<lparr>inputBuffer := b\<rparr>) = Inr c'" for c b c'
    using that contents_retrieveAll[of b] by (auto simp: discard_io_def discard_onMessage_def dc_conn_def connected_def disconnected_def)
  show "dc_conn c'" if "conn_inv c" "live c" "isWriting (chan c)" "dc_conn c" for c c'
    using that conn_invD(4,9)[OF that(1)] by (simp add: dc_conn_def)
qed

lemma dc_new: "conn_start f w = Inr c \<Longrightarrow> dc_conn c"
proof -
  assume c: "conn_start f w = Inr c"
  obtain b where b: "buffer_new kInitialSize = Inr b" "contents b = []"
    using contents_buffer_new[of kInitialSize] by (auto simp: kInitialSize_def vec_max_def kCheapPrepend_def)
  have "contents (inputBuffer c) = []" using c b
    by (auto simp: conn_start_def conn_new_def connectEstablished_def on_chan_def setMessageCallback_def
        setWriteCompleteCallback_def setCloseCallBack_def bindE_eq_Inr)
  moreover have "isReading (chan c)" using c b
    by (auto simp: conn_start_def conn_new_def connectEstablished_def on_chan_def enableRead_def loop_updateChannel_def poller_updateChannel_def
        setMessageCallback_def setWriteCompleteCallback_def setCloseCallBack_def channel_new_def tie_def bindE_eq_Inr isReading_def
        has_def EPOLLIN_def EPOLLPRI_def split: if_splits)
  ultimately show ?thesis using c conn_start_ok[of f w] by (auto simp: dc_conn_def connected_def)
qed

definition discard_inv :: "server \<Rightarrow> bool" where
  "discard_inv s \<longleftrightarrow> server_inv s \<and> (\<forall>c\<in>set (sv_objs s). dc_conn c)"

interpretation discard_run: safe_steps "\<lambda>x. server_exec (discard_label x)" "\<lambda>x. server_legal (discard_label x)" discard_inv server_rel
proof unfold_locales
  fix s x
  assume inv: "discard_inv s" and l: "server_legal (discard_label x) s"
  have si: "server_inv s" using inv by (simp add: discard_inv_def)
  have "\<forall>c\<in>set (sv_objs s'). dc_conn c" if run: "server_exec (discard_label x) s = Inr s'" for s'
  proof (cases x)
    case (D_Accept revs res)
    then obtain f where f: "res = Accepted f" using l by (auto split: accept_result.splits)
    from server_accept_Inr[OF si, of revs f "[]" s'] run D_Accept f
    have "sv_objs s' = sv_objs s \<or> (\<exists>c. conn_start f (sv_hasWCCb s) = Inr c \<and> sv_objs s' = sv_objs s @ [c])" by simp
    then show ?thesis using inv dc_new by (auto simp: discard_inv_def)
  next
    case (D_Event i rr wr revs)
    have i: "i < length (sv_objs s)" "run_inv (sv_objs s ! i)" "legal_label (L_Event (discard_io rr wr) revs) (sv_objs s ! i)"
        "dc_conn (sv_objs s ! i)"
      using l inv D_Event by (auto simp: discard_inv_def server_inv_def)
    have S: "exec (L_Event (discard_io rr wr) revs) (sv_objs s ! i) = Inr (sv_objs s' ! i)" "sv_objs s' = (sv_objs s)[i := sv_objs s' ! i]"
      using server_conn_Inr[of i "L_Event (discard_io rr wr) revs" s s'] run D_Event by simp_all
    have "dc_conn (sv_objs s' ! i)" by (rule dc_app.event_keeps[OF i(2-4) S(1)])
    then have "\<forall>c\<in>set ((sv_objs s)[i := sv_objs s' ! i]). dc_conn c"
      using inv set_update_subset_insert[of "sv_objs s" i "sv_objs s' ! i"] by (auto simp: discard_inv_def)
    then show ?thesis using S(2) by simp
  qed
  then show "okE (\<lambda>s'. discard_inv s' \<and> server_rel s s') (server_exec (discard_label x) s)"
    using server_run.step_ok[OF si l] by (cases "server_exec (discard_label x) s") (auto simp: discard_inv_def)
qed (auto simp: server_rel_def)

text \<open>
  The discard server takes everything and sends nothing: in every run no connection keeps a byte of its input, none is sent
  a byte, and each one that is up goes on reading.
\<close>

theorem discard_server_discards:
  assumes "discard_start f oks ok = Inr s0"
    and "legal_fold (\<lambda>x. server_legal (discard_label x)) (\<lambda>x. server_exec (discard_label x)) xs s0"
  shows "okE (\<lambda>s. \<forall>c\<in>set (sv_objs s). contents (inputBuffer c) = [] \<and> taken c = [] \<and> (connected c \<longrightarrow> isReading (chan c)))
    (foldE (\<lambda>x. server_exec (discard_label x)) xs s0)"
proof -
  have "discard_inv s0"
    using assms(1) server_start_ok by (auto simp: discard_start_def bindE_eq_Inr discard_inv_def)
  from discard_run.run_ok[OF this assms(2)] show ?thesis
    by (rule okE_weaken) (auto simp: discard_inv_def dc_conn_def connected_def disconnected_def)
qed

end
