(* ===== verification/Ev_EchoClient.thy ===== *)
theory Ev_EchoClient
  imports Ev_ServerApp
begin

text \<open>
  \<^verbatim>\<open>example/EchoClient.cc\<close>: when the connection is up, a thread of its own reads lines from the terminal and sends
  them, and shuts the connection down at the end of the input, while the loop handles events and runs queued closures.
  The connection is as \<^verbatim>\<open>TcpClient\<close> sets it up. \<open>uc_typed\<close> and \<open>uc_failed\<close> are history variables: the lines given to \<open>send\<close> on the
  connection while it was up, and whether a write failed for good before the sending side was shut down.
\<close>

section \<open>The program\<close>

record echo_client =
  uc_conn :: conn
  uc_ended :: bool
  uc_printed :: "string list"
  uc_quit :: bool
  uc_typed :: "string list"
  uc_failed :: bool

text \<open>\<open>EchoBench::onConnection\<close>: up starts the thread of \<open>UserInput\<close>, down quits the loop.\<close>

definition eb_start :: "int \<Rightarrow> error + echo_client" where
  "eb_start sockfd =
     bindE (conn_start sockfd False) (\<lambda>c.
     Inr \<lparr>uc_conn = c, uc_ended = False, uc_printed = [], uc_quit = False, uc_typed = [], uc_failed = False\<rparr>)"

definition eb_onConnection_down :: "conn \<Rightarrow> echo_client \<Rightarrow> echo_client" where
  "eb_onConnection_down c u = (if \<not> disconnected c \<and> disconnected (uc_conn u) then u\<lparr>uc_quit := True\<rparr> else u)"

text \<open>\<open>UserInput::onMessage\<close> prints what it takes out of the buffer.\<close>

definition ui_io :: "read_result \<Rightarrow> write_result \<Rightarrow> io" where
  "ui_io rr wr = \<lparr>rd = rr, wres = wr, msgCalls = [Api_RetrieveAll], closeCalls = []\<rparr>"

definition ui_onMessage :: "read_result \<Rightarrow> evmask \<Rightarrow> conn \<Rightarrow> echo_client \<Rightarrow> echo_client" where
  "ui_onMessage rr revs c u =
     (if message_runs rr revs c then u\<lparr>uc_printed := uc_printed u @ [contents (inputBuffer c) @ delivered rr]\<rparr> else u)"

text \<open>
  \<open>U_Line\<close> and \<open>U_Eof\<close> are a turn and the end of the loop of \<open>UserInput::run\<close>, in the user's thread; the others are steps of
  the loop's thread.
\<close>

datatype ulabel =
    U_Line string
  | U_Eof
  | U_Event read_result write_result evmask
  | U_Task write_result

definition lost_write :: "write_result \<Rightarrow> conn \<Rightarrow> bool" where
  "lost_write wr c \<longleftrightarrow> \<not> wrShut c \<and> (wr = Write_Err EPIPE \<or> wr = Write_Err ECONNRESET)"

fun uc_exec :: "ulabel \<Rightarrow> echo_client \<Rightarrow> error + echo_client" where
  "uc_exec (U_Line line) u =
     bindE (exec (L_Foreign (F_Send line)) (uc_conn u)) (\<lambda>c.
     Inr (u\<lparr>uc_conn := c, uc_typed := (if connected (uc_conn u) then uc_typed u @ [line] else uc_typed u)\<rparr>))"
| "uc_exec U_Eof u =
     bindE (exec (L_Foreign F_Shutdown) (uc_conn u)) (\<lambda>c. Inr (u\<lparr>uc_conn := c, uc_ended := True\<rparr>))"
| "uc_exec (U_Event rr wr revs) u =
     bindE (exec (L_Event (ui_io rr wr) revs) (uc_conn u)) (\<lambda>c.
     Inr (eb_onConnection_down (uc_conn u) (ui_onMessage rr revs (uc_conn u) (u\<lparr>uc_conn := c\<rparr>))))"
| "uc_exec (U_Task wr) u =
     bindE (exec (L_Task wr []) (uc_conn u)) (\<lambda>c.
     Inr (eb_onConnection_down (uc_conn u) (u\<lparr>uc_conn := c, uc_failed := uc_failed u \<or> lost_write wr (uc_conn u)\<rparr>)))"

text \<open>
  The environment: documented outcomes of the system calls, lines that fit into memory, and the end of input comes once, after the lines, and
  while the connection is not down.
\<close>

fun uc_legal :: "ulabel \<Rightarrow> echo_client \<Rightarrow> bool" where
  "uc_legal (U_Line line) u \<longleftrightarrow> \<not> uc_ended u \<and> length line \<le> vec_max"
| "uc_legal U_Eof u \<longleftrightarrow> \<not> uc_ended u \<and> \<not> disconnected (uc_conn u)"
| "uc_legal (U_Event rr wr revs) u \<longleftrightarrow> legal_label (L_Event (ui_io rr wr) revs) (uc_conn u)"
| "uc_legal (U_Task wr) u \<longleftrightarrow> legal_label (L_Task wr []) (uc_conn u)"

section \<open>Invariant\<close>

fun queued_text :: "ctask list \<Rightarrow> string" where
  "queued_text [] = []"
| "queued_text (Task_Send s # ts) = s @ queued_text ts"
| "queued_text (t # ts) = queued_text ts"

lemma queued_append [simp]: "queued_text (ts @ us) = queued_text ts @ queued_text us"
  by (induction ts rule: queued_text.induct) simp_all

text \<open>The queue: sends, then the shutdown if the input has ended.\<close>

fun uc_queue :: "bool \<Rightarrow> ctask list \<Rightarrow> bool" where
  "uc_queue ended [] = True"
| "uc_queue ended (Task_Send s # ts) = (uc_queue ended ts \<and> (ended \<longrightarrow> ts \<noteq> []))"
| "uc_queue ended (Task_Shutdown # ts) = (ended \<and> ts = [])"
| "uc_queue ended (t # ts) = False"

lemma uc_queue_more: "uc_queue False ts \<Longrightarrow> uc_queue False (ts @ [Task_Send s]) \<and> uc_queue True (ts @ [Task_Shutdown])"
  by (induction "False" ts rule: uc_queue.induct) auto

lemma uc_queue_closed: "uc_queue ended ts \<Longrightarrow> uc_queue True ts \<or> \<not> ended"
  by (cases ended) auto

text \<open>
  What the program has been given is what was taken for sending and what is queued, until the sending side is shut down;
  at any time the former is a prefix.
\<close>

definition uc_flow :: "string list \<Rightarrow> bool \<Rightarrow> bool \<Rightarrow> conn \<Rightarrow> bool" where
  "uc_flow typed ended failed c \<longleftrightarrow> \<not> hasWriteCompleteCb c \<and> \<not> hasHighWaterCb c \<and> uc_queue ended (pendingTasks c) \<and>
     (disconnected c \<or> (if ended then state c = kDisconnecting else connected c)) \<and>
     (failed \<or> prefix (taken c) (concat typed)) \<and>
     (live c \<longrightarrow> \<not> wrShut c \<longrightarrow> failed \<or> taken c @ queued_text (pendingTasks c) = concat typed) \<and>
     (live c \<longrightarrow> ended \<longrightarrow> pendingTasks c = [] \<longrightarrow> contents (outputBuffer c) = [] \<longrightarrow> wrShut c)"

interpretation uc_app: conn_app "ui_io rr wr" "uc_flow typed ended failed" for rr wr typed ended failed
proof unfold_locales
  show "uc_flow typed ended failed (upd_chan (\<lambda>ch. ch\<lparr>handlingEvents := x\<rparr>) c) = uc_flow typed ended failed c"
    "uc_flow typed ended failed (upd_chan (setRevents rv) c) = uc_flow typed ended failed c" for x rv c
    by (simp_all add: uc_flow_def upd_chan_def connected_def disconnected_def live_def)
  show "uc_flow typed ended failed (c\<lparr>inputBuffer := b\<rparr>) = uc_flow typed ended failed c" for b c
    by (simp add: uc_flow_def connected_def disconnected_def live_def)
  show "uc_flow typed ended failed c'"
    if "uc_flow typed ended failed c" "handleClose True (closeCalls (ui_io rr wr)) c = Inr c'" for c c'
    using that(1) handleClose_Inr[of c c'] that(2) by (auto simp: ui_io_def uc_flow_def live_def disconnected_def)
  show "uc_flow typed ended failed c'"
    if "uc_flow typed ended failed c" "foldE run_api (msgCalls (ui_io rr wr)) (c\<lparr>inputBuffer := b\<rparr>) = Inr c'" for c b c'
  proof -
    have "c' = c\<lparr>inputBuffer := retrieveAll b\<rparr>" using that(2) by (simp add: ui_io_def)
    then show ?thesis using that(1) by (cases ended) (simp_all add: uc_flow_def connected_def disconnected_def live_def)
  qed
  show "uc_flow typed ended failed c'" if a: "conn_inv c" "live c" "isWriting (chan c)"
    "wr_ok c (length (contents (outputBuffer c))) (wres (ui_io rr wr))"
    "uc_flow typed ended failed c" "handleWrite (wres (ui_io rr wr)) c = Inr c'" for c c'
  proof (cases wr)
    case (Write_Err e)
    then have "c' = c" using handleWrite_ok[OF a(1-4)] a(6) by (auto simp: ui_io_def)
    then show ?thesis using a(5) by simp
  next
    case (Wrote n)
    have nd: "state c \<noteq> kDisconnected" using a(2) by (auto simp: live_def)
    have t: "taken c' = taken c" "state c' = state c" "conn_inv c'" using handleWrite_ok[OF a(1-4)] a(6) by auto
    obtain ob where ob: "outputBuffer c' = ob" "reads_alike c c'"
      "wrShut c' \<longleftrightarrow> wrShut c \<or> state c = kDisconnecting \<and> readableBytes ob = 0"
      "pendingTasks c' = pendingTasks c @ (if readableBytes ob = 0 \<and> hasWriteCompleteCb c then [Task_WriteComplete] else [])"
      using handleWrite_Inr[of n c c'] a(6) nd Wrote by (auto simp: ui_io_def)
    have "readableBytes ob = length (contents ob)" using length_contents[OF conn_invD(2)[OF t(3)]] ob(1) by simp
    moreover have "\<not> hasWriteCompleteCb c" using a(5) by (simp add: uc_flow_def)
    then have "pendingTasks c' = pendingTasks c" "\<not> hasWriteCompleteCb c'" "hasHighWaterCb c' = hasHighWaterCb c"
      using ob(2,4) by (simp_all add: reads_alike_def)
    moreover have "ended \<Longrightarrow> state c = kDisconnecting" using a(2,5) nd by (auto simp: uc_flow_def disconnected_def)
    moreover have "live c' = live c" "connected c' = connected c" "disconnected c' = disconnected c"
      using t(2) by (simp_all add: live_def connected_def disconnected_def)
    ultimately show ?thesis using a(2,5) ob(1,3) t(1,2) unfolding uc_flow_def by auto
  qed
qed

section \<open>The steps\<close>

lemma line_flow:
  assumes inv: "conn_inv c" and p: "uc_flow typed False failed c" and run: "exec (L_Foreign (F_Send line)) c = Inr c'"
  shows "uc_flow (if connected c then typed @ [line] else typed) False failed c'"
proof (cases "connected c")
  case False
  then have "c' = c" using run by (simp add: send_def connected_def)
  then show ?thesis using p False by simp
next
  case True
  then have c': "c' = queue_task (Task_Send line) c" using run by (simp add: send_def connected_def)
  have "\<not> wrShut c" using conn_invD(10)[OF inv] True by (auto simp: connected_def)
  then have "failed \<or> taken c @ queued_text (pendingTasks c) = concat typed"
    using p True by (simp add: uc_flow_def live_def connected_def)
  moreover have "connected c'" "taken c' = taken c" "pendingTasks c' = pendingTasks c @ [Task_Send line]"
      "hasWriteCompleteCb c' = hasWriteCompleteCb c" "hasHighWaterCb c' = hasHighWaterCb c"
    using True by (simp_all add: c' connected_def queue_task_def)
  moreover have "prefix (taken c) (concat typed) \<Longrightarrow> prefix (taken c) (concat typed @ line)" by (simp add: prefix_prefix)
  ultimately show ?thesis using p True uc_queue_more unfolding uc_flow_def by auto
qed

lemma eof_flow:
  assumes inv: "conn_inv c" and p: "uc_flow typed False failed c" and up: "\<not> disconnected c"
    and run: "exec (L_Foreign F_Shutdown) c = Inr c'"
  shows "uc_flow typed True failed c'"
proof -
  have con: "connected c" using p up by (simp add: uc_flow_def)
  then have c': "c' = queue_task Task_Shutdown (c\<lparr>state := kDisconnecting\<rparr>)"
    using run by (simp add: shutdown_def stateAtomicGetAndSet_def connected_def)
  have "\<not> wrShut c" using conn_invD(10)[OF inv] con by (auto simp: connected_def)
  then have "failed \<or> taken c @ queued_text (pendingTasks c) = concat typed"
    using p con by (simp add: uc_flow_def live_def connected_def)
  moreover have "state c' = kDisconnecting" "taken c' = taken c" "pendingTasks c' = pendingTasks c @ [Task_Shutdown]"
      "hasWriteCompleteCb c' = hasWriteCompleteCb c" "hasHighWaterCb c' = hasHighWaterCb c"
    by (simp_all add: c' queue_task_def)
  ultimately show ?thesis using p uc_queue_more unfolding uc_flow_def by auto
qed

lemma task_flow:
  assumes r: "run_inv c" and p: "uc_flow typed ended failed c" and leg: "legal_label (L_Task wr []) c"
    and run: "exec (L_Task wr []) c = Inr c'"
  shows "uc_flow typed ended (failed \<or> lost_write wr c) c'"
proof (cases "pendingTasks c")
  case Nil
  then have "c' = c" using run by simp
  then show ?thesis using p unfolding uc_flow_def by auto
next
  case (Cons t ts)
  let ?c = "c\<lparr>pendingTasks := ts\<rparr>"
  have inv: "conn_inv ?c" using conn_inv_pop[OF _ Cons] r by (simp add: run_inv_def)
  have q: "uc_queue ended (t # ts)" using p Cons by (simp add: uc_flow_def)
  have same: "state ?c = state c" "taken ?c = taken c" "wrShut ?c = wrShut c" "live ?c = live c" by (simp_all add: live_def)
  show ?thesis
  proof (cases t)
    case (Task_Send s)
    have rn: "sendInLoop True wr s ?c = Inr c'" using run Cons Task_Send by simp
    have lg: "length s \<le> vec_max" "wr_ok ?c (length s) wr" using leg Cons Task_Send by simp_all
    have q': "uc_queue ended ts" "ended \<Longrightarrow> ts \<noteq> []" using q Task_Send by simp_all
    show ?thesis
    proof (cases "state c = kDisconnected")
      case True
      then have "c' = ?c" using rn by (simp add: sendInLoop_def)
      then show ?thesis using p q' True by (auto simp: uc_flow_def disconnected_def live_def)
    next
      case False
      have est: "state ?c \<noteq> kConnecting" and lv: "live ?c" using r False est_live by (auto simp: run_inv_def live_def)
      have ok: "taken c' = taken c @ accepted wr s ?c" "state c' = state c" "wrShut c' = wrShut c"
        using okE_Inr[OF sendInLoop_ok[OF inv est lg] rn] by (simp_all add: kept_def)
      have cbs: "\<not> hasWriteCompleteCb ?c" "\<not> hasHighWaterCb ?c" using p by (simp_all add: uc_flow_def)
      then have t: "pendingTasks c' = ts" "\<not> hasWriteCompleteCb c'" "\<not> hasHighWaterCb c'"
        using okE_Inr[OF send_parts_ok[OF inv lv lg] rn] sendInLoop_reads_alike[OF rn]
        by (simp_all add: send_parts_def expected_tasks_def reads_alike_def Let_def)
      have acc: "accepted wr s ?c = s" if "\<not> lost_write wr c" "\<not> wrShut c"
        using that False by (auto simp: accepted_def lost_write_def)
      have rej: "accepted wr s ?c = []" if "wrShut c"
      proof -
        have "\<not> isWriting (chan ?c)" using conn_invD(9,10)[OF inv] lv that by simp
        moreover have "wr = Write_Err EPIPE" using lg(2) that by (cases wr) (auto simp: wr_ok_def)
        ultimately show ?thesis by (simp add: accepted_def)
      qed
      have st: "disconnected c' = disconnected c" "connected c' = connected c" "live c'"
        using lv ok(2) by (simp_all add: live_def connected_def disconnected_def)
      have fl: "failed \<or> prefix (taken c) (concat typed)" "\<not> wrShut c \<Longrightarrow> failed \<or> taken c @ s @ queued_text ts = concat typed"
          "disconnected c \<or> (if ended then state c = kDisconnecting else connected c)"
        using p lv Cons Task_Send by (auto simp: uc_flow_def live_def)
      have "(failed \<or> lost_write wr c) \<or> prefix (taken c') (concat typed) \<and> (\<not> wrShut c' \<longrightarrow> taken c' @ queued_text ts = concat typed)"
      proof (cases "failed \<or> lost_write wr c")
        case False
        then show ?thesis
        proof (cases "wrShut c")
          case True
          then show ?thesis using fl(1) rej ok False by simp
        next
          case open_side: False
          then have "taken c' = taken c @ s" "taken c @ s @ queued_text ts = concat typed" using acc fl(2) ok False by auto
          then show ?thesis by (metis append.assoc prefixI)
        qed
      qed simp
      then show ?thesis using q' ok(2) t st fl(3) unfolding uc_flow_def by auto
    qed
  next
    case Task_Shutdown
    then have e: "ended" "ts = []" using q by simp_all
    have rn: "shutdownInLoop True ?c = Inr c'" using run Cons Task_Shutdown by simp
    have "c' = (if \<not> disconnected c \<and> \<not> isWriting (chan c) then ?c\<lparr>wrShut := True\<rparr> else ?c)"
      using rn by (auto simp: shutdownInLoop_def disconnected_def split: if_splits)
    moreover have "live c \<Longrightarrow> isWriting (chan c) \<longleftrightarrow> contents (outputBuffer c) \<noteq> []" using conn_invD(9)[OF inv] by (simp add: live_def)
    ultimately show ?thesis using p e Cons Task_Shutdown
      by (auto simp: uc_flow_def disconnected_def connected_def live_def)
  qed (use q in simp_all)
qed

definition uc_inv :: "echo_client \<Rightarrow> bool" where
  "uc_inv u \<longleftrightarrow> run_inv (uc_conn u) \<and> uc_flow (uc_typed u) (uc_ended u) (uc_failed u) (uc_conn u) \<and>
     uc_quit u = disconnected (uc_conn u)"

definition uc_rel :: "echo_client \<Rightarrow> echo_client \<Rightarrow> bool" where
  "uc_rel u u' \<longleftrightarrow> prefix (uc_printed u) (uc_printed u') \<and> prefix (uc_typed u) (uc_typed u') \<and> (uc_ended u \<longrightarrow> uc_ended u')"

lemma okE_exec: "run_inv c \<Longrightarrow> legal_label l c \<Longrightarrow> (\<And>c'. exec l c = Inr c' \<Longrightarrow> run_inv c' \<Longrightarrow> progress c c' \<Longrightarrow> okE Q (g c')) \<Longrightarrow>
    okE Q (bindE (exec l c) g)"
  using okE_event[OF exec_ok] by blast

lemma disconnected_stays: "progress c c' \<Longrightarrow> disconnected c \<Longrightarrow> disconnected c'"
  by (simp add: progress_def disconnected_def)

lemma uc_step_ok:
  assumes inv: "uc_inv u" and leg: "uc_legal x u"
  shows "okE (\<lambda>u'. uc_inv u' \<and> uc_rel u u') (uc_exec x u)"
proof -
  let ?c = "uc_conn u"
  have r: "run_inv ?c" "conn_inv ?c" and p: "uc_flow (uc_typed u) (uc_ended u) (uc_failed u) ?c" and q: "uc_quit u = disconnected ?c"
    using inv by (simp_all add: uc_inv_def run_inv_def)
  show ?thesis
  proof (cases x)
    case (U_Line line)
    have e: "\<not> uc_ended u" using leg U_Line by simp
    show ?thesis unfolding U_Line uc_exec.simps
    proof (rule okE_exec[OF r(1)])
      fix c'
      assume c: "exec (L_Foreign (F_Send line)) ?c = Inr c'" "run_inv c'"
      have "state c' = state ?c" using c(1) by (auto simp: send_def split: if_splits)
      moreover have "uc_flow (if connected ?c then uc_typed u @ [line] else uc_typed u) False (uc_failed u) c'"
        using line_flow[OF r(2) _ c(1)] p e by simp
      ultimately show "okE (\<lambda>u'. uc_inv u' \<and> uc_rel u u')
        (Inr (u\<lparr>uc_conn := c', uc_typed := if connected ?c then uc_typed u @ [line] else uc_typed u\<rparr>))"
        using c(2) e q by (simp add: uc_inv_def uc_rel_def disconnected_def)
    qed simp
  next
    case U_Eof
    have e: "\<not> uc_ended u" "\<not> disconnected ?c" using leg U_Eof by simp_all
    show ?thesis unfolding U_Eof uc_exec.simps
    proof (rule okE_exec[OF r(1)])
      fix c'
      assume c: "exec (L_Foreign F_Shutdown) ?c = Inr c'" "run_inv c'"
      have f: "uc_flow (uc_typed u) True (uc_failed u) c'" using eof_flow[OF r(2) _ e(2) c(1)] p e(1) by simp
      have "\<not> disconnected c'" using c(1) e(2)
        by (auto simp: shutdown_def stateAtomicGetAndSet_def disconnected_def bindE_eq_Inr queue_task_def split: if_splits)
      then show "okE (\<lambda>u'. uc_inv u' \<and> uc_rel u u') (Inr (u\<lparr>uc_conn := c', uc_ended := True\<rparr>))"
        using c(2) f e(2) q by (simp add: uc_inv_def uc_rel_def)
    qed (use e in \<open>simp add: disconnected_def\<close>)
  next
    case (U_Event rr wr revs)
    have l: "legal_label (L_Event (ui_io rr wr) revs) ?c" using leg U_Event by simp
    show ?thesis unfolding U_Event uc_exec.simps
    proof (rule okE_exec[OF r(1) l])
      fix c'
      assume c: "exec (L_Event (ui_io rr wr) revs) ?c = Inr c'" "run_inv c'" "progress ?c c'"
      have "uc_flow (uc_typed u) (uc_ended u) (uc_failed u) c'" by (rule uc_app.event_keeps[OF r(1) l p c(1)])
      then show "okE (\<lambda>u'. uc_inv u' \<and> uc_rel u u')
        (Inr (eb_onConnection_down ?c (ui_onMessage rr revs ?c (u\<lparr>uc_conn := c'\<rparr>))))"
        using c(2) q disconnected_stays[OF c(3)] by (auto simp: uc_inv_def uc_rel_def eb_onConnection_down_def ui_onMessage_def)
    qed
  next
    case (U_Task wr)
    have l: "legal_label (L_Task wr []) ?c" using leg U_Task by simp
    show ?thesis unfolding U_Task uc_exec.simps
    proof (rule okE_exec[OF r(1) l])
      fix c'
      assume c: "exec (L_Task wr []) ?c = Inr c'" "run_inv c'" "progress ?c c'"
      have "uc_flow (uc_typed u) (uc_ended u) (uc_failed u \<or> lost_write wr ?c) c'" by (rule task_flow[OF r(1) p l c(1)])
      then show "okE (\<lambda>u'. uc_inv u' \<and> uc_rel u u')
        (Inr (eb_onConnection_down ?c (u\<lparr>uc_conn := c', uc_failed := uc_failed u \<or> lost_write wr ?c\<rparr>)))"
        using c(2) q disconnected_stays[OF c(3)] by (auto simp: uc_inv_def uc_rel_def eb_onConnection_down_def)
    qed
  qed
qed

interpretation uc_run: safe_steps uc_exec uc_legal uc_inv uc_rel
proof unfold_locales
  show "uc_inv u \<Longrightarrow> uc_legal x u \<Longrightarrow> okE (\<lambda>u'. uc_inv u' \<and> uc_rel u u') (uc_exec x u)" for u x
    by (rule uc_step_ok)
qed (auto simp: uc_rel_def)

lemma eb_start_inv: "eb_start f = Inr u \<Longrightarrow> uc_inv u"
proof -
  assume "eb_start f = Inr u"
  then obtain c where c: "conn_start f False = Inr c" "u = \<lparr>uc_conn = c, uc_ended = False, uc_printed = [], uc_quit = False, uc_typed = [], uc_failed = False\<rparr>"
    by (auto simp: eb_start_def bindE_eq_Inr)
  have "\<not> hasWriteCompleteCb c \<and> \<not> hasHighWaterCb c" using c(1)
    by (auto simp: conn_start_def conn_new_def connectEstablished_def on_chan_def setMessageCallback_def setWriteCompleteCallback_def
        setCloseCallBack_def bindE_eq_Inr)
  then show ?thesis using c conn_start_ok[of f False]
    by (auto simp: uc_inv_def uc_flow_def run_inv_def connected_def disconnected_def)
qed

section \<open>Properties\<close>



lemma legal_nothing: "thenP m (legal_fold l f []) = True"
  by (cases m) simp_all

text \<open>An event that only says that there is room to write, of a connection with output.\<close>

lemma write_event:
  assumes r: "run_inv c" and lv: "live c" and d: "contents (outputBuffer c) = d" "d \<noteq> []"
    and io: "wres i = Wrote (length d)" and k: "hasWrite (chan c)"
  obtains c1 where "handleWrite (Wrote (length d)) (upd_chan (\<lambda>ch. ch\<lparr>handlingEvents := True\<rparr>) (upd_chan (setRevents EPOLLOUT) c)) = Inr c1"
    "exec (L_Event i EPOLLOUT) c = Inr (upd_chan (\<lambda>ch. ch\<lparr>handlingEvents := False\<rparr>) c1)"
    "legal_label (L_Event i EPOLLOUT) c"
proof -
  let ?c1 = "upd_chan (\<lambda>ch. ch\<lparr>handlingEvents := True\<rparr>) (upd_chan (setRevents EPOLLOUT) c)"
  have inv: "conn_inv c" "conn_inv ?c1" using r by (simp_all add: run_inv_def conn_inv_upd)
  have w: "isWriting (chan c)" using conn_invD(9)[OF inv(1) lv] d by simp
  have open_side: "\<not> wrShut c" using conn_invD(10)[OF inv(1)] d by auto
  have ds: "dispatch (setRevents EPOLLOUT (chan c)) = [WriteCb]"
    using k by (simp add: dispatch_def wantsClose_def wantsError_def wantsRead_def wantsWrite_def setRevents_def has_def
        EPOLLOUT_def EPOLLHUP_def EPOLLERR_def EPOLLIN_def EPOLLPRI_def EPOLLRDHUP_def)
  have lg: "legal_label (L_Event i EPOLLOUT) c"
    using w ds d open_side io run_inv_live[OF r] lv
    by (simp add: legal_event_def reported_ok_def upd_chan_def wr_ok_def setRevents_def has_def
        EPOLLOUT_def EPOLLHUP_def legal_nothing)
  have l: "live ?c1" "isWriting (chan ?c1)" "wr_ok ?c1 (length (contents (outputBuffer ?c1))) (Wrote (length d))"
    using lv w open_side d by (simp_all add: upd_chan_def live_def isWriting_def setRevents_def wr_ok_def)
  obtain c1 where c1: "handleWrite (Wrote (length d)) ?c1 = Inr c1" using handleWrite_ok[OF inv(2) l] by auto
  have "exec (L_Event i EPOLLOUT) c = Inr (upd_chan (\<lambda>ch. ch\<lparr>handlingEvents := False\<rparr>) c1)"
    using conn_event_callbacks(1)[OF inv(1) lv, of i EPOLLOUT] lg ds c1 io by (simp add: foldE_single foldE_Nil_fun bindE_Inr_id)
  then show thesis using that c1 lg by blast
qed

definition overtaken_run :: "io \<Rightarrow> string \<Rightarrow> write_result \<Rightarrow> label list" where
  "overtaken_run i line wr = [L_Foreign (F_Send line), L_Foreign F_Shutdown, L_Event i EPOLLOUT, L_Task wr []]"

text \<open>
  C3: A shutdown from another thread overtakes what that thread has sent before. The user types a line while earlier output
  is still being written, and ends the input. If the loop then writes the rest of the earlier output before it runs its queue,
  \<open>handleWrite\<close> finds the state that \<open>shutdown()\<close> has set and shuts the sending side down, so the queued line meets a socket
  that no longer takes it: the only outcome of its \<open>write\<close> is \<open>EPIPE\<close>, the line is lost, and nothing tells the program.
\<close>

theorem shutdown_overtakes_lines:
  assumes r: "run_inv c" and st: "state c = kConnected" "pendingTasks c = []" "\<not> hasWriteCompleteCb c" "contents (outputBuffer c) \<noteq> []"
    and io: "wres i = Wrote (length (contents (outputBuffer c)))" and len: "length line \<le> vec_max"
  shows "(legal_trace (overtaken_run i line wr) c \<longleftrightarrow> wr = Write_Err EPIPE) \<and>
    (\<exists>c'. foldE exec (overtaken_run i line (Write_Err EPIPE)) c = Inr c' \<and>
      wire c' = taken c \<and> contents (outputBuffer c') = [] \<and> pendingTasks c' = [Task_Shutdown] \<and> wrShut c')"
proof -
  let ?d = "contents (outputBuffer c)"
  let ?c1 = "queue_task (Task_Send line) c" let ?c2 = "queue_task Task_Shutdown (?c1\<lparr>state := kDisconnecting\<rparr>)"
  let ?c3 = "upd_chan (\<lambda>ch. ch\<lparr>handlingEvents := True\<rparr>) (upd_chan (setRevents EPOLLOUT) ?c2)"
  have e: "exec (L_Foreign (F_Send line)) c = Inr ?c1" "exec (L_Foreign F_Shutdown) ?c1 = Inr ?c2"
    using st by (simp_all add: send_def shutdown_def stateAtomicGetAndSet_def queue_task_def)
  have inv: "conn_inv c" using r by (simp add: run_inv_def)
  have "conn_inv ?c1" using conn_inv_queue[OF inv] by simp
  then have "conn_inv (?c1\<lparr>state := kDisconnecting\<rparr>)" using conn_inv_disconnecting st(1) by (simp add: live_def)
  then have inv2: "conn_inv ?c2" by (rule conn_inv_queue) simp
  have r2: "run_inv ?c2" using inv2 r by (simp add: run_inv_def)
  have s2: "live ?c2" "contents (outputBuffer ?c2) = ?d" "hasWrite (chan ?c2)"
    using inv by (simp_all add: live_def conn_inv_def)
  obtain c4 where c4: "handleWrite (Wrote (length ?d)) ?c3 = Inr c4"
      "exec (L_Event i EPOLLOUT) ?c2 = Inr (upd_chan (\<lambda>ch. ch\<lparr>handlingEvents := False\<rparr>) c4)"
      "legal_label (L_Event i EPOLLOUT) ?c2"
    using write_event[OF r2 s2(1,2) st(4) io s2(3)] by blast
  let ?c5 = "upd_chan (\<lambda>ch. ch\<lparr>handlingEvents := False\<rparr>) c4"
  have s3: "conn_inv ?c3" "live ?c3" "isWriting (chan ?c3)" "wr_ok ?c3 (length (contents (outputBuffer ?c3))) (Wrote (length ?d))"
      "state ?c3 = kDisconnecting" "taken ?c3 = taken c" "pendingTasks ?c3 = [Task_Send line, Task_Shutdown]" "\<not> hasWriteCompleteCb ?c3"
      "contents (outputBuffer ?c3) = ?d"
    using inv2 s2 conn_invD(9)[OF inv2 s2(1)] conn_invD(10)[OF inv] st
    by (auto simp: conn_inv_upd) (auto simp: upd_chan_def setRevents_def live_def isWriting_def queue_task_def wr_ok_def)
  have h: "conn_inv c4" "state c4 = kDisconnecting" "taken c4 = taken c" "contents (outputBuffer c4) = []" "wrShut c4"
    using handleWrite_ok[OF s3(1-4)] c4(1) s3(5,6,9) by auto
  have p: "pendingTasks c4 = [Task_Send line, Task_Shutdown]"
  proof (rule handleWrite_Inr[OF c4(1)])
    show "state ?c3 \<noteq> kDisconnected" using s3(5) by simp
    fix ob
    assume "pendingTasks c4 = pendingTasks ?c3 @ (if readableBytes ob = 0 \<and> hasWriteCompleteCb ?c3 then [Task_WriteComplete] else [])"
    then show ?thesis using s3(7,8) by (simp only:) simp
  qed
  have "legal_label (L_Task wr []) ?c5 \<longleftrightarrow> wr = Write_Err EPIPE"
    using p h(5) len by (cases wr) (auto simp: upd_chan_def wr_ok_def)
  moreover have "legal_label (L_Foreign F_Shutdown) ?c1" using st(1) by simp
  ultimately have leg: "legal_trace (overtaken_run i line wr) c \<longleftrightarrow> wr = Write_Err EPIPE"
    using e c4(2,3) by (simp add: overtaken_run_def legal_nothing del: exec.simps legal_label.simps) simp
  have w5: "\<not> isWriting (chan ?c5)" using conn_invD(9)[OF h(1)] h(2,4) by (simp add: live_def upd_chan_def isWriting_def)
  have b5: "readableBytes (outputBuffer ?c5) = 0" using length_contents[OF conn_invD(2)[OF h(1)]] h(4) by (simp add: upd_chan_def)
  have "exec (L_Task (Write_Err EPIPE) []) ?c5 = Inr (?c5\<lparr>pendingTasks := [Task_Shutdown]\<rparr>)"
    using p h(2) w5 b5 by (simp add: sendInLoop_def upd_chan_def)
  moreover have "wire c4 = taken c" using conn_invD(4)[OF h(1)] h(3,4) by simp
  ultimately show ?thesis using e c4(2) h leg by (simp add: overtaken_run_def upd_chan_def del: exec.simps)
qed

lemma shutdown_overtakes_lines_witness:
  "\<exists>c c'. state c = kConnected \<and> contents (outputBuffer c) = ''hi'' \<and>
     foldE exec (overtaken_run (ui_io (Read_Err 11) (Wrote 2)) ''line'' (Write_Err EPIPE)) c = Inr c' \<and> wire c' = taken c \<and> wrShut c'"
proof -
  obtain c0 c where c: "conn_start 7 False = Inr c0" "run_api (Api_Send (Write_Err EAGAIN) ''hi'') c0 = Inr c"
      "contents (outputBuffer c) = ''hi''" "state c = kConnected" "pendingTasks c = []" "\<not> hasWriteCompleteCb c" "\<not> handlingEvents (chan c)"
    by (simp add: conn_eval append_buf_def contents_def ensureWritableBytes_def beginWrite_def hasWritten_def subrange_def)
  have c0: "conn_inv c0" "state c0 = kConnected" using conn_start_ok[of 7 False] c(1) by auto
  then have "\<not> wrShut c0" using conn_invD(10) by auto
  then have "legal (Api_Send (Write_Err EAGAIN) ''hi'') c0" by (simp add: wr_ok_def vec_max_def)
  then have "conn_inv c" using okE_Inr[OF run_api_ok[OF c0(1)] c(2)] c0(2) by simp
  then have "run_inv c" using c by (simp add: run_inv_def)
  then show ?thesis
    using shutdown_overtakes_lines[of c "ui_io (Read_Err 11) (Wrote 2)" "''line''" "Write_Err EPIPE"] c
    by (auto simp: ui_io_def vec_max_def)
qed

section \<open>Calls from other threads are not atomic\<close>

text \<open>\<open>shutdown()\<close> and \<open>forceClose()\<close> look at the state and then exchange it; the loop can run in between.\<close>

definition shutdown_check :: "conn \<Rightarrow> error + unit" where
  "shutdown_check c = assertE (state c \<le> kDisconnecting)"

definition shutdown_swap :: "bool \<Rightarrow> conn \<Rightarrow> error + conn" where
  "shutdown_swap inL c =
     (let (old, c1) = stateAtomicGetAndSet kDisconnecting c in
      if old = kConnected then (if inL then shutdownInLoop inL c1 else Inr (queue_task Task_Shutdown c1)) else Inr c1)"

definition forceClose_check :: "conn \<Rightarrow> bool" where
  "forceClose_check c \<longleftrightarrow> state c \<noteq> kDisconnected"

definition forceClose_swap :: "conn \<Rightarrow> error + conn" where
  "forceClose_swap c =
     (let (old, c1) = stateAtomicGetAndSet kDisconnecting c in
      if old \<noteq> kDisconnected then Inr (queue_task Task_ForceClose c1) else Inr c1)"

lemma calls_in_parts:
  "shutdown inL c = bindE (shutdown_check c) (\<lambda>_. shutdown_swap inL c)"
  "forceClose c = (if forceClose_check c then forceClose_swap c else Inr c)"
  by (simp_all add: shutdown_def shutdown_check_def shutdown_swap_def forceClose_def forceClose_check_def forceClose_swap_def)

text \<open>
  C4: A close between the two parts of \<open>shutdown()\<close> or \<open>forceClose()\<close> of another thread is undone: the check passes on every
  connection that is up, the loop closes the connection, and the exchange then sets the state back to
  \<open>kDisconnecting\<close>; the assert of the destructor fails when the last reference goes away.
\<close>

theorem close_undone:
  assumes "conn_inv c" and "live c"
  shows "shutdown_check c = Inr () \<and> forceClose_check c \<and>
    (\<exists>c1. handleClose True [] c = Inr c1 \<and> disconnected c1 \<and>
      (\<exists>c2. shutdown_swap False c1 = Inr c2 \<and> forceClose_swap c1 = Inr c2 \<and> state c2 = kDisconnecting \<and>
        conn_destroy c2 = Inl Assert_Failed))"
proof -
  have "legal_close [] c" by (simp add: legal_close_def thenP_def split: sum.split)
  then have "okE (\<lambda>c'. conn_inv c' \<and> advanced c c' \<and> state c' = kDisconnected) (handleClose True [] c)"
    using handleClose_ok[OF assms] by simp
  then obtain c1 where c1: "handleClose True [] c = Inr c1" "state c1 = kDisconnected"
    using handleClose_no_length[of "[]" c] by (auto simp: okE_iff)
  have "state c \<noteq> kDisconnected" using assms(2) by (auto simp: live_def)
  then show ?thesis using c1
    by (auto simp: shutdown_check_def forceClose_check_def shutdown_swap_def forceClose_swap_def stateAtomicGetAndSet_def disconnected_def conn_destroy_def)
qed

lemma close_undone_witness:
  "\<exists>c c1 c2. conn_start 7 True = Inr c \<and> handleClose True [] c = Inr c1 \<and> disconnected c1 \<and>
    shutdown_swap False c1 = Inr c2 \<and> conn_destroy c2 = Inl Assert_Failed"
proof -
  obtain c where c: "conn_start 7 True = Inr c" "conn_inv c" "state c = kConnected"
    using conn_start_ok[of 7 True] by auto
  then show ?thesis using close_undone[of c] by (auto simp: live_def)
qed

end
