(* ===== verification/Ev_Address.thy ===== *)
theory Ev_Address
  imports Ev_Text Ev_BufferInts
begin

text \<open>
  Socket addresses (\<^verbatim>\<open>InetAddress.cc\<close>): a \<open>sockaddr_in\<close> is its three fields, the port and the address as
  the bytes in memory, which are in network order. \<open>inet_pton\<close> and \<open>inet_ntop\<close> read and write
  the dotted decimal form: four numbers up to 255 without leading zeros. The names of connections
  (\<^verbatim>\<open>TcpConnection.h\<close>) and the addresses on a command line (\<^verbatim>\<open>parseArgs\<close> of both distributed examples) are built on it.
\<close>

section \<open>Words between separators\<close>

fun split_on :: "char \<Rightarrow> string \<Rightarrow> string list" where
  "split_on c [] = [[]]"
| "split_on c (x # xs) = (let ws = split_on c xs in if x = c then [] # ws else (x # hd ws) # tl ws)"

fun join_with :: "char \<Rightarrow> string list \<Rightarrow> string" where
  "join_with c [] = []"
| "join_with c [w] = w"
| "join_with c (w # v # ws) = w @ c # join_with c (v # ws)"

lemma split_on_nonempty [simp]: "split_on c s \<noteq> []"
  by (cases s) (simp_all add: Let_def)

lemma join_split: "join_with c (split_on c s) = s"
proof (induction s)
  case Nil
  then show ?case by simp
next
  case (Cons x s)
  obtain w ws where "split_on c s = w # ws" using split_on_nonempty[of c s] by (cases "split_on c s") auto
  with Cons show ?case by (cases ws) (simp_all add: Let_def)
qed

lemma split_word: "c \<notin> set w \<Longrightarrow> split_on c w = [w]" "c \<notin> set w \<Longrightarrow> split_on c (w @ c # s) = w # split_on c s"
  by (induction w) (auto simp: Let_def)

lemma split_join: "ws \<noteq> [] \<Longrightarrow> \<forall>w\<in>set ws. c \<notin> set w \<Longrightarrow> split_on c (join_with c ws) = ws"
  by (induction c ws rule: join_with.induct) (simp_all add: split_word)

lemma length_join: "ws \<noteq> [] \<Longrightarrow> length (join_with c ws) + 1 = sum_list (map length ws) + length ws"
  by (induction c ws rule: join_with.induct) simp_all

lemma set_join: "set (join_with c ws) \<subseteq> insert c (\<Union>w\<in>set ws. set w)"
  by (induction c ws rule: join_with.induct) auto

section \<open>Dotted decimal\<close>

definition octet :: "string \<Rightarrow> char option" where
  "octet s =
     (if s \<noteq> [] \<and> list_all isdigit s \<and> (length s = 1 \<or> hd s \<noteq> CHR ''0'') \<and> digits_value s < 256
      then Some (char_of (digits_value s)) else None)"

definition inet_pton :: "string \<Rightarrow> string option" where
  "inet_pton s =
     (let ws = split_on (CHR ''.'') s; os = map octet ws
      in if length ws = 4 \<and> list_all (\<lambda>x. x \<noteq> None) os then Some (map the os) else None)"

text \<open>\<open>inet_ntop\<close> refuses a buffer that is too short for the text and its terminating zero.\<close>

definition inet_ntop :: "string \<Rightarrow> nat \<Rightarrow> string option" where
  "inet_ntop a cap =
     (let s = join_with (CHR ''.'') (map (\<lambda>c. dec (of_char c)) a) in if length s < cap then Some s else None)"

lemma digit_of_val: "isdigit c \<Longrightarrow> digit (digit_val c) = c \<and> digit_val c < 10"
  by (auto simp: isdigit_def digit_def digit_val_def)

lemma dec_hd: "0 < n \<Longrightarrow> hd (dec n) \<noteq> CHR ''0''"
proof (induction n rule: dec.induct)
  case (1 n)
  show ?case
  proof (cases "n < 10")
    case True
    have "digit n \<noteq> CHR ''0''"
    proof
      assume "digit n = CHR ''0''"
      then have "of_char (digit n) = (48 :: nat)" by simp
      then show False using of_char_digit[OF True] 1(2) by simp
    qed
    then show ?thesis using True by (simp add: dec_small)
  next
    case False
    then show ?thesis using 1 by (simp add: dec_big)
  qed
qed

text \<open>A number without leading zeros is how its value is printed.\<close>

lemma dec_digits_value:
  "s \<noteq> [] \<Longrightarrow> list_all isdigit s \<Longrightarrow> length s = 1 \<or> hd s \<noteq> CHR ''0'' \<Longrightarrow>
   dec (digits_value s) = s \<and> (hd s \<noteq> CHR ''0'' \<longrightarrow> 0 < digits_value s)"
proof (induction s rule: rev_induct)
  case Nil
  then show ?case by simp
next
  case (snoc c s)
  have c: "digit (digit_val c) = c" "digit_val c < 10" using snoc.prems(2) digit_of_val[of c] by auto
  show ?case
  proof (cases "s = []")
    case True
    have "digit_val c = 0 \<Longrightarrow> c = CHR ''0''" using c digit_chars(1) by metis
    then show ?thesis using True c by (auto simp: digits_value_def dec_small)
  next
    case False
    then have "dec (digits_value s) = s" "0 < digits_value s" using snoc by auto
    then show ?thesis using c by (simp add: digits_value_snoc dec_big)
  qed
qed

lemma octet_dec [simp]: "octet (dec (of_char c)) = Some c"
proof -
  have "length (dec (of_char c)) = 1 \<or> hd (dec (of_char c)) \<noteq> CHR ''0''"
    by (cases "0 < (of_char c :: nat)") (simp_all add: dec_hd dec_small)
  then show ?thesis by (simp add: octet_def list_all_iff dec_digits)
qed

lemma octet_Some: "octet s = Some c \<Longrightarrow> s = dec (of_char c)"
  using dec_digits_value[of s] by (auto simp: octet_def split: if_splits)

lemma dec_no_dot: "CHR ''.'' \<notin> set (dec n)"
proof
  assume "CHR ''.'' \<in> set (dec n)"
  then have "isdigit (CHR ''.'')" by (rule dec_digits)
  then show False by (simp add: isdigit_def)
qed

lemma pton_ntop: "length a = 4 \<Longrightarrow> inet_ntop a cap = Some s \<Longrightarrow> inet_pton s = Some a"
proof -
  assume a: "length a = 4" and s: "inet_ntop a cap = Some s"
  have "map (\<lambda>c. dec (of_char c)) a \<noteq> []" using a by auto
  then have "split_on (CHR ''.'') s = map (\<lambda>c. dec (of_char c)) a"
    using s split_join[of "map (\<lambda>c. dec (of_char c)) a" "CHR ''.''"] a dec_no_dot
    by (auto simp: inet_ntop_def Let_def split: if_splits)
  then show ?thesis using a by (simp add: inet_pton_def Let_def list_all_iff o_def)
qed

lemma ntop_pton: "inet_pton s = Some a \<Longrightarrow> length a = 4 \<and> join_with (CHR ''.'') (map (\<lambda>c. dec (of_char c)) a) = s"
proof -
  let ?ws = "split_on (CHR ''.'') s"
  assume "inet_pton s = Some a"
  then have p: "length ?ws = 4" "list_all (\<lambda>w. octet w \<noteq> None) ?ws" "a = map (\<lambda>w. the (octet w)) ?ws"
    by (auto simp: inet_pton_def Let_def list_all_iff split: if_splits)
  have "map (\<lambda>c. dec (of_char c)) a = ?ws"
    unfolding p(3) map_map by (rule map_idI) (use p(2) octet_Some in \<open>force simp: list_all_iff\<close>)
  then show ?thesis using p join_split by simp
qed

lemma ntop_fits: "length a = 4 \<Longrightarrow> inet_ntop a 16 = Some (join_with (CHR ''.'') (map (\<lambda>c. dec (of_char c)) a))"
proof -
  assume a: "length a = 4"
  let ?ws = "map (\<lambda>c. dec (of_char c)) a"
  have "length (dec (of_char c)) \<le> 3" for c :: char
  proof (rule dec_length)
    have "of_char c < (256 :: nat)" by simp
    then have "of_char c < (1000 :: nat)" by linarith
    then show "of_char c < (10 :: nat) ^ 3" by simp
  qed simp
  then have "sum_list (map length ?ws) \<le> length a * 3" by (induction a) (simp_all add: add_mono)
  then have "length (join_with (CHR ''.'') ?ws) < 16" using length_join[of ?ws "CHR ''.''"] a by force
  then show ?thesis by (simp add: inet_ntop_def Let_def)
qed

section \<open>Addresses\<close>

record sockaddr_in =
  sin_family :: nat
  sin_port :: string
  sin_addr :: string

definition AF_INET :: nat where
  "AF_INET = 2"

definition INADDR_ANY :: "32 word" where
  "INADDR_ANY = 0"

definition INADDR_LOOPBACK :: "32 word" where
  "INADDR_LOOPBACK = 0x7f000001"

text \<open>What \<open>htons\<close> and \<open>htonl\<close> leave in memory, and \<open>ntohs\<close>.\<close>

definition htons :: "16 word \<Rightarrow> string" where
  "htons x = be_encode 2 (unat x)"

definition htonl :: "32 word \<Rightarrow> string" where
  "htonl x = be_encode 4 (unat x)"

definition ntohs :: "string \<Rightarrow> 16 word" where
  "ntohs s = of_nat (be_decode s)"

definition c_str :: "string \<Rightarrow> string" where
  "c_str s = takeWhile (\<lambda>c. c \<noteq> CHR 0x00) s"

text \<open>The two constructors; \<open>SYSFATAL\<close> aborts.\<close>

definition InetAddress_any :: "16 word \<Rightarrow> bool \<Rightarrow> sockaddr_in" where
  "InetAddress_any port loopback =
     (let ip = (if loopback then INADDR_LOOPBACK else INADDR_ANY)
      in \<lparr>sin_family = AF_INET, sin_port = htons port, sin_addr = htonl ip\<rparr>)"

definition InetAddress_ip :: "string \<Rightarrow> 16 word \<Rightarrow> error + sockaddr_in" where
  "InetAddress_ip ip port =
     (case inet_pton (c_str ip) of
        None \<Rightarrow> Inl Aborted
      | Some a \<Rightarrow> Inr \<lparr>sin_family = AF_INET, sin_port = htons port, sin_addr = a\<rparr>)"

definition INET_ADDRSTRLEN :: nat where
  "INET_ADDRSTRLEN = 16"

definition toIp :: "sockaddr_in \<Rightarrow> string" where
  "toIp a = (case inet_ntop (sin_addr a) INET_ADDRSTRLEN of None \<Rightarrow> [] | Some s \<Rightarrow> s)"

definition toPort :: "sockaddr_in \<Rightarrow> 16 word" where
  "toPort a = ntohs (sin_port a)"

definition toIpPort :: "sockaddr_in \<Rightarrow> string" where
  "toIpPort a = (toIp a @ [CHR '':'']) @ to_string (uint (toPort a))"

text \<open>\<open>TcpConnection::name()\<close>.\<close>

definition conn_name :: "sockaddr_in \<Rightarrow> sockaddr_in \<Rightarrow> string" where
  "conn_name local peer = toIpPort peer @ '' -> '' @ toIpPort local"

text \<open>An IPv4 address as the two constructors and the system calls make it.\<close>

definition addr_ok :: "sockaddr_in \<Rightarrow> bool" where
  "addr_ok a \<longleftrightarrow> sin_family a = AF_INET \<and> length (sin_port a) = 2 \<and> length (sin_addr a) = 4"

lemma be_encode_decode: "be_encode (length s) (be_decode s) = s"
proof (induction s rule: rev_induct)
  case Nil
  then show ?case by simp
next
  case (snoc c s)
  then show ?case by (simp add: be_decode_snoc)
qed

lemma htons_ntohs [simp]: "ntohs (htons x) = x" "length s = 2 \<Longrightarrow> htons (ntohs s) = s" "length (htons x) = 2"
proof -
  show "ntohs (htons x) = x"
    using be_decode_encode[of "unat x" 2] unsigned_less[of x, where 'a = nat] by (simp add: ntohs_def htons_def)
  assume s: "length s = 2"
  then have "be_decode s < 2 ^ 16" using be_decode_lt[of s] by simp
  then have "unat (of_nat (be_decode s) :: 16 word) = be_decode s" by (simp add: unat_of_nat take_bit_eq_mod)
  then show "htons (ntohs s) = s" using s be_encode_decode[of s] by (simp add: htons_def ntohs_def)
qed (simp_all add: htons_def)

lemma toIp_join: "addr_ok a \<Longrightarrow> inet_ntop (sin_addr a) 16 = Some (toIp a)"
  using ntop_fits[of "sin_addr a"] by (simp add: addr_ok_def toIp_def INET_ADDRSTRLEN_def)

lemma toIp_chars: "addr_ok a \<Longrightarrow> c \<in> set (toIp a) \<Longrightarrow> isdigit c \<or> c = CHR ''.''"
proof -
  assume a: "addr_ok a" "c \<in> set (toIp a)"
  have "toIp a = join_with (CHR ''.'') (map (\<lambda>c. dec (of_char c)) (sin_addr a))"
    using toIp_join[OF a(1)] by (simp add: inet_ntop_def Let_def split: if_splits)
  then show ?thesis using a(2) set_join[of "CHR ''.''" "map (\<lambda>c. dec (of_char c)) (sin_addr a)"] dec_digits by fastforce
qed

lemma c_str_id: "CHR 0x00 \<notin> set s \<Longrightarrow> c_str s = s"
  unfolding c_str_def takeWhile_eq_all_conv by metis

lemma c_str_toIp: "addr_ok a \<Longrightarrow> c_str (toIp a) = toIp a"
  using toIp_chars[of a "CHR 0x00"] by (intro c_str_id) (auto simp: isdigit_def)

lemma address_of_text: "addr_ok a \<Longrightarrow> InetAddress_ip (toIp a) (toPort a) = Inr a"
  using pton_ntop[OF _ toIp_join, of a] by (simp add: InetAddress_ip_def c_str_toIp toPort_def addr_ok_def)

lemma text_of_address:
  "InetAddress_ip ip port = Inr a \<Longrightarrow> addr_ok a \<and> toIp a = c_str ip \<and> toPort a = port"
  using ntop_pton[of "c_str ip"] ntop_fits
  by (fastforce simp: InetAddress_ip_def addr_ok_def toIp_def toPort_def INET_ADDRSTRLEN_def split: option.splits)

section \<open>Command lines\<close>

text \<open>
  \<open>parseArgs\<close> of both clients: pairs of an address and a port; \<open>None\<close> is the end of the program by \<open>usage()\<close>.
  The port is cut to 16 bits.
\<close>

fun parse_peers :: "string list \<Rightarrow> error + sockaddr_in list" where
  "parse_peers (ip # port # rest) =
     bindE (atoi port) (\<lambda>n.
     bindE (InetAddress_ip ip (word_of_int n)) (\<lambda>a.
     bindE (parse_peers rest) (\<lambda>as. Inr (a # as))))"
| "parse_peers _ = Inr []"

definition parseArgs :: "string list \<Rightarrow> error + sockaddr_in list option" where
  "parseArgs argv =
     (if length argv \<le> 2 \<or> length argv mod 2 \<noteq> 1 then Inr None
      else bindE (parse_peers (tl argv)) (\<lambda>peers. Inr (Some peers)))"

definition address_args :: "sockaddr_in list \<Rightarrow> string list" where
  "address_args as = concat (map (\<lambda>a. [toIp a, to_string (uint (toPort a))]) as)"

lemma atoi_port: "atoi (to_string (uint p)) = Inr (uint p)" for p :: "16 word"
  using uint_bounded[of p] order_trans[of "- 2147483648" 0 "uint p"] by (intro atoi_to_string) simp_all

lemma parse_peers_printed: "list_all addr_ok as \<Longrightarrow> parse_peers (address_args as) = Inr as"
  by (induction as) (simp_all add: address_args_def atoi_port address_of_text)

lemma length_address_args: "length (address_args as) = 2 * length as"
  by (induction as) (simp_all add: address_args_def)

lemma be_encode_4:
  "be_encode 4 x = map char_of [x div 256 div 256 div 256 mod 256, x div 256 div 256 mod 256, x div 256 mod 256, x mod 256]"
proof -
  have "(4 :: nat) = Suc (Suc (Suc (Suc 0)))" by simp
  then show ?thesis by (simp only: be_encode.simps) simp
qed

lemma constant_texts: "inet_ntop (htonl INADDR_LOOPBACK) 16 = Some ''127.0.0.1''" "inet_ntop (htonl INADDR_ANY) 16 = Some ''0.0.0.0''"
proof -
  have "htonl INADDR_LOOPBACK = map char_of [127, 0, 0, 1 :: nat]" "htonl INADDR_ANY = map char_of [0, 0, 0, 0 :: nat]"
    by (simp_all add: htonl_def INADDR_LOOPBACK_def INADDR_ANY_def be_encode_4)
  moreover have "inet_ntop (map char_of [127, 0, 0, 1 :: nat]) 16 = Some ''127.0.0.1''"
    "inet_ntop (map char_of [0, 0, 0, 0 :: nat]) 16 = Some ''0.0.0.0''"
    by code_simp+
  ultimately show "inet_ntop (htonl INADDR_LOOPBACK) 16 = Some ''127.0.0.1''" "inet_ntop (htonl INADDR_ANY) 16 = Some ''0.0.0.0''"
    by simp_all
qed

text \<open>The server that a pair of arguments stands for.\<close>

definition peer_of :: "string \<Rightarrow> string \<Rightarrow> sockaddr_in \<Rightarrow> bool" where
  "peer_of ip port a \<longleftrightarrow>
     addr_ok a \<and> toIp a = c_str ip \<and> (\<exists>n. atoi port = Inr n \<and> toPort a = word_of_int n)"

lemma parse_peers_ok:
  "parse_peers args = Inr ps \<Longrightarrow> even (length args) \<Longrightarrow>
   2 * length ps = length args \<and> (\<forall>i<length ps. peer_of (args ! (2 * i)) (args ! (2 * i + 1)) (ps ! i))"
proof (induction args arbitrary: ps rule: parse_peers.induct)
  case (1 ip port rest)
  then obtain n a as where p: "atoi port = Inr n" "InetAddress_ip ip (word_of_int n) = Inr a" "parse_peers rest = Inr as" "ps = a # as"
    by (auto simp: bindE_eq_Inr)
  have as: "2 * length as = length rest" "\<And>i. i < length as \<Longrightarrow> peer_of (rest ! (2 * i)) (rest ! (2 * i + 1)) (as ! i)"
    using 1(1)[OF p(1-3)] 1(3) by auto
  have "peer_of ((ip # port # rest) ! (2 * i)) ((ip # port # rest) ! (2 * i + 1)) (ps ! i)" if "i < length ps" for i
    using that as(2) p text_of_address[OF p(2)] by (cases i) (auto simp: peer_of_def)
  then show ?case using as(1) p(4) by simp
qed auto

section \<open>Properties\<close>

text \<open>
  C36: Addresses and their text. A text is accepted, and gives the address \<open>b\<close>, exactly when \<open>b\<close> prints as
  that text and has the port that was asked for; in particular an address that is printed and read again is the same
  address. A text is refused, which ends the process, exactly when no address prints as it. And the addresses made
  without a text print as 0.0.0.0 and 127.0.0.1.
\<close>

theorem address_roundtrip:
  "(InetAddress_ip ip port = Inr b \<longleftrightarrow> addr_ok b \<and> toIp b = c_str ip \<and> toPort b = port) \<and>
   (addr_ok a \<longrightarrow> InetAddress_ip (toIp a) (toPort a) = Inr a) \<and>
   (InetAddress_ip ip port = Inl Aborted \<longleftrightarrow> (\<nexists>a. addr_ok a \<and> toIp a = c_str ip)) \<and>
   toIp (InetAddress_any port loopback) = (if loopback then ''127.0.0.1'' else ''0.0.0.0'') \<and>
   toPort (InetAddress_any port loopback) = port"
proof -
  have idem: "InetAddress_ip ip p = InetAddress_ip (c_str ip) p" for p
    by (simp add: InetAddress_ip_def c_str_def)
  have acc: "InetAddress_ip ip (toPort b) = Inr b" if "addr_ok b" "toIp b = c_str ip" for b
    using address_of_text[OF that(1)] that(2) by (simp add: idem[of "toPort b"])
  have port: "InetAddress_ip ip (toPort b) = Inr b \<Longrightarrow> InetAddress_ip ip port \<noteq> Inl Aborted" for b
    by (auto simp: InetAddress_ip_def split: option.splits)
  have other: "InetAddress_ip ip port = Inl Aborted \<or> (\<exists>b. InetAddress_ip ip port = Inr b)"
    by (simp add: InetAddress_ip_def split: option.splits)
  have accepted: "InetAddress_ip ip port = Inr b \<longleftrightarrow> addr_ok b \<and> toIp b = c_str ip \<and> toPort b = port"
    using text_of_address acc by blast
  have refused: "InetAddress_ip ip port = Inl Aborted \<longleftrightarrow> (\<nexists>a. addr_ok a \<and> toIp a = c_str ip)"
    using other text_of_address acc port by blast
  show ?thesis
    using accepted refused address_of_text by (simp add: constant_texts InetAddress_any_def toIp_def toPort_def INET_ADDRSTRLEN_def)
qed

lemma address_roundtrip_witness:
  "InetAddress_ip ''10.0.0.254'' 9877 = Inr \<lparr>sin_family = 2, sin_port = htons 9877, sin_addr = map char_of [10, 0, 0, 254 :: nat]\<rparr> \<and>
   InetAddress_ip ''10.0.0.256'' 9877 = Inl Aborted \<and> InetAddress_ip ''010.0.0.1'' 9877 = Inl Aborted \<and>
   (let a = \<lparr>sin_family = 2, sin_port = htons 9877, sin_addr = map char_of [10, 0, 0, 254 :: nat]\<rparr>
    in toIp a = ''10.0.0.254'' \<and> toPort a = 9877)"
proof -
  let ?a = "\<lparr>sin_family = 2, sin_port = htons 9877, sin_addr = map char_of [10, 0, 0, 254 :: nat]\<rparr>"
  have t: "c_str ''10.0.0.254'' = ''10.0.0.254''" "inet_pton (c_str ''10.0.0.256'') = None" "inet_pton (c_str ''010.0.0.1'') = None"
      "inet_pton (c_str ''10.0.0.254'') = Some (map char_of [10, 0, 0, 254 :: nat])"
    by code_simp+
  then have "InetAddress_ip ''10.0.0.254'' 9877 = Inr ?a" by (simp add: InetAddress_ip_def AF_INET_def)
  moreover from this have "toIp ?a = ''10.0.0.254'' \<and> toPort ?a = 9877"
    using address_roundtrip[of "''10.0.0.254''" 9877 ?a ?a False] t by simp
  ultimately show ?thesis using t by (simp add: InetAddress_ip_def)
qed

text \<open>
  The name of a connection determines both its addresses: two connections with the same name have the
  same peer and the same local address.
\<close>

theorem connection_names_unique:
  assumes "addr_ok l" "addr_ok p" "addr_ok l'" "addr_ok p'"
  shows "conn_name l p = conn_name l' p' \<longleftrightarrow> l = l' \<and> p = p'"
proof -
  have one: "split_on (CHR '':'') (toIpPort a) = [toIp a, to_string (uint (toPort a))]" if "addr_ok a" for a
  proof -
    have "CHR '':'' \<notin> set (toIp a)" using toIp_chars[OF that, of "CHR '':''"] by (auto simp: isdigit_def)
    moreover have "CHR '':'' \<notin> set (to_string (uint (toPort a)))" using to_string_chars by (force simp: isdigit_def)
    ultimately show ?thesis by (simp add: toIpPort_def split_word)
  qed
  have inj: "a = b" if "addr_ok a" "addr_ok b" "toIpPort a = toIpPort b" for a b
  proof -
    have "toIp a = toIp b" "to_string (uint (toPort a)) = to_string (uint (toPort b))"
      using one[OF that(1)] one[OF that(2)] that(3) by simp_all
    moreover from this have "atoi (to_string (uint (toPort a))) = atoi (to_string (uint (toPort b)))" by simp
    then have "toPort a = toPort b" by (simp add: atoi_port word_uint_eq_iff)
    ultimately have "Inr a = (Inr b :: error + sockaddr_in)"
      unfolding address_of_text[OF that(1), symmetric] address_of_text[OF that(2), symmetric] by (simp only:)
    then show ?thesis by simp
  qed
  have sp: "split_on (CHR '' '') (conn_name l p) = [toIpPort p, ''->'', toIpPort l]" if "addr_ok l" "addr_ok p" for l p
  proof -
    have "CHR '' '' \<notin> set (toIpPort a)" if "addr_ok a" for a
      using toIp_chars[OF that, of "CHR '' ''"] to_string_chars[of "CHR '' ''"] by (auto simp: toIpPort_def isdigit_def)
    then show ?thesis using that split_word[of "CHR '' ''" "''->''"] by (simp add: conn_name_def split_word)
  qed
  show ?thesis
  proof
    assume "conn_name l p = conn_name l' p'"
    then have "toIpPort l = toIpPort l'" "toIpPort p = toIpPort p'" using sp[OF assms(1,2)] sp[OF assms(3,4)] by simp_all
    then show "l = l' \<and> p = p'" using inj assms by blast
  qed simp
qed

lemma connection_names_unique_witness:
  "let a = InetAddress_any 9877 True; b = InetAddress_any 9878 True in conn_name a b \<noteq> conn_name b a"
proof -
  have ok: "addr_ok (InetAddress_any n True)" for n by (simp add: addr_ok_def InetAddress_any_def htonl_def)
  have n: "toPort (InetAddress_any n True) = n" for n by (simp add: toPort_def InetAddress_any_def)
  have "InetAddress_any 9877 True \<noteq> InetAddress_any 9878 True"
  proof
    assume "InetAddress_any 9877 True = InetAddress_any 9878 True"
    then have "(9877 :: 16 word) = 9878" using n[of 9877] n[of 9878] by simp
    then show False by simp
  qed
  then show ?thesis using connection_names_unique[OF ok ok ok ok, of 9877 9878 9878 9877] by simp
qed

text \<open>
  The command line of the two clients. Unless the program ends with its usage line, which it does exactly when
  the arguments are not one or more pairs, there is a server for each pair, in order, with the address that prints
  as the first and the port that is the second cut to 16 bits. The printed addresses of any servers are read back as these servers.
\<close>

theorem parseArgs_peers:
  "(parseArgs argv = Inr None \<longleftrightarrow> length argv < 3 \<or> even (length argv)) \<and>
   (\<forall>ps. parseArgs argv = Inr (Some ps) \<longrightarrow> 2 * length ps + 1 = length argv \<and>
      (\<forall>i<length ps. addr_ok (ps ! i) \<and> toIp (ps ! i) = c_str (argv ! (2 * i + 1)) \<and>
         (\<exists>n. atoi (argv ! (2 * i + 2)) = Inr n \<and> toPort (ps ! i) = word_of_int n))) \<and>
   (\<forall>ps. ps \<noteq> [] \<and> list_all addr_ok ps \<longrightarrow> parseArgs (prog # address_args ps) = Inr (Some ps))"
proof -
  have "2 * length ps + 1 = length argv \<and> (\<forall>i<length ps. peer_of (argv ! (2 * i + 1)) (argv ! (2 * i + 2)) (ps ! i))"
    if "parseArgs argv = Inr (Some ps)" for ps
  proof -
    have c: "odd (length argv)" "parse_peers (tl argv) = Inr ps"
      using that by (auto simp: parseArgs_def bindE_eq_Inr odd_iff_mod_2_eq_one split: if_splits)
    then obtain prog args where argv: "argv = prog # args" by (cases argv) auto
    with c show ?thesis using parse_peers_ok[of args ps] by auto
  qed
  moreover have "parseArgs argv = Inr None \<longleftrightarrow> length argv < 3 \<or> even (length argv)"
    by (auto simp: parseArgs_def bindE_eq_Inr odd_iff_mod_2_eq_one)
  moreover have "parseArgs (prog # address_args ps) = Inr (Some ps)" if "ps \<noteq> []" "list_all addr_ok ps" for ps
    using that parse_peers_printed[OF that(2)] by (cases ps) (simp_all add: parseArgs_def length_address_args)
  ultimately show ?thesis unfolding peer_of_def by blast
qed

lemma parseArgs_peers_witness:
  "parseArgs (''client'' # address_args [InetAddress_any 9877 True, InetAddress_any 65535 False]) =
     Inr (Some [InetAddress_any 9877 True, InetAddress_any 65535 False]) \<and>
   parseArgs [''client'', ''10.0.0.1''] = Inr None"
proof -
  have "addr_ok (InetAddress_any n b)" for n b by (simp add: addr_ok_def InetAddress_any_def htonl_def)
  then show ?thesis
    using parseArgs_peers[of "[''client'', ''10.0.0.1'']"] parseArgs_peers[of "[]" "''client''"] by simp
qed

end
