(* ===== verification/Ev_Logger.thy ===== *)
theory Ev_Logger
  imports Ev_Text
begin

text \<open>
  The logger (\<^verbatim>\<open>Logger.c\<close>, \<^verbatim>\<open>Logger.h\<close>): the level and the descriptor, the line that is put together in a buffer of
  256 bytes on the stack, and the macros the library logs with. The buffer is the list of its bytes, with any contents at first; a
  store outside of it is \<open>Out_Of_Bounds\<close>. The message is the text that \<open>vsnprintf\<close> expands the format and its
  arguments to. \<open>log_out\<close> collects what is written to descriptors, and \<open>log_aborted\<close> tells that the process has called \<open>abort()\<close>.
\<close>

section \<open>The standard library\<close>

text \<open>Storing a text and its terminating zero at an offset; \<open>sprintf\<close> and \<open>snprintf\<close> return the length of the whole text.\<close>

definition store_text :: "nat \<Rightarrow> string \<Rightarrow> string \<Rightarrow> error + string" where
  "store_text i s d =
     (if i + length s < length d then Inr (take i d @ s @ CHR 0x00 # drop (i + length s + 1) d) else Inl Out_Of_Bounds)"

definition sprintf_at :: "nat \<Rightarrow> string \<Rightarrow> string \<Rightarrow> error + string \<times> nat" where
  "sprintf_at i s d = bindE (store_text i s d) (\<lambda>d'. Inr (d', length s))"

definition snprintf_at :: "nat \<Rightarrow> nat \<Rightarrow> string \<Rightarrow> string \<Rightarrow> error + string \<times> nat" where
  "snprintf_at i len s d =
     (if len = 0 then Inr (d, length s)
      else bindE (store_text i (take (len - 1) s) d) (\<lambda>d'. Inr (d', length s)))"

text \<open>The conversions \<open>%Nd\<close> and \<open>%0Nd\<close>.\<close>

definition pad_space :: "nat \<Rightarrow> int \<Rightarrow> string" where
  "pad_space w x = replicate (w - length (to_string x)) (CHR '' '') @ to_string x"

definition pad_zero :: "nat \<Rightarrow> int \<Rightarrow> string" where
  "pad_zero w x =
     (let ds = dec (nat \<bar>x\<bar>); sign = (if x < 0 then ''-'' else [])
      in sign @ replicate (w - length sign - length ds) (CHR ''0'') @ ds)"

text \<open>What is read from a buffer as a C string, and the part of a path after its last slash.\<close>

definition read_text :: "string \<Rightarrow> error + string" where
  "read_text d = (if CHR 0x00 \<in> set d then Inr (takeWhile (\<lambda>c. c \<noteq> CHR 0x00) d) else Inl Out_Of_Bounds)"

definition after_slash :: "string \<Rightarrow> error + string" where
  "after_slash file =
     (if CHR ''/'' \<in> set file then Inr (rev (takeWhile (\<lambda>c. c \<noteq> CHR ''/'') (rev file))) else Inl Null_Pointer)"

section \<open>The logger\<close>

definition LOG_LEVEL_TRACE :: int where "LOG_LEVEL_TRACE = 0"
definition LOG_LEVEL_DEBUG :: int where "LOG_LEVEL_DEBUG = 1"
definition LOG_LEVEL_INFO :: int where "LOG_LEVEL_INFO = 2"
definition LOG_LEVEL_WARN :: int where "LOG_LEVEL_WARN = 3"
definition LOG_LEVEL_ERROR :: int where "LOG_LEVEL_ERROR = 4"
definition LOG_LEVEL_FATAL :: int where "LOG_LEVEL_FATAL = 5"

lemmas log_levels = LOG_LEVEL_TRACE_def LOG_LEVEL_DEBUG_def LOG_LEVEL_INFO_def LOG_LEVEL_WARN_def LOG_LEVEL_ERROR_def LOG_LEVEL_FATAL_def

record logger =
  logLevel :: int
  log_fd :: int
  log_out :: "(int \<times> string) list"
  log_aborted :: bool

definition STDOUT_FILENO :: int where
  "STDOUT_FILENO = 1"

definition STDERR_FILENO :: int where
  "STDERR_FILENO = 2"

definition logger_init :: logger where
  "logger_init = \<lparr>logLevel = LOG_LEVEL_DEBUG, log_fd = STDOUT_FILENO, log_out = [], log_aborted = False\<rparr>"

definition log_level_str :: "string list" where
  "log_level_str = [''[TRACE]'', ''[DEBUG]'', ''[INFO] '', ''[WARN] '', ''[ERROR]'', ''[FATAL]'']"

definition MAXLINE :: nat where
  "MAXLINE = 256"

definition setLogLevel :: "int \<Rightarrow> logger \<Rightarrow> logger" where
  "setLogLevel level s =
     (let level = (if level < LOG_LEVEL_TRACE then LOG_LEVEL_TRACE else level);
          level = (if LOG_LEVEL_FATAL < level then LOG_LEVEL_FATAL else level)
      in s\<lparr>logLevel := level\<rparr>)"

definition setLogFd :: "int \<Rightarrow> logger \<Rightarrow> logger" where
  "setLogFd new_fd s = s\<lparr>log_fd := (if new_fd \<le> 0 then STDOUT_FILENO else new_fd)\<rparr>"

text \<open>
  What a call finds around it: the time (\<open>gettimeofday\<close>, \<open>gmtime_r\<close>), the process id, the bytes on the stack, whether the write
  succeeds, and the text of \<open>errno\<close>.
\<close>

record log_env =
  tm_year :: int
  tm_mon :: int
  tm_mday :: int
  tm_hour :: int
  tm_min :: int
  tm_sec :: int
  tv_usec :: int
  env_pid :: int
  env_stack :: string
  env_write_ok :: bool
  env_strerror :: string

definition timestamp_text :: "log_env \<Rightarrow> string" where
  "timestamp_text env =
     pad_space 4 (tm_year env + 1900) @ pad_zero 2 (tm_mon env + 1) @ pad_zero 2 (tm_mday env) @ '' '' @
     pad_zero 2 (tm_hour env) @ '':'' @ pad_zero 2 (tm_min env) @ '':'' @ pad_zero 2 (tm_sec env) @ ''.'' @
     pad_zero 6 (tv_usec env)"

definition fits_int :: "int \<Rightarrow> bool" where
  "fits_int x \<longleftrightarrow> - (2 ^ 31) \<le> x \<and> x < 2 ^ 31"

definition timestamp :: "log_env \<Rightarrow> nat \<Rightarrow> string \<Rightarrow> error + string \<times> nat" where
  "timestamp env len d =
     (if fits_int (tm_year env + 1900) \<and> fits_int (tm_mon env + 1) then snprintf_at 0 len (timestamp_text env) d
      else Inl Signed_Overflow)"

text \<open>The common part of \<open>log_base\<close> and \<open>log_sys\<close>: time, process, tag and message, in the buffer.\<close>

definition fill_line :: "log_env \<Rightarrow> string \<Rightarrow> string \<Rightarrow> error + string" where
  "fill_line env tag msg =
     bindE (timestamp env 32 (env_stack env)) (\<lambda>(d1, n1).
     let i = n1 in
     bindE (sprintf_at i ('' ['' @ to_string (env_pid env) @ '']'') d1) (\<lambda>(d2, n2).
     let i = sz_add i n2 in
     bindE (sprintf_at i ('' '' @ tag @ '' '') d2) (\<lambda>(d3, n3).
     let i = sz_add i n3 in
     bindE (snprintf_at i (sz_sub MAXLINE i) msg d3) (\<lambda>(d4, _).
     read_text d4))))"

definition log_base :: "log_env \<Rightarrow> string \<Rightarrow> int \<Rightarrow> int \<Rightarrow> bool \<Rightarrow> string \<Rightarrow> logger \<Rightarrow> error + logger" where
  "log_base env file line level to_abort msg s =
     bindE (if 0 \<le> level \<and> nat level < length log_level_str then Inr (log_level_str ! nat level) else Inl Out_Of_Bounds) (\<lambda>tag.
     bindE (fill_line env tag msg) (\<lambda>data.
     bindE (after_slash file) (\<lambda>name.
     let out = (if env_write_ok env then (log_fd s, data @ '' - '' @ name @ '':'' @ to_string line @ [CHR 0x0A])
                else (STDERR_FILENO, ''log failed''))
     in Inr (s\<lparr>log_out := log_out s @ [out], log_aborted := to_abort\<rparr>))))"

definition log_sys :: "log_env \<Rightarrow> string \<Rightarrow> int \<Rightarrow> bool \<Rightarrow> string \<Rightarrow> logger \<Rightarrow> error + logger" where
  "log_sys env file line to_abort msg s =
     bindE (fill_line env (if to_abort then ''[SYSFA]'' else ''[SYSER]'') msg) (\<lambda>data.
     bindE (after_slash file) (\<lambda>name.
     let out = (if env_write_ok env
                then [(log_fd s, data @ '': '' @ env_strerror env @ '' - '' @ name @ '':'' @ to_string line @ [CHR 0x0A])]
                else [])
     in Inr (s\<lparr>log_out := log_out s @ out, log_aborted := to_abort\<rparr>)))"

text \<open>The macros.\<close>

datatype log_macro = TRACE | DEBUG | INFO | WARN | ERROR | FATAL | SYSERR | SYSFATAL

definition run_macro :: "log_macro \<Rightarrow> log_env \<Rightarrow> string \<Rightarrow> int \<Rightarrow> string \<Rightarrow> logger \<Rightarrow> error + logger" where
  "run_macro m env file line msg s =
     (case m of
        TRACE \<Rightarrow> if logLevel s \<le> LOG_LEVEL_TRACE then log_base env file line LOG_LEVEL_TRACE False msg s else Inr s
      | DEBUG \<Rightarrow> if logLevel s \<le> LOG_LEVEL_DEBUG then log_base env file line LOG_LEVEL_DEBUG False msg s else Inr s
      | INFO \<Rightarrow> if logLevel s \<le> LOG_LEVEL_INFO then log_base env file line LOG_LEVEL_INFO False msg s else Inr s
      | WARN \<Rightarrow> if logLevel s \<le> LOG_LEVEL_WARN then log_base env file line LOG_LEVEL_WARN False msg s else Inr s
      | ERROR \<Rightarrow> log_base env file line LOG_LEVEL_ERROR False msg s
      | FATAL \<Rightarrow> log_base env file line LOG_LEVEL_FATAL True msg s
      | SYSERR \<Rightarrow> log_sys env file line False msg s
      | SYSFATAL \<Rightarrow> log_sys env file line True msg s)"

datatype log_call =
    Set_Level int
  | Set_Fd int
  | Log log_macro log_env string int string

definition log_step :: "log_call \<Rightarrow> logger \<Rightarrow> error + logger" where
  "log_step c s =
     (case c of
        Set_Level l \<Rightarrow> Inr (setLogLevel l s)
      | Set_Fd n \<Rightarrow> Inr (setLogFd n s)
      | Log m env file line msg \<Rightarrow> run_macro m env file line msg s)"

section \<open>The line\<close>

text \<open>What the system promises of the time and the process id; the source file is given with a directory.\<close>

definition legal_env :: "log_env \<Rightarrow> bool" where
  "legal_env env \<longleftrightarrow>
     fits_int (tm_year env + 1900) \<and> tm_mon env \<in> {0..11} \<and> tm_mday env \<in> {1..31} \<and> tm_hour env \<in> {0..23} \<and>
     tm_min env \<in> {0..59} \<and> tm_sec env \<in> {0..60} \<and> tv_usec env \<in> {0..<1000000} \<and> fits_int (env_pid env) \<and>
     length (env_stack env) = MAXLINE"

definition no_zero :: "string \<Rightarrow> bool" where
  "no_zero s \<longleftrightarrow> CHR 0x00 \<notin> set s"

lemma no_zero_simps [simp]: "no_zero []" "no_zero (c # s) = (c \<noteq> CHR 0x00 \<and> no_zero s)" "no_zero (s @ t) = (no_zero s \<and> no_zero t)"
  "c \<noteq> CHR 0x00 \<Longrightarrow> no_zero (replicate n c)"
  by (auto simp: no_zero_def)

lemma no_zero_dec [simp]: "no_zero (dec n)" "no_zero (to_string x)"
  using dec_digits[of "CHR 0x00" n] to_string_chars[of "CHR 0x00" x] by (auto simp: no_zero_def isdigit_def)

lemma no_zero_pad [simp]: "no_zero (pad_space w x)" "no_zero (pad_zero w x)"
  by (simp_all add: pad_space_def pad_zero_def Let_def)

lemma length_pad_zero: "0 \<le> x \<Longrightarrow> nat x < 10 ^ Suc k \<Longrightarrow> length (pad_zero (Suc k) x) = Suc k"
  using dec_length[of "nat x" "Suc k"] by (simp add: pad_zero_def Let_def)

lemma length_pads:
  "0 \<le> x \<Longrightarrow> x < 100 \<Longrightarrow> length (pad_zero 2 x) = 2"
  "0 \<le> x \<Longrightarrow> x < 1000000 \<Longrightarrow> length (pad_zero 6 x) = 6"
  using length_pad_zero[of x 1] length_pad_zero[of x 5] by (simp_all add: numeral_2_eq_2 nat_less_iff)

lemma length_to_string: "fits_int x \<Longrightarrow> length (to_string x) \<le> 11"
proof -
  assume "fits_int x"
  then have "nat \<bar>x\<bar> < 10 ^ 10" by (auto simp: fits_int_def)
  then have "length (dec (nat \<bar>x\<bar>)) \<le> 10" using dec_length[of "nat \<bar>x\<bar>" 10] by simp
  then show ?thesis by (auto simp: to_string_def)
qed

text \<open>Everything in front of the message: at most 54 characters.\<close>

definition log_prefix :: "log_env \<Rightarrow> string \<Rightarrow> string" where
  "log_prefix env tag = timestamp_text env @ '' ['' @ to_string (env_pid env) @ '']'' @ '' '' @ tag @ '' ''"

lemma timestamp_length: "legal_env env \<Longrightarrow> length (timestamp_text env) \<le> 31"
proof -
  assume e: "legal_env env"
  then have "length (pad_space 4 (tm_year env + 1900)) \<le> 11"
    using length_to_string[of "tm_year env + 1900"] by (simp add: pad_space_def legal_env_def)
  then show ?thesis
    using e by (simp add: timestamp_text_def legal_env_def length_pads)
qed

lemma log_prefix_length: "legal_env env \<Longrightarrow> length tag = 7 \<Longrightarrow> length (log_prefix env tag) \<le> 54"
  using timestamp_length[of env] length_to_string[of "env_pid env"] by (simp add: log_prefix_def legal_env_def)

text \<open>A text is stored behind what the buffer holds.\<close>

lemma store_behind:
  "length s < length r \<Longrightarrow> store_text (length p) s (p @ r) = Inr (p @ s @ CHR 0x00 # drop (length s + 1) r)"
  by (simp add: store_text_def)

lemma sprintf_behind:
  "length s < length r \<Longrightarrow> sprintf_at (length p) s (p @ r) = Inr (p @ s @ CHR 0x00 # drop (length s + 1) r, length s)"
  by (simp add: sprintf_at_def store_behind)

lemma read_stored: "no_zero s \<Longrightarrow> read_text (s @ CHR 0x00 # r) = Inr s"
  by (induction s) (auto simp: read_text_def split: if_splits)

lemma fill_line_ok:
  assumes e: "legal_env env" and tag: "length tag = 7" "no_zero tag" and msg: "no_zero msg"
  shows "fill_line env tag msg = Inr (take (MAXLINE - 1) (log_prefix env tag @ msg))"
proof -
  let ?t = "timestamp_text env" let ?p = "'' ['' @ to_string (env_pid env) @ '']''" let ?g = "'' '' @ tag @ '' ''"
  let ?q = "log_prefix env tag"
  have len: "length ?t \<le> 31" "length ?p \<le> 14" "length ?g = 9"
    using timestamp_length[OF e] length_to_string[of "env_pid env"] e tag by (simp_all add: legal_env_def)
  have q: "?q = ?t @ ?p @ ?g" "length ?q \<le> 54" using log_prefix_length[OF e tag(1)] by (simp_all add: log_prefix_def)
  have st: "length (env_stack env) = 256" using e by (simp add: legal_env_def MAXLINE_def)
  define r1 where "r1 = drop (length ?t + 1) (env_stack env)"
  have "tm_mon env + 1 \<in> {1..12}" using e by (auto simp: legal_env_def)
  then have y: "fits_int (tm_year env + 1900)" "fits_int (tm_mon env + 1)" using e by (simp_all add: legal_env_def fits_int_def)
  have 1: "timestamp env 32 (env_stack env) = Inr (?t @ CHR 0x00 # r1, length ?t)"
    using store_behind[of ?t "env_stack env" "[]"] len(1) st y
    by (simp add: timestamp_def snprintf_at_def r1_def)
  have r1: "length r1 = 255 - length ?t" using st by (simp add: r1_def)
  define r2 where "r2 = drop (length ?p) r1"
  have 2: "sprintf_at (length ?t) ?p (?t @ CHR 0x00 # r1) = Inr ((?t @ ?p) @ CHR 0x00 # r2, length ?p)"
    using sprintf_behind[of ?p "CHR 0x00 # r1" ?t] len r1 by (simp add: r2_def)
  have r2: "length r2 = 255 - length ?t - length ?p" using r1 by (simp add: r2_def)
  define r3 where "r3 = drop (length ?g) r2"
  have 3: "sprintf_at (length ?t + length ?p) ?g ((?t @ ?p) @ CHR 0x00 # r2) = Inr (?q @ CHR 0x00 # r3, length ?g)"
    using sprintf_behind[of ?g "CHR 0x00 # r2" "?t @ ?p"] len r2 by (simp add: r3_def q(1))
  have r3: "length r3 = 255 - length ?q" using r2 by (simp add: r3_def q(1))
  let ?n = "MAXLINE - length ?q"
  define r4 where "r4 = drop (length (take (?n - 1) msg)) r3"
  have 4: "snprintf_at (length ?q) ?n msg (?q @ CHR 0x00 # r3) = Inr ((?q @ take (?n - 1) msg) @ CHR 0x00 # r4, length msg)"
    using store_behind[of "take (?n - 1) msg" "CHR 0x00 # r3" ?q] r3 q(2) by (simp add: snprintf_at_def r4_def MAXLINE_def)
  have "no_zero ?q" using tag by (simp add: log_prefix_def timestamp_text_def)
  moreover have "no_zero (take (?n - 1) msg)" using msg by (auto simp: no_zero_def dest: in_set_takeD)
  ultimately have 5: "read_text ((?q @ take (?n - 1) msg) @ CHR 0x00 # r4) = Inr (?q @ take (?n - 1) msg)"
    by (intro read_stored) simp
  have sums: "sz_add (length ?t) (length ?p) = length ?t + length ?p" "sz_add (length ?t + length ?p) (length ?g) = length ?q"
      "sz_sub MAXLINE (length ?q) = ?n"
    using len q(2) by (simp_all add: sz_add_small sz_sub_small q(1) MAXLINE_def)
  have "take (MAXLINE - 1) (?q @ msg) = ?q @ take (?n - 1) msg" using q(2) by (simp add: MAXLINE_def)
  then show ?thesis unfolding fill_line_def Let_def using 1 2 3 4 5 sums by simp
qed

section \<open>Properties\<close>

fun macro_tag :: "log_macro \<Rightarrow> string" where
  "macro_tag TRACE = ''[TRACE]''"
| "macro_tag DEBUG = ''[DEBUG]''"
| "macro_tag INFO = ''[INFO] ''"
| "macro_tag WARN = ''[WARN] ''"
| "macro_tag ERROR = ''[ERROR]''"
| "macro_tag FATAL = ''[FATAL]''"
| "macro_tag SYSERR = ''[SYSER]''"
| "macro_tag SYSFATAL = ''[SYSFA]''"

text \<open>The lowest priority that is switched off; the last four macros cannot be switched off.\<close>

fun macro_on :: "log_macro \<Rightarrow> int \<Rightarrow> bool" where
  "macro_on TRACE l = (l \<le> 0)"
| "macro_on DEBUG l = (l \<le> 1)"
| "macro_on INFO l = (l \<le> 2)"
| "macro_on WARN l = (l \<le> 3)"
| "macro_on _ l = True"

definition macro_sys :: "log_macro \<Rightarrow> bool" where
  "macro_sys m \<longleftrightarrow> m = SYSERR \<or> m = SYSFATAL"

definition macro_fatal :: "log_macro \<Rightarrow> bool" where
  "macro_fatal m \<longleftrightarrow> m = FATAL \<or> m = SYSFATAL"

definition base_name :: "string \<Rightarrow> string" where
  "base_name file = rev (takeWhile (\<lambda>c. c \<noteq> CHR ''/'') (rev file))"

text \<open>The line: prefix and message cut to 255 characters, the error for the \<open>SYS\<close> macros, the place.\<close>

definition log_line :: "log_macro \<Rightarrow> log_env \<Rightarrow> string \<Rightarrow> int \<Rightarrow> string \<Rightarrow> string" where
  "log_line m env file line msg =
     take 255 (log_prefix env (macro_tag m) @ msg) @ (if macro_sys m then '': '' @ env_strerror env else []) @
     '' - '' @ base_name file @ '':'' @ to_string line @ [CHR 0x0A]"

definition log_writes :: "log_macro \<Rightarrow> log_env \<Rightarrow> string \<Rightarrow> int \<Rightarrow> string \<Rightarrow> int \<Rightarrow> (int \<times> string) list" where
  "log_writes m env file line msg out =
     (if env_write_ok env then [(out, log_line m env file line msg)]
      else if macro_sys m then [] else [(STDERR_FILENO, ''log failed'')])"

definition logger_ok :: "logger \<Rightarrow> bool" where
  "logger_ok s \<longleftrightarrow> logLevel s \<in> {LOG_LEVEL_TRACE..LOG_LEVEL_FATAL} \<and> 0 < log_fd s"

definition log_legal :: "log_call \<Rightarrow> logger \<Rightarrow> bool" where
  "log_legal c s \<longleftrightarrow> \<not> log_aborted s \<and>
     (case c of Log m env file line msg \<Rightarrow> legal_env env \<and> CHR ''/'' \<in> set file \<and> no_zero msg | _ \<Rightarrow> True)"

lemma macro_tag_ok: "length (macro_tag m) = 7" "no_zero (macro_tag m)"
  by (cases m; simp)+

lemma run_macro_ok:
  assumes e: "legal_env env" and f: "CHR ''/'' \<in> set file" and msg: "no_zero msg"
  shows "run_macro m env file line msg s =
    Inr (if macro_on m (logLevel s)
         then s\<lparr>log_out := log_out s @ log_writes m env file line msg (log_fd s), log_aborted := macro_fatal m\<rparr> else s)"
proof -
  have "fill_line env (macro_tag m) msg = Inr (take 255 (log_prefix env (macro_tag m) @ msg))" for m
    using fill_line_ok[OF e macro_tag_ok msg] by (simp add: MAXLINE_def)
  note fill = this[of TRACE] this[of DEBUG] this[of INFO] this[of WARN] this[of ERROR] this[of FATAL] this[of SYSERR] this[of SYSFATAL]
  note fill = fill[unfolded macro_tag.simps]
  have name: "after_slash file = Inr (base_name file)" using f by (simp add: after_slash_def base_name_def)
  show ?thesis
    by (cases m)
      (simp_all add: run_macro_def log_base_def log_sys_def log_levels log_level_str_def nth_Cons' fill name log_writes_def log_line_def macro_sys_def macro_fatal_def)
qed

text \<open>
  C37: A log line never leaves its buffer. For every time the system can report (years up to the range of \<open>int\<close> included),
  process id, message and contents of the stack, each macro returns: it writes nothing when its level is switched off, and
  otherwise one line to the descriptor, the prefix of at most 54 characters and the message, together cut to the
  255 characters that fit into the buffer, so that a message of up to 201 characters is never cut; only \<open>FATAL\<close> and
  \<open>SYSFATAL\<close> abort, after they have written.
\<close>

theorem log_line_bounded:
  assumes "legal_env env" and "CHR ''/'' \<in> set file" and "no_zero msg"
  shows "run_macro m env file line msg s =
      Inr (if macro_on m (logLevel s)
           then s\<lparr>log_out := log_out s @ log_writes m env file line msg (log_fd s), log_aborted := macro_fatal m\<rparr> else s) \<and>
    length (log_prefix env (macro_tag m)) \<le> 54 \<and>
    (length msg \<le> 201 \<longrightarrow> take 255 (log_prefix env (macro_tag m) @ msg) = log_prefix env (macro_tag m) @ msg)"
  using run_macro_ok[OF assms] log_prefix_length[OF assms(1) macro_tag_ok(1)[of m]] by simp

definition demo_env :: log_env where
  "demo_env = \<lparr>tm_year = 117, tm_mon = 8, tm_mday = 17, tm_hour = 9, tm_min = 5, tm_sec = 0, tv_usec = 42, env_pid = 4711,
     env_stack = replicate 256 (CHR ''x''), env_write_ok = True, env_strerror = ''Bad file descriptor''\<rparr>"

lemma demo_env_ok: "legal_env demo_env"
  by (simp add: legal_env_def demo_env_def fits_int_def MAXLINE_def)

lemma log_line_bounded_witness:
  "run_macro INFO demo_env ''src/a.cc'' 7 ''hello'' logger_init =
     Inr (logger_init\<lparr>log_out := [(1, ''20170917 09:05:00.000042 [4711] [INFO]  hello - a.cc:7'' @ [CHR 0x0A])]\<rparr>)"
proof -
  have zeros: "replicate 4 (CHR ''0'') = ''0000''" by (simp add: numeral_eq_Suc)
  have "log_line INFO demo_env ''src/a.cc'' 7 ''hello'' = ''20170917 09:05:00.000042 [4711] [INFO]  hello - a.cc:7'' @ [CHR 0x0A]"
    by (simp add: log_line_def log_prefix_def timestamp_text_def demo_env_def pad_space_def pad_zero_def to_string_def dec_small dec_big
      digit_chars digit_chars(2)[simplified] Let_def base_name_def macro_sys_def zeros)
  then show ?thesis
    using log_line_bounded[OF demo_env_ok, of "''src/a.cc''" "''hello''" INFO 7 logger_init]
    by (simp add: logger_init_def log_levels log_writes_def demo_env_def macro_fatal_def STDOUT_FILENO_def)
qed

definition logger_rel :: "logger \<Rightarrow> logger \<Rightarrow> bool" where
  "logger_rel s s' \<longleftrightarrow> prefix (log_out s) (log_out s')"

lemma setLogLevel_ok: "setLogLevel l s = s\<lparr>logLevel := min 5 (max 0 l)\<rparr>"
  by (auto simp: setLogLevel_def log_levels Let_def)

interpretation log_run: total_steps log_step log_legal logger_ok logger_rel
proof unfold_locales
  show "\<exists>s'. log_step c s = Inr s' \<and> logger_ok s' \<and> logger_rel s s'" if "logger_ok s" "log_legal c s" for s c
    using that run_macro_ok
    by (cases c) (auto simp: log_step_def logger_ok_def logger_rel_def log_legal_def setLogLevel_ok setLogFd_def log_levels STDOUT_FILENO_def)
qed (auto simp: logger_rel_def)



text \<open>A source file whose name is given to the compiler without a directory makes every message dereference a null pointer.\<close>

theorem log_needs_slash:
  assumes "legal_env env" "no_zero msg" and "CHR ''/'' \<notin> set file"
  shows "run_macro ERROR env file line msg s = Inl Null_Pointer"
  using fill_line_ok[OF assms(1) macro_tag_ok assms(2), of ERROR] assms(3)
  by (simp add: run_macro_def log_base_def log_levels log_level_str_def nth_Cons' after_slash_def)

end
