(* ===== verification/Ev_LoopThread.thy ===== *)
theory Ev_LoopThread
  imports Ev_Prelude
begin

text \<open>
  The thread a loop belongs to (\<^verbatim>\<open>tinyev/EventLoop.cc\<close>): the constructor keeps the thread's id and sets the thread's
  \<open>t_Eventloop\<close>, the destructor clears it, and \<open>assertInLoopThread\<close>, with which the other operations begin, compares ids. Loops are
  known by their address, threads by their id; any thread may call anything at any time.
\<close>

section \<open>Operations\<close>

record owners =
  t_Eventloop :: "nat \<rightharpoonup> nat"
  tid_of :: "nat \<rightharpoonup> nat"

definition owners_new :: owners where
  "owners_new = \<lparr>t_Eventloop = Map.empty, tid_of = Map.empty\<rparr>"

definition eventloop_construct :: "nat \<Rightarrow> nat \<Rightarrow> owners \<Rightarrow> error + owners" where
  "eventloop_construct t l s =
     (let s1 = s\<lparr>tid_of := (tid_of s)(l \<mapsto> t)\<rparr> in
      bindE (assertE (t_Eventloop s1 t = None)) (\<lambda>_. Inr (s1\<lparr>t_Eventloop := (t_Eventloop s1)(t \<mapsto> l)\<rparr>)))"

definition eventloop_destroy :: "nat \<Rightarrow> nat \<Rightarrow> owners \<Rightarrow> error + owners" where
  "eventloop_destroy t l s =
     bindE (assertE (t_Eventloop s t = Some l)) (\<lambda>_.
     Inr (s\<lparr>t_Eventloop := (t_Eventloop s)(t := None), tid_of := (tid_of s)(l := None)\<rparr>))"

text \<open>A loop that is gone has no id to compare with.\<close>

definition isInLoopThread :: "nat \<Rightarrow> nat \<Rightarrow> owners \<Rightarrow> error + bool" where
  "isInLoopThread t l s = (case tid_of s l of None \<Rightarrow> Inl Use_After_Free | Some u \<Rightarrow> Inr (u = t))"

definition assertInLoopThread :: "nat \<Rightarrow> nat \<Rightarrow> owners \<Rightarrow> error + unit" where
  "assertInLoopThread t l s = bindE (isInLoopThread t l s) assertE"

definition assertNotInLoopThread :: "nat \<Rightarrow> nat \<Rightarrow> owners \<Rightarrow> error + unit" where
  "assertNotInLoopThread t l s = bindE (isInLoopThread t l s) (\<lambda>b. assertE (\<not> b))"

section \<open>Runs\<close>

datatype owner_step = Build nat nat | Destroy nat nat

fun owner_exec :: "owner_step \<Rightarrow> owners \<Rightarrow> error + owners" where
  "owner_exec (Build t l) s = eventloop_construct t l s"
| "owner_exec (Destroy t l) s = eventloop_destroy t l s"

text \<open>A new object is put where no live one is.\<close>

fun owner_legal :: "owner_step \<Rightarrow> owners \<Rightarrow> bool" where
  "owner_legal (Build t l) s = (tid_of s l = None)"
| "owner_legal (Destroy t l) s = True"

definition owner_inv :: "owners \<Rightarrow> bool" where
  "owner_inv s \<longleftrightarrow> (\<forall>t l. t_Eventloop s t = Some l \<longleftrightarrow> tid_of s l = Some t)"

lemma owner_exec_inv:
  assumes inv: "owner_inv s" and leg: "owner_legal x s" and st: "owner_exec x s = Inr s'"
  shows "owner_inv s'"
proof (cases x)
  case (Build t l)
  then have s': "s' = s\<lparr>tid_of := (tid_of s)(l \<mapsto> t), t_Eventloop := (t_Eventloop s)(t \<mapsto> l)\<rparr>" "t_Eventloop s t = None"
    using st by (auto simp: eventloop_construct_def assertE_def Let_def split: if_splits)
  moreover have "tid_of s m \<noteq> Some t" for m using inv s'(2) unfolding owner_inv_def by (metis option.distinct(1))
  ultimately show ?thesis using inv leg Build by (auto simp: owner_inv_def)
next
  case (Destroy t l)
  then have s': "s' = s\<lparr>t_Eventloop := (t_Eventloop s)(t := None), tid_of := (tid_of s)(l := None)\<rparr>" "t_Eventloop s t = Some l"
    using st by (auto simp: eventloop_destroy_def assertE_def split: if_splits)
  moreover have "tid_of s m \<noteq> Some t" if "m \<noteq> l" for m using inv s'(2) that unfolding owner_inv_def by (metis option.inject)
  ultimately show ?thesis using inv by (auto simp: owner_inv_def)
qed

text \<open>
  One loop per thread. After any run that did not fail, a thread has at most one loop and a loop one thread; a thread can
  build a loop exactly when it has none; only the thread that built a loop can destroy it; and \<open>assertInLoopThread\<close> lets
  exactly that thread pass, \<open>assertNotInLoopThread\<close> exactly the others.
\<close>

theorem one_loop_per_thread:
  assumes "legal_fold owner_legal owner_exec xs owners_new" and "foldE owner_exec xs owners_new = Inr s"
  shows "(\<forall>t l. t_Eventloop s t = Some l \<longleftrightarrow> tid_of s l = Some t) \<and>
    (\<forall>t l. tid_of s l = None \<longrightarrow> ((\<exists>s'. eventloop_construct t l s = Inr s') \<longleftrightarrow> (\<forall>m. tid_of s m \<noteq> Some t))) \<and>
    (\<forall>t l. (\<exists>s'. eventloop_destroy t l s = Inr s') \<longleftrightarrow> tid_of s l = Some t) \<and>
    (\<forall>t l. assertInLoopThread t l s = Inr () \<longleftrightarrow> tid_of s l = Some t) \<and>
    (\<forall>t l. tid_of s l \<noteq> None \<longrightarrow> (assertNotInLoopThread t l s = Inr () \<longleftrightarrow> tid_of s l \<noteq> Some t))"
proof -
  have "owner_inv s \<Longrightarrow> legal_fold owner_legal owner_exec xs s \<Longrightarrow> foldE owner_exec xs s = Inr s' \<Longrightarrow> owner_inv s'" for s s'
  proof (induction xs arbitrary: s)
    case (Cons x xs)
    then show ?case using owner_exec_inv[OF Cons.prems(1), of x] by (auto simp: bindE_eq_Inr)
  qed simp
  moreover have "owner_inv owners_new" by (simp add: owner_inv_def owners_new_def)
  ultimately have inv: "t_Eventloop s t = Some l \<longleftrightarrow> tid_of s l = Some t" for t l
    using assms unfolding owner_inv_def by blast
  then have "t_Eventloop s t = None \<longleftrightarrow> (\<forall>m. tid_of s m \<noteq> Some t)" for t by (metis option.exhaust option.distinct(1))
  then show ?thesis
    by (auto simp: inv eventloop_construct_def eventloop_destroy_def assertInLoopThread_def assertNotInLoopThread_def
        isInLoopThread_def assertE_def Let_def split: option.splits)
qed

lemma one_loop_per_thread_witness:
  "\<exists>s. foldE owner_exec [Build 1 16, Build 2 32, Destroy 1 16, Build 1 48] owners_new = Inr s \<and>
    (\<exists>s'. eventloop_destroy 1 48 s = Inr s') \<and> \<not> (\<exists>s'. eventloop_destroy 2 48 s = Inr s') \<and>
    assertInLoopThread 2 32 s = Inr () \<and> assertInLoopThread 1 32 s \<noteq> Inr ()"
proof -
  let ?xs = "[Build 1 16, Build 2 32, Destroy 1 16, Build 1 48]"
  obtain s where s: "legal_fold owner_legal owner_exec ?xs owners_new" "foldE owner_exec ?xs owners_new = Inr s"
      "tid_of s 48 = Some 1" "tid_of s 32 = Some 2"
    by (simp add: owners_new_def eventloop_construct_def eventloop_destroy_def)
  have "(\<exists>s'. eventloop_destroy t 48 s = Inr s') \<longleftrightarrow> tid_of s 48 = Some t" "assertInLoopThread t 32 s = Inr () \<longleftrightarrow> tid_of s 32 = Some t" for t
    using one_loop_per_thread[OF s(1,2)] by blast+
  then show ?thesis using s(2-4) by (intro exI[of _ s]) simp
qed

end
