(* ===== verification/Ev_KthThreads.thy ===== *)
theory Ev_KthThreads
  imports Ev_KthServer Ev_EventLoop
begin

text \<open>
  The worker threads of \<^verbatim>\<open>example/kth_element/KthServer.cc\<close>: \<open>startWorkerThreads\<close> starts one loop per
  thread, and \<open>runInThreads\<close> queues one task in every loop and waits on a \<^verbatim>\<open>tinyev/CountDownLatch.h\<close> that
  the tasks count down. The loops are those of \<^verbatim>\<open>Ev_EventLoop\<close>, with their eventfd; the thread that posts and all
  the loops interleave. What a task does is a parameter: its first stage, one step of a stage on the shared data and the test for its end.
  It is used twice, to sort the vectors in the constructor and to answer a query.
\<close>

section \<open>State\<close>

text \<open>A thread with its loop; \<open>wk_body\<close> is the task it is inside, \<open>wk_ran\<close> counts the tasks it has finished in this round.\<close>

record 'p wthread =
  wk_loop :: evloop
  wk_body :: "'p option"
  wk_ran :: nat

text \<open>The posting thread: about to queue in loop \<open>i\<close>, between the push and the eventfd, at the test of the latch, asleep
  in its condition variable, back.\<close>

datatype rstage = R_Post nat | R_Wake nat | R_Wait | R_Asleep | R_Return

record ('p, 'g) crew =
  cr_main :: rstage
  cr_latch :: int
  cr_shared :: 'g
  cr_workers :: "'p wthread list"

definition startWorkerThreads :: "nat \<Rightarrow> 'p wthread list" where
  "startWorkerThreads n = replicate n \<lparr>wk_loop = loop_new, wk_body = None, wk_ran = 0\<rparr>"

definition runInThreads :: "'g \<Rightarrow> 'p wthread list \<Rightarrow> ('p, 'g) crew" where
  "runInThreads g ws =
     \<lparr>cr_main = R_Post 0, cr_latch = int (length ws), cr_shared = g, cr_workers = map (\<lambda>w. w\<lparr>wk_ran := 0\<rparr>) ws\<rparr>"

section \<open>Steps\<close>

definition upd_worker :: "nat \<Rightarrow> 'p wthread \<Rightarrow> ('p, 'g) crew \<Rightarrow> ('p, 'g) crew" where
  "upd_worker i w c = c\<lparr>cr_workers := (cr_workers c)[i := w]\<rparr>"

text \<open>The push of \<open>queueInLoop\<close>, made by a thread that is no worker, and the write to the eventfd after it.\<close>

definition post_task :: "nat \<Rightarrow> ('p, 'g) crew \<Rightarrow> ('p, 'g) crew" where
  "post_task i c =
     (let w = cr_workers c ! i; l = wk_loop w in
      (upd_worker i (w\<lparr>wk_loop := (push_task (Task i []) l)\<lparr>inflight := inflight l + 1\<rparr>\<rparr>) c)\<lparr>cr_main := R_Wake i\<rparr>)"

definition wake_wthread :: "nat \<Rightarrow> ('p, 'g) crew \<Rightarrow> ('p, 'g) crew" where
  "wake_wthread i c =
     (let w = cr_workers c ! i; l = wk_loop w in
      (upd_worker i (w\<lparr>wk_loop := (queue_wake False l)\<lparr>inflight := inflight l - 1\<rparr>\<rparr>) c)\<lparr>cr_main := R_Post (Suc i)\<rparr>)"

text \<open>\<open>latch.wait()\<close>: one test, under the mutex, and the sleep it may lead to.\<close>

definition latch_wait :: "('p, 'g) crew \<Rightarrow> ('p, 'g) crew" where
  "latch_wait c = c\<lparr>cr_main := (if latch_open (cr_latch c) then R_Return else R_Asleep)\<rparr>"

text \<open>A step of the loop's own code; when it takes a task out, the thread is inside the task next.\<close>

definition run_loop :: "'p \<Rightarrow> evloop \<Rightarrow> 'p wthread \<Rightarrow> 'p wthread" where
  "run_loop ini l w = w\<lparr>wk_loop := l, wk_body := (if started l \<noteq> started (wk_loop w) then Some ini else None)\<rparr>"

text \<open>The end of a task: \<open>latch.count()\<close>, which wakes the waiting thread at zero.\<close>

definition finish_task :: "nat \<Rightarrow> ('p, 'g) crew \<Rightarrow> ('p, 'g) crew" where
  "finish_task i c =
     (let w = cr_workers c ! i; k = latch_count (cr_latch c) in
      (upd_worker i (w\<lparr>wk_body := None, wk_ran := wk_ran w + 1\<rparr>) c)
        \<lparr>cr_latch := k, cr_main := (if latch_open k \<and> cr_main c = R_Asleep then R_Wait else cr_main c)\<rparr>)"

definition body_step :: "(nat \<Rightarrow> 'p \<Rightarrow> 'g \<Rightarrow> 'p \<times> 'g) \<Rightarrow> nat \<Rightarrow> 'p \<Rightarrow> ('p, 'g) crew \<Rightarrow> ('p, 'g) crew" where
  "body_step job i p c =
     (let (p', g) = job i p (cr_shared c) in
      (upd_worker i ((cr_workers c ! i)\<lparr>wk_body := Some p'\<rparr>) c)\<lparr>cr_shared := g\<rparr>)"

text \<open>A worker's loop has no channels but its own, so that \<open>epoll_wait\<close> returns only for the eventfd.\<close>

inductive crew_step :: "'p \<Rightarrow> (nat \<Rightarrow> 'p \<Rightarrow> 'g \<Rightarrow> 'p \<times> 'g) \<Rightarrow> ('p \<Rightarrow> bool) \<Rightarrow> ('p, 'g) crew \<Rightarrow> ('p, 'g) crew \<Rightarrow> bool"
  for ini job over where
  post: "cr_main c = R_Post i \<Longrightarrow> i < length (cr_workers c) \<Longrightarrow> crew_step ini job over c (post_task i c)"
| wake: "cr_main c = R_Wake i \<Longrightarrow> crew_step ini job over c (wake_wthread i c)"
| posted: "cr_main c = R_Post i \<Longrightarrow> length (cr_workers c) \<le> i \<Longrightarrow> crew_step ini job over c (c\<lparr>cr_main := R_Wait\<rparr>)"
| wait: "cr_main c = R_Wait \<Longrightarrow> crew_step ini job over c (latch_wait c)"
| enter: "i < length (cr_workers c) \<Longrightarrow> w = cr_workers c ! i \<Longrightarrow> phase (wk_loop w) = Before \<Longrightarrow>
    crew_step ini job over c (upd_worker i (w\<lparr>wk_loop := loop_start (wk_loop w)\<rparr>) c)"
| poll: "i < length (cr_workers c) \<Longrightarrow> w = cr_workers c ! i \<Longrightarrow> phase (wk_loop w) = Polling \<Longrightarrow> 0 < wakeups (wk_loop w) \<Longrightarrow>
    crew_step ini job over c (upd_worker i (w\<lparr>wk_loop := loop_poll [] [] (wk_loop w)\<rparr>) c)"
| run: "i < length (cr_workers c) \<Longrightarrow> w = cr_workers c ! i \<Longrightarrow> wk_body w = None \<Longrightarrow> in_loop (wk_loop w) \<Longrightarrow>
    loop_step (wk_loop w) = Inr l \<Longrightarrow> crew_step ini job over c (upd_worker i (run_loop ini l w) c)"
| body: "i < length (cr_workers c) \<Longrightarrow> wk_body (cr_workers c ! i) = Some p \<Longrightarrow> \<not> over p \<Longrightarrow>
    crew_step ini job over c (body_step job i p c)"
| finish: "i < length (cr_workers c) \<Longrightarrow> wk_body (cr_workers c ! i) = Some p \<Longrightarrow> over p \<Longrightarrow>
    crew_step ini job over c (finish_task i c)"

text \<open>A condition variable may also wake its waiter for no reason.\<close>

inductive crew_reach :: "'p \<Rightarrow> (nat \<Rightarrow> 'p \<Rightarrow> 'g \<Rightarrow> 'p \<times> 'g) \<Rightarrow> ('p \<Rightarrow> bool) \<Rightarrow> ('p, 'g) crew \<Rightarrow> ('p, 'g) crew \<Rightarrow> bool"
  for ini job over c0 where
  start: "crew_reach ini job over c0 c0"
| step: "crew_reach ini job over c0 c \<Longrightarrow> crew_step ini job over c c' \<Longrightarrow> crew_reach ini job over c0 c'"
| spurious: "crew_reach ini job over c0 c \<Longrightarrow> cr_main c = R_Asleep \<Longrightarrow> crew_reach ini job over c0 (c\<lparr>cr_main := R_Wait\<rparr>)"

section \<open>A worker's loop\<close>

text \<open>Tasks that make no call of the loop, the loops that hold only such tasks, and what is waiting in one.\<close>

definition bare :: "ltask \<Rightarrow> bool" where
  "bare t \<longleftrightarrow> task_acts t = []"

definition plain :: "evloop \<Rightarrow> bool" where
  "plain l \<longleftrightarrow> loop_inv l \<and> \<not> quit l \<and> \<not> early l \<and> list_all bare (pendingTasks l) \<and>
     (case phase l of
        Handling hs \<Rightarrow> hs = [] \<or> hs = [H_ReadWakeup] \<and> 0 < wakeups l
      | Doing as ts \<Rightarrow> as = [] \<and> list_all bare ts
      | Stopped \<Rightarrow> False
      | _ \<Rightarrow> True)"

definition waiting_tasks :: "evloop \<Rightarrow> nat" where
  "waiting_tasks l = length (batch (phase l)) + length (pendingTasks l)"

fun phase_rank :: "phase \<Rightarrow> nat" where
  "phase_rank (Handling []) = 14"
| "phase_rank (Doing as ts) = 13"
| "phase_rank Before = 12"
| "phase_rank Check = 11"
| "phase_rank Polling = 10"
| "phase_rank (Handling (h # hs)) = 9"
| "phase_rank Stopped = 0"

definition loop_left :: "evloop \<Rightarrow> nat" where
  "loop_left l = (if 0 < wakeups l then 20 else 0) + phase_rank (phase l)"

text \<open>One step of the loop's own code: it comes nearer to its sleep, or takes one task out.\<close>

definition loop_advance :: "evloop \<Rightarrow> evloop \<Rightarrow> bool" where
  "loop_advance l l' \<longleftrightarrow> plain l' \<and> inflight l' = inflight l \<and>
     (started l' = started l \<and> waiting_tasks l' = waiting_tasks l \<and> loop_left l' < loop_left l \<or>
      started l' \<noteq> started l \<and> waiting_tasks l = Suc (waiting_tasks l') \<and> loop_left l' = loop_left l \<and> is_doing (phase l'))"

lemma plain_step:
  assumes l: "plain l" and i: "in_loop l"
  shows "\<exists>l'. loop_step l = Inr l'" "loop_step l = Inr l' \<Longrightarrow> loop_advance l l'"
proof -
  show "\<exists>l'. loop_step l = Inr l'"
    using assms by (cases "phase l") (auto simp: plain_def in_loop_def loop_step_def split: list.split)
  assume st: "loop_step l = Inr l'"
  have "loop_inv l'" using loop_step_inv[OF _ st] l by (simp add: plain_def)
  then show "loop_advance l l'"
    using assms st
    by (cases "phase l")
       (auto simp: plain_def in_loop_def loop_step_def loop_advance_def waiting_tasks_def loop_left_def bare_def
          loop_handleRead_def tasks_begin_def tasks_end_def split: list.splits)
qed

lemma plain_moves:
  assumes "plain l"
  shows "phase l = Before \<Longrightarrow> loop_advance l (loop_start l)"
    and "phase l = Polling \<Longrightarrow> 0 < wakeups l \<Longrightarrow> loop_advance l (loop_poll [] [] l)"
proof -
  assume b: "phase l = Before"
  have "loop_inv (loop_start l)" using loop_thread_inv[OF loop_thread.start[OF b]] assms by (simp add: plain_def)
  then show "loop_advance l (loop_start l)"
    using assms b by (simp add: plain_def loop_advance_def loop_start_def waiting_tasks_def loop_left_def)
next
  assume p: "phase l = Polling" and w: "0 < wakeups l"
  have "loop_inv (loop_poll [] [] l)" using loop_thread_inv[OF loop_thread.poll[OF p, of "[]" "[]"]] w assms by (simp add: plain_def)
  then show "loop_advance l (loop_poll [] [] l)"
    using assms p w by (simp add: plain_def loop_advance_def loop_poll_def waiting_tasks_def loop_left_def)
qed

text \<open>A push, and the write to the eventfd that follows it.\<close>

lemma plain_outside:
  assumes l: "plain l"
  shows "plain ((push_task (Task i []) l)\<lparr>inflight := inflight l + 1\<rparr>)"
    and "0 < inflight l \<Longrightarrow> plain ((queue_wake False l)\<lparr>inflight := inflight l - 1\<rparr>)"
proof -
  have "loop_inv ((push_task (Task i []) l)\<lparr>inflight := inflight l + 1\<rparr>)"
    using other_thread_inv[OF other_thread.push] l by (simp add: plain_def)
  then show "plain ((push_task (Task i []) l)\<lparr>inflight := inflight l + 1\<rparr>)"
    using l by (simp add: plain_def push_task_def bare_def split: phase.splits)
  assume "0 < inflight l"
  then have "loop_inv ((queue_wake False l)\<lparr>inflight := inflight l - 1\<rparr>)"
    using other_thread_inv[OF other_thread.wake] l by (simp add: plain_def)
  moreover have "0 < wakeups (wakeup l)" by (simp add: wakeup_def)
  ultimately show "plain ((queue_wake False l)\<lparr>inflight := inflight l - 1\<rparr>)"
    using l by (auto simp: plain_def queue_wake_def split: phase.splits)
qed

text \<open>A loop with a task waiting can move, unless a write to its eventfd is on the way.\<close>

lemma plain_can_move:
  assumes "plain l" and "0 < waiting_tasks l" and "inflight l = 0"
  shows "phase l = Before \<or> phase l = Polling \<and> 0 < wakeups l \<or> in_loop l"
  using assms by (cases "phase l") (auto simp: plain_def waiting_tasks_def in_loop_def loop_inv_def awake_def)

section \<open>Invariant\<close>

text \<open>What the posting thread has pushed, what it owes to an eventfd, and what it has left to do when the latch is open or not.\<close>

fun posted_to :: "rstage \<Rightarrow> nat \<Rightarrow> bool" where
  "posted_to (R_Post k) i = (i < k)"
| "posted_to (R_Wake k) i = (i \<le> k)"
| "posted_to m i = True"

fun owing :: "rstage \<Rightarrow> nat \<Rightarrow> nat" where
  "owing (R_Wake k) i = (if i = k then 1 else 0)"
| "owing m i = 0"

fun main_left :: "nat \<Rightarrow> nat \<Rightarrow> bool \<Rightarrow> rstage \<Rightarrow> nat" where
  "main_left b n up (R_Post k) = 4 + (n - k) * (b + 24)"
| "main_left b n up (R_Wake k) = 25 + (n - Suc k) * (b + 24)"
| "main_left b n up R_Wait = (if up then 1 else 3)"
| "main_left b n up R_Asleep = 2"
| "main_left b n up R_Return = 0"

fun main_fits :: "nat \<Rightarrow> bool \<Rightarrow> rstage \<Rightarrow> bool" where
  "main_fits n up (R_Post k) = (k \<le> n)"
| "main_fits n up (R_Wake k) = (k < n)"
| "main_fits n up R_Wait = True"
| "main_fits n up R_Asleep = (\<not> up)"
| "main_fits n up R_Return = up"

text \<open>The task of a worker is waiting, running or finished, and only when it has been posted.\<close>

definition worker_ok :: "bool \<Rightarrow> nat \<Rightarrow> 'p wthread \<Rightarrow> bool" where
  "worker_ok up k w \<longleftrightarrow>
     plain (wk_loop w) \<and> (wk_body w \<noteq> None \<longrightarrow> is_doing (phase (wk_loop w))) \<and> inflight (wk_loop w) = k \<and>
     waiting_tasks (wk_loop w) + (if wk_body w = None then 0 else 1) + wk_ran w = (if up then 1 else 0)"

definition crew_inv :: "nat \<Rightarrow> ('p, 'g) crew \<Rightarrow> bool" where
  "crew_inv n c \<longleftrightarrow>
     length (cr_workers c) = n \<and> main_fits n (latch_open (cr_latch c)) (cr_main c) \<and>
     (\<forall>i<n. worker_ok (posted_to (cr_main c) i) (owing (cr_main c) i) (cr_workers c ! i)) \<and>
     cr_latch c = int n - int (sum_list (map wk_ran (cr_workers c)))"

text \<open>Between rounds a worker's loop has nothing to do.\<close>

definition wk_idle :: "'p wthread \<Rightarrow> bool" where
  "wk_idle w \<longleftrightarrow> plain (wk_loop w) \<and> wk_body w = None \<and> inflight (wk_loop w) = 0 \<and> waiting_tasks (wk_loop w) = 0"

lemma threads_idle: "w \<in> set (startWorkerThreads n) \<Longrightarrow> wk_idle w"
  by (auto simp: startWorkerThreads_def wk_idle_def plain_def loop_inv_def loop_new_def waiting_tasks_def)

lemma crew_invD:
  assumes "crew_inv n c"
  shows "length (cr_workers c) = n" "main_fits n (latch_open (cr_latch c)) (cr_main c)"
    "i < n \<Longrightarrow> worker_ok (posted_to (cr_main c) i) (owing (cr_main c) i) (cr_workers c ! i)"
  using assms unfolding crew_inv_def by blast+

lemma crew_inv_start: "list_all wk_idle ws \<Longrightarrow> crew_inv (length ws) (runInThreads g ws)"
  by (auto simp: runInThreads_def crew_inv_def worker_ok_def wk_idle_def list_all_length comp_def)

lemma sum_list_update_nat:
  fixes f :: "'a \<Rightarrow> nat"
  shows "i < length xs \<Longrightarrow> sum_list (map f (xs[i := y])) + f (xs ! i) = sum_list (map f xs) + f y"
proof (induction xs arbitrary: i)
  case (Cons x xs)
  then show ?case by (cases i) (simp_all add: add.assoc)
qed simp

text \<open>A step that changes one worker, and perhaps the posting thread and the latch.\<close>

lemma crew_inv_update:
  assumes inv: "crew_inv n c" and i: "i < n"
    and w: "worker_ok (posted_to m i) (owing m i) w"
    and other: "\<And>j. j \<noteq> i \<Longrightarrow> posted_to m j = posted_to (cr_main c) j \<and> owing m j = owing (cr_main c) j"
    and fits: "main_fits n (latch_open k) m" and k: "k + int (wk_ran w) = cr_latch c + int (wk_ran (cr_workers c ! i))"
  shows "crew_inv n (c\<lparr>cr_main := m, cr_latch := k, cr_workers := (cr_workers c)[i := w], cr_shared := g\<rparr>)"
proof -
  have "i < length (cr_workers c)" using inv i by (simp add: crew_inv_def)
  from sum_list_update_nat[OF this, of wk_ran w] show ?thesis
    using assms by (auto simp: crew_inv_def nth_list_update)
qed

lemma worker_ran: "worker_ok up k w \<Longrightarrow> wk_ran w \<le> 1"
  by (auto simp: worker_ok_def split: if_splits)

lemma crew_latch: "crew_inv n c \<Longrightarrow> i < n \<Longrightarrow> wk_ran (cr_workers c ! i) = 0 \<Longrightarrow> 0 < cr_latch c"
proof -
  assume c: "crew_inv n c" "i < n" "wk_ran (cr_workers c ! i) = 0"
  let ?ws = "cr_workers c"
  have len: "length ?ws = n" and le: "\<forall>j<n. wk_ran (?ws ! j) \<le> 1"
    using c(1) worker_ran by (auto simp: crew_inv_def)
  have "sum_list (map wk_ran ?ws) = (\<Sum>j<n. wk_ran (?ws ! j))"
    by (simp add: sum_list_sum_nth atLeast0LessThan len)
  also have "\<dots> < (\<Sum>j<n. 1)" using le c(2,3) by (intro sum_strict_mono_ex1) auto
  finally show ?thesis using c(1) by (simp add: crew_inv_def)
qed

section \<open>Every step comes nearer to the end\<close>

definition worker_left :: "nat \<Rightarrow> ('p \<Rightarrow> nat) \<Rightarrow> 'p wthread \<Rightarrow> nat" where
  "worker_left b left w =
     loop_left (wk_loop w) + waiting_tasks (wk_loop w) * (b + 2) + (case wk_body w of None \<Rightarrow> 0 | Some p \<Rightarrow> left p + 1)"

definition crew_left :: "'p \<Rightarrow> ('p \<Rightarrow> nat) \<Rightarrow> ('p, 'g) crew \<Rightarrow> nat" where
  "crew_left ini left c =
     main_left (left ini) (length (cr_workers c)) (latch_open (cr_latch c)) (cr_main c) +
     sum_list (map (worker_left (left ini) left) (cr_workers c))"

lemma worker_post:
  assumes "worker_ok False 0 w"
  shows "worker_ok True 1 (w\<lparr>wk_loop := (push_task (Task i []) (wk_loop w))\<lparr>inflight := inflight (wk_loop w) + 1\<rparr>\<rparr>)"
    "worker_left b left (w\<lparr>wk_loop := (push_task (Task i []) (wk_loop w))\<lparr>inflight := inflight (wk_loop w) + 1\<rparr>\<rparr>) =
       worker_left b left w + b + 2"
  using assms plain_outside(1)[of "wk_loop w" i]
  by (simp_all add: worker_ok_def worker_left_def waiting_tasks_def loop_left_def split: if_splits) (simp_all add: push_task_def)

lemma worker_wake:
  assumes "worker_ok True 1 w"
  shows "worker_ok True 0 (w\<lparr>wk_loop := (queue_wake False (wk_loop w))\<lparr>inflight := inflight (wk_loop w) - 1\<rparr>\<rparr>)"
    "worker_left b left (w\<lparr>wk_loop := (queue_wake False (wk_loop w))\<lparr>inflight := inflight (wk_loop w) - 1\<rparr>\<rparr>) \<le> worker_left b left w + 20"
  using assms plain_outside(2)[of "wk_loop w"]
  by (simp_all add: worker_ok_def worker_left_def waiting_tasks_def loop_left_def queue_wake_def)

lemma run_loop_same: "wk_body w = None \<Longrightarrow> started l = started (wk_loop w) \<Longrightarrow> run_loop ini l w = w\<lparr>wk_loop := l\<rparr>"
  by (cases w) (simp add: run_loop_def)

lemma worker_run:
  assumes "worker_ok up k w" and "wk_body w = None" and "loop_advance (wk_loop w) l"
  shows "worker_ok up k (run_loop ini l w)" "wk_ran (run_loop ini l w) = wk_ran w"
    "worker_left (left ini) left (run_loop ini l w) < worker_left (left ini) left w"
  using assms by (auto simp: worker_ok_def run_loop_def loop_advance_def worker_left_def split: if_splits)

lemma crew_update:
  assumes inv: "crew_inv n c" and i: "i < n"
    and w: "worker_ok (posted_to m i) (owing m i) w"
    and other: "\<And>j. j \<noteq> i \<Longrightarrow> posted_to m j = posted_to (cr_main c) j \<and> owing m j = owing (cr_main c) j"
    and fits: "main_fits n (latch_open k) m" and k: "k + int (wk_ran w) = cr_latch c + int (wk_ran (cr_workers c ! i))"
    and less: "main_left (left ini) n (latch_open k) m + worker_left (left ini) left w <
      main_left (left ini) n (latch_open (cr_latch c)) (cr_main c) + worker_left (left ini) left (cr_workers c ! i)"
    and c': "c' = c\<lparr>cr_main := m, cr_latch := k, cr_workers := (cr_workers c)[i := w], cr_shared := g\<rparr>"
  shows "crew_inv n c' \<and> crew_left ini left c' < crew_left ini left c"
proof -
  have len: "length (cr_workers c) = n" using inv by (simp add: crew_inv_def)
  then have "i < length (cr_workers c)" using i by simp
  from sum_list_update_nat[OF this, of "worker_left (left ini) left" w]
  have "crew_left ini left c' < crew_left ini left c"
    using less by (simp add: crew_left_def c' len)
  then show ?thesis using crew_inv_update[OF inv i w other fits k] by (simp add: c')
qed

locale crew_job =
  fixes ini :: 'p and job :: "nat \<Rightarrow> 'p \<Rightarrow> 'g \<Rightarrow> 'p \<times> 'g" and over :: "'p \<Rightarrow> bool" and left :: "'p \<Rightarrow> nat"
  assumes job_ends: "\<not> over p \<Longrightarrow> left (fst (job i p g)) < left p"
begin

lemma run_step:
  assumes inv: "crew_inv n c" and i: "i < n" and b: "wk_body (cr_workers c ! i) = None"
    and adv: "loop_advance (wk_loop (cr_workers c ! i)) l" and c': "c' = upd_worker i (run_loop ini l (cr_workers c ! i)) c"
  shows "crew_inv n c' \<and> crew_left ini left c' < crew_left ini left c"
proof -
  have ok: "worker_ok (posted_to (cr_main c) i) (owing (cr_main c) i) (cr_workers c ! i)" using inv i by (simp add: crew_inv_def)
  note r = worker_run[OF ok b adv]
  note crew_invD(2)[OF inv]
  moreover have "c' = c\<lparr>cr_main := cr_main c, cr_latch := cr_latch c,
      cr_workers := (cr_workers c)[i := run_loop ini l (cr_workers c ! i)], cr_shared := cr_shared c\<rparr>"
    by (simp add: c' upd_worker_def)
  ultimately show ?thesis using crew_update[OF inv i r(1), where k = "cr_latch c" and left = left and ini = ini and g = "cr_shared c"] r(2,3) by simp
qed

lemma step_ok:
  assumes inv: "crew_inv n c" and st: "crew_step ini job over c c'"
  shows "crew_inv n c' \<and> crew_left ini left c' < crew_left ini left c"
proof -
  note len = crew_invD(1)[OF inv] and fits = crew_invD(2)[OF inv] and ok = crew_invD(3)[OF inv]
  from st show ?thesis
  proof cases
    case (post i)
    have i: "i < n" using post len by simp
    define w where "w = (let w = cr_workers c ! i; l = wk_loop w in w\<lparr>wk_loop := (push_task (Task i []) l)\<lparr>inflight := inflight l + 1\<rparr>\<rparr>)"
    have "worker_ok False 0 (cr_workers c ! i)" using ok[OF i] post by simp
    then have w: "worker_ok True 1 w" "worker_left (left ini) left w = worker_left (left ini) left (cr_workers c ! i) + left ini + 2"
      "wk_ran w = wk_ran (cr_workers c ! i)"
      using worker_post(1)[of "cr_workers c ! i" i] worker_post(2)[of "cr_workers c ! i" "left ini" left i] by (simp_all add: w_def Let_def)
    have less: "main_left (left ini) n up (R_Wake i) + (left ini + 2) < main_left (left ini) n up (R_Post i)" for up
      using i Suc_diff_Suc[OF i] by (simp flip: Suc_diff_Suc)
    have "c' = c\<lparr>cr_main := R_Wake i, cr_latch := cr_latch c, cr_workers := (cr_workers c)[i := w], cr_shared := cr_shared c\<rparr>"
      using post by (simp add: post_task_def upd_worker_def w_def Let_def)
    then show ?thesis
      by (rule crew_update[OF inv i, rotated -1]) (use w less[of "latch_open (cr_latch c)"] i post(2) in auto)
  next
    case (wake i)
    have i: "i < n" using wake fits by simp
    define w where "w = (let w = cr_workers c ! i; l = wk_loop w in w\<lparr>wk_loop := (queue_wake False l)\<lparr>inflight := inflight l - 1\<rparr>\<rparr>)"
    have "worker_ok True 1 (cr_workers c ! i)" using ok[OF i] wake by simp
    then have w: "worker_ok True 0 w" "worker_left (left ini) left w \<le> worker_left (left ini) left (cr_workers c ! i) + 20"
      "wk_ran w = wk_ran (cr_workers c ! i)"
      using worker_wake(1)[of "cr_workers c ! i"] worker_wake(2)[of "cr_workers c ! i" "left ini" left] by (simp_all add: w_def Let_def)
    have less: "main_left (left ini) n up (R_Post (Suc i)) + 21 = main_left (left ini) n up (R_Wake i)" for up by simp
    have "c' = c\<lparr>cr_main := R_Post (Suc i), cr_latch := cr_latch c, cr_workers := (cr_workers c)[i := w], cr_shared := cr_shared c\<rparr>"
      using wake by (simp add: wake_wthread_def upd_worker_def w_def Let_def)
    then show ?thesis
      by (rule crew_update[OF inv i, rotated -1]) (use w less[of "latch_open (cr_latch c)"] i wake(2) in auto)
  next
    case (posted i)
    then show ?thesis using inv fits len by (auto simp: crew_inv_def crew_left_def)
  next
    case wait
    then show ?thesis using inv len by (auto simp: crew_inv_def crew_left_def latch_wait_def)
  next
    case (enter i w)
    have i: "i < n" using enter len by simp
    have adv: "loop_advance (wk_loop w) (loop_start (wk_loop w))" and b: "wk_body w = None"
      using ok[OF i] enter plain_moves(1) by (auto simp: worker_ok_def)
    have "c' = upd_worker i (run_loop ini (loop_start (wk_loop w)) w) c"
      using enter b by (simp add: run_loop_same loop_start_def)
    then show ?thesis using run_step[OF inv i] enter adv b by simp
  next
    case (poll i w)
    have i: "i < n" using poll len by simp
    have adv: "loop_advance (wk_loop w) (loop_poll [] [] (wk_loop w))" and b: "wk_body w = None"
      using ok[OF i] poll plain_moves(2) by (auto simp: worker_ok_def)
    have "c' = upd_worker i (run_loop ini (loop_poll [] [] (wk_loop w)) w) c"
      using poll b by (simp add: run_loop_same loop_poll_def)
    then show ?thesis using run_step[OF inv i] poll adv b by simp
  next
    case (run i w l)
    have i: "i < n" using run len by simp
    then have "loop_advance (wk_loop w) l" using ok[OF i] run plain_step(2) by (auto simp: worker_ok_def)
    then show ?thesis using run_step[OF inv i] run by simp
  next
    case (body i p)
    have i: "i < n" using body len by simp
    obtain p' g where j: "job i p (cr_shared c) = (p', g)" by (cases "job i p (cr_shared c)")
    then have "left p' < left p" using job_ends[OF body(4), of i "cr_shared c"] by simp
    then show ?thesis
      using crew_update[OF inv i, where m = "cr_main c" and w = "(cr_workers c ! i)\<lparr>wk_body := Some p'\<rparr>" and k = "cr_latch c" and left = left and ini = ini and g = g] ok[OF i] fits body j
      by (auto simp: body_step_def upd_worker_def worker_ok_def worker_left_def)
  next
    case (finish i p)
    have i: "i < n" using finish len by simp
    let ?w = "(cr_workers c ! i)\<lparr>wk_body := None, wk_ran := wk_ran (cr_workers c ! i) + 1\<rparr>"
    let ?k = "latch_count (cr_latch c)"
    let ?m = "if latch_open ?k \<and> cr_main c = R_Asleep then R_Wait else cr_main c"
    have w: "worker_ok (posted_to (cr_main c) i) (owing (cr_main c) i) ?w"
      using ok[OF i] finish by (auto simp: worker_ok_def)
    have mono: "latch_open (cr_latch c) \<Longrightarrow> latch_open ?k" by (simp add: latch_open_def latch_count_def)
    have less: "main_left (left ini) n (latch_open ?k) ?m + worker_left (left ini) left ?w <
        main_left (left ini) n (latch_open (cr_latch c)) (cr_main c) + worker_left (left ini) left (cr_workers c ! i)"
      using finish mono by (cases "cr_main c") (auto simp: worker_left_def)
    have fits': "main_fits n (latch_open ?k) ?m" using fits mono by (cases "cr_main c") auto
    have m: "posted_to ?m = posted_to (cr_main c)" "owing ?m = owing (cr_main c)" by (auto simp: fun_eq_iff)
    have "c' = c\<lparr>cr_main := ?m, cr_latch := ?k, cr_workers := (cr_workers c)[i := ?w], cr_shared := cr_shared c\<rparr>"
      using finish by (simp add: finish_task_def upd_worker_def Let_def)
    then show ?thesis
      by (rule crew_update[OF inv i _ _ fits' _ less, rotated -1]) (use w m in \<open>simp_all only:\<close>, simp_all add: latch_count_def)
  qed
qed

lemma reach_inv:
  assumes "crew_inv n c0"
  shows "crew_reach ini job over c0 c \<Longrightarrow> crew_inv n c"
proof (induction rule: crew_reach.induct)
  case start
  show ?case by (rule assms)
next
  case (step c c')
  then show ?case using step_ok by blast
next
  case (spurious c)
  then show ?case by (auto simp: crew_inv_def)
qed

text \<open>The round is never stuck.\<close>

lemma crew_progress:
  assumes inv: "crew_inv n c" and m: "cr_main c \<noteq> R_Return"
  shows "\<exists>c'. crew_step ini job over c c'"
proof (cases "cr_main c")
  case (R_Post i)
  then show ?thesis using crew_step.post[of c i] crew_step.posted[of c i] by (meson not_less)
next
  case (R_Wake i)
  then show ?thesis by - (rule exI, erule crew_step.wake)
next
  case R_Wait
  then show ?thesis by - (rule exI, erule crew_step.wait)
next
  case R_Asleep
  have len: "length (cr_workers c) = n" using inv by (simp add: crew_inv_def)
  have "\<not> latch_open (cr_latch c)" using crew_invD(2)[OF inv] R_Asleep by simp
  then have "sum_list (map wk_ran (cr_workers c)) < n" using inv by (simp add: crew_inv_def latch_open_def)
  moreover have "n \<le> sum_list (map wk_ran (cr_workers c))" if "\<forall>i<n. 1 \<le> wk_ran (cr_workers c ! i)"
  proof -
    have "(\<Sum>i<n. 1) \<le> (\<Sum>i<n. wk_ran (cr_workers c ! i))" using that by (intro sum_mono) simp
    then show ?thesis by (simp add: sum_list_sum_nth atLeast0LessThan len)
  qed
  ultimately obtain i where i: "i < n" "wk_ran (cr_workers c ! i) = 0" by (meson not_le not_less_eq_eq less_one)
  define w where "w = cr_workers c ! i"
  have ok: "worker_ok True 0 w" using inv i(1) R_Asleep by (simp add: crew_inv_def w_def)
  have il: "i < length (cr_workers c)" using i(1) len by simp
  show ?thesis
  proof (cases "wk_body w")
    case None
    then have "0 < waiting_tasks (wk_loop w)" using ok i(2) by (simp add: worker_ok_def w_def)
    then consider "phase (wk_loop w) = Before" | "phase (wk_loop w) = Polling" "0 < wakeups (wk_loop w)" | "in_loop (wk_loop w)"
      using ok plain_can_move[of "wk_loop w"] unfolding worker_ok_def by metis
    then show ?thesis
    proof cases
      case 3
      then obtain l where "loop_step (wk_loop w) = Inr l" using ok plain_step(1) by (auto simp: worker_ok_def)
      then show ?thesis using crew_step.run[OF il w_def None 3] by blast
    qed (use crew_step.enter[OF il w_def] crew_step.poll[OF il w_def] in blast)+
  next
    case (Some p)
    then show ?thesis using crew_step.body[OF il] crew_step.finish[OF il] by (metis w_def)
  qed
qed (use m in simp)

text \<open>When the posting thread is back, every worker has run its task once and is idle again.\<close>

lemma crew_returned:
  assumes inv: "crew_inv n c" and m: "cr_main c = R_Return" and w: "w \<in> set (cr_workers c)"
  shows "wk_ran w = 1 \<and> wk_idle w"
proof -
  obtain i where i: "i < n" "w = cr_workers c ! i" using inv w by (auto simp: crew_inv_def in_set_conv_nth)
  have "worker_ok True 0 w" "latch_open (cr_latch c)" using crew_invD(2)[OF inv] crew_invD(3)[OF inv i(1)] i(2) m by auto
  moreover have "wk_ran w \<noteq> 0" using crew_latch[OF inv i(1)] i(2) calculation(2) by (auto simp: latch_open_def)
  ultimately show ?thesis by (auto simp: worker_ok_def wk_idle_def split: if_splits)
qed

end

section \<open>What a round amounts to\<close>

text \<open>
  Seen without loops, a round is a team of tasks: each waits, runs its stages on the shared data and is finished, which counts
  the latch down.
\<close>

datatype 'p spot = Waiting | Inside 'p | Finished

inductive team_reach :: "'p \<Rightarrow> (nat \<Rightarrow> 'p \<Rightarrow> 'g \<Rightarrow> 'p \<times> 'g) \<Rightarrow> ('p \<Rightarrow> bool) \<Rightarrow> nat \<Rightarrow> 'g \<Rightarrow> 'p spot list \<times> int \<times> 'g \<Rightarrow> bool"
  for ini job over n g0 where
  team_start: "team_reach ini job over n g0 (replicate n Waiting, int n, g0)"
| team_enter: "team_reach ini job over n g0 (sp, k, g) \<Longrightarrow> i < length sp \<Longrightarrow> sp ! i = Waiting \<Longrightarrow>
    team_reach ini job over n g0 (sp[i := Inside ini], k, g)"
| team_move: "team_reach ini job over n g0 (sp, k, g) \<Longrightarrow> i < length sp \<Longrightarrow> sp ! i = Inside p \<Longrightarrow> \<not> over p \<Longrightarrow>
    job i p g = (p', g') \<Longrightarrow> team_reach ini job over n g0 (sp[i := Inside p'], k, g')"
| team_finish: "team_reach ini job over n g0 (sp, k, g) \<Longrightarrow> i < length sp \<Longrightarrow> sp ! i = Inside p \<Longrightarrow> over p \<Longrightarrow>
    team_reach ini job over n g0 (sp[i := Finished], latch_count k, g)"

definition spot_of :: "'p wthread \<Rightarrow> 'p spot" where
  "spot_of w = (if wk_ran w = 0 then case wk_body w of None \<Rightarrow> Waiting | Some p \<Rightarrow> Inside p else Finished)"

definition team_of :: "('p, 'g) crew \<Rightarrow> 'p spot list \<times> int \<times> 'g" where
  "team_of c = (map spot_of (cr_workers c), cr_latch c, cr_shared c)"

lemma spots_same: "i < length ws \<Longrightarrow> spot_of w = spot_of (ws ! i) \<Longrightarrow> map spot_of (ws[i := w]) = map spot_of ws"
  by (simp add: map_update) (metis list_update_id nth_map length_map)

lemma spots_update: "map spot_of (ws[i := w]) = (map spot_of ws)[i := spot_of w]"
  by (rule map_update)

context crew_job
begin

lemma run_spot:
  assumes ok: "worker_ok up k w" and b: "wk_body w = None" and adv: "loop_advance (wk_loop w) l"
  shows "spot_of (run_loop ini l w) = (if started l = started (wk_loop w) then spot_of w else Inside ini)"
    "started l \<noteq> started (wk_loop w) \<Longrightarrow> spot_of w = Waiting"
  using assms by (auto simp: spot_of_def run_loop_def worker_ok_def loop_advance_def split: if_splits)

lemma team_step:
  assumes inv: "crew_inv n c" and st: "crew_step ini job over c c'" and t: "team_reach ini job over n g0 (team_of c)"
  shows "team_reach ini job over n g0 (team_of c')"
proof -
  note len = crew_invD(1)[OF inv] and ok = crew_invD(3)[OF inv]
  from st show ?thesis
  proof cases
    case (post i)
    then have "team_of c' = team_of c" by (simp add: team_of_def post_task_def upd_worker_def Let_def spots_same spot_of_def)
    then show ?thesis using t by simp
  next
    case (wake i)
    have "i < n" using inv wake by (simp add: crew_inv_def)
    then have "team_of c' = team_of c" using wake len by (simp add: team_of_def wake_wthread_def upd_worker_def Let_def spots_same spot_of_def)
    then show ?thesis using t by simp
  next
    case (posted i)
    then show ?thesis using t by (simp add: team_of_def)
  next
    case wait
    then show ?thesis using t by (simp add: team_of_def latch_wait_def)
  next
    case (enter i w)
    then have "team_of c' = team_of c" by (simp add: team_of_def upd_worker_def spots_same spot_of_def)
    then show ?thesis using t by simp
  next
    case (poll i w)
    then have "team_of c' = team_of c" by (simp add: team_of_def upd_worker_def spots_same spot_of_def)
    then show ?thesis using t by simp
  next
    case (run i w l)
    have i: "i < n" using run len by simp
    then have ok': "worker_ok (posted_to (cr_main c) i) (owing (cr_main c) i) w" using ok run by simp
    then have "loop_advance (wk_loop w) l" using run plain_step(2) by (auto simp: worker_ok_def)
    note sp = run_spot[OF ok' run(4) this]
    show ?thesis
    proof (cases "started l = started (wk_loop w)")
      case True
      then have "team_of c' = team_of c" using run sp(1) by (simp add: team_of_def upd_worker_def spots_same)
      then show ?thesis using t by simp
    next
      case False
      have "team_reach ini job over n g0 ((map spot_of (cr_workers c))[i := Inside ini], cr_latch c, cr_shared c)"
        by (rule team_enter) (use t run sp(2)[OF False] in \<open>simp_all add: team_of_def\<close>)
      then show ?thesis using run sp(1) False by (simp add: team_of_def upd_worker_def spots_update)
    qed
  next
    case (body i p)
    obtain p' g where j: "job i p (cr_shared c) = (p', g)" by (cases "job i p (cr_shared c)")
    have r: "wk_ran (cr_workers c ! i) = 0" using ok[of i] body len by (auto simp: worker_ok_def split: if_splits)
    have "team_reach ini job over n g0 ((map spot_of (cr_workers c))[i := Inside p'], cr_latch c, g)"
      by (rule team_move[where p = p and over = over and job = job and g = "cr_shared c" and i = i, OF _ _ _ body(4) j]) (use t body r in \<open>simp_all add: team_of_def spot_of_def\<close>)
    then show ?thesis using body j r by (simp add: team_of_def body_step_def upd_worker_def spots_update) (simp add: spot_of_def)
  next
    case (finish i p)
    have r: "wk_ran (cr_workers c ! i) = 0" using ok[of i] finish len by (auto simp: worker_ok_def split: if_splits)
    have "team_reach ini job over n g0 ((map spot_of (cr_workers c))[i := Finished], latch_count (cr_latch c), cr_shared c)"
      by (rule team_finish[where p = p and over = over, OF _ _ _ finish(4)]) (use t finish r in \<open>simp_all add: team_of_def spot_of_def\<close>)
    then show ?thesis using finish by (simp add: team_of_def finish_task_def upd_worker_def Let_def spots_update) (simp add: spot_of_def)
  qed
qed

lemma crew_refines_team:
  assumes ws: "list_all wk_idle ws"
  shows "crew_reach ini job over (runInThreads g0 ws) c \<Longrightarrow> team_reach ini job over (length ws) g0 (team_of c)"
proof (induction rule: crew_reach.induct)
  case start
  have "map spot_of (map (\<lambda>w. w\<lparr>wk_ran := 0\<rparr>) ws) = replicate (length ws) Waiting"
    using ws by (auto simp: list_eq_iff_nth_eq spot_of_def list_all_length wk_idle_def)
  then show ?case using team_start[of ini job over "length ws" g0] by (simp add: team_of_def runInThreads_def)
next
  case (step c c')
  then show ?case using team_step reach_inv[OF crew_inv_start[OF ws]] by blast
next
  case (spurious c)
  then show ?case by (simp add: team_of_def)
qed

lemma crew_all_finished:
  assumes ws: "list_all wk_idle ws" and r: "crew_reach ini job over (runInThreads g0 ws) c" and m: "cr_main c = R_Return"
  shows "team_of c = (replicate (length ws) Finished, cr_latch c, cr_shared c)" "list_all wk_idle (cr_workers c)" "latch_open (cr_latch c)"
proof -
  note inv = reach_inv[OF crew_inv_start[OF ws] r]
  have "length (cr_workers c) = length ws" using inv by (simp add: crew_inv_def)
  moreover have "\<forall>w\<in>set (cr_workers c). spot_of w = Finished" using crew_returned[OF inv m] by (simp add: spot_of_def)
  ultimately show "team_of c = (replicate (length ws) Finished, cr_latch c, cr_shared c)"
    by (simp add: team_of_def list_eq_iff_nth_eq)
  show "list_all wk_idle (cr_workers c)" using crew_returned[OF inv m] by (simp add: list_all_iff)
  show "latch_open (cr_latch c)" using crew_invD(2)[OF inv] m by simp
qed

lemma crew_returns:
  assumes inv: "crew_inv n c0"
  shows "crew_reach ini job over c0 c \<Longrightarrow> \<exists>c'. crew_reach ini job over c0 c' \<and> cr_main c' = R_Return"
proof (induction "crew_left ini left c" arbitrary: c rule: less_induct)
  case less
  note ic = reach_inv[OF inv less.prems]
  show ?case
  proof (cases "cr_main c = R_Return")
    case False
    then obtain c' where c': "crew_step ini job over c c'" using crew_progress[OF ic] by blast
    then show ?thesis using less.hyps[of c'] step_ok[OF ic c'] crew_reach.step[OF less.prems c'] by blast
  qed (use less.prems in blast)
qed

end

section \<open>Sorting the vectors\<close>

text \<open>The task of the constructor; \<open>std::sort\<close> touches only the vector of its own thread.\<close>

datatype sort_stage = S_Sort | S_Sorted

definition sort_job :: "nat \<Rightarrow> sort_stage \<Rightarrow> int list list \<Rightarrow> sort_stage \<times> int list list" where
  "sort_job i st vs = (S_Sorted, (if st = S_Sort then vs[i := sort (vs ! i)] else vs))"

definition sort_over :: "sort_stage \<Rightarrow> bool" where
  "sort_over st \<longleftrightarrow> st = S_Sorted"

definition sort_left :: "sort_stage \<Rightarrow> nat" where
  "sort_left st = (if st = S_Sort then 1 else 0)"

interpretation sorting: crew_job S_Sort sort_job sort_over sort_left
  by unfold_locales (auto simp: sort_job_def sort_over_def sort_left_def intro: sort_stage.exhaust)

fun unsorted :: "sort_stage spot \<Rightarrow> bool" where
  "unsorted (Inside S_Sorted) = False"
| "unsorted Finished = False"
| "unsorted sp = True"

lemma sort_team:
  assumes "team_reach S_Sort sort_job sort_over (length vs) vs t"
  shows "case t of (sp, k, ws) \<Rightarrow> length sp = length vs \<and> length ws = length vs \<and>
    (\<forall>i<length vs. ws ! i = (if unsorted (sp ! i) then vs ! i else sort (vs ! i)))"
  using assms
proof (induction rule: team_reach.induct)
  case team_start
  show ?case by simp
next
  case (team_enter sp k g i)
  then show ?case by (auto simp: nth_list_update)
next
  case (team_move sp k g i p p' g')
  then have "p = S_Sort" "p' = S_Sorted" "g' = g[i := sort (g ! i)]" by (auto simp: sort_over_def sort_job_def intro: sort_stage.exhaust)
  then show ?case using team_move by (auto simp: nth_list_update)
next
  case (team_finish sp k g i p)
  then have "p = S_Sorted" by (simp add: sort_over_def)
  then show ?case using team_finish by (auto simp: nth_list_update)
qed

section \<open>Answering a query\<close>

text \<open>The task of \<open>lessEqualCount\<close>, with the two atomic counters as the shared data.\<close>

fun query_job :: "kserver \<Rightarrow> int \<Rightarrow> nat \<Rightarrow> kstage \<Rightarrow> int \<times> int \<Rightarrow> kstage \<times> int \<times> int" where
  "query_job s g i K_Search (l, e) =
     (let vec = ks_numbers s ! i; lower = lower_bound vec g; upper = upper_bound vec g in
      (K_AddLess (int lower) (int upper - int lower), l, e))"
| "query_job s g i (K_AddLess a b) (l, e) = (K_AddEqual b, l + a, e)"
| "query_job s g i (K_AddEqual b) (l, e) = (K_Count, l, e + b)"
| "query_job s g i st r = (st, r)"

fun query_over :: "kstage \<Rightarrow> bool" where
  "query_over K_Count = True"
| "query_over K_Done = True"
| "query_over st = False"

interpretation query: crew_job K_Search "query_job s g" query_over stage_left for s g
proof
  fix p :: kstage and i and r :: "int \<times> int"
  assume "\<not> query_over p"
  then show "stage_left (fst (query_job s g i p r)) < stage_left p" by (cases p; cases r) (simp_all add: Let_def)
qed

fun stage_of :: "kstage spot \<Rightarrow> kstage" where
  "stage_of Waiting = K_Search"
| "stage_of (Inside st) = st"
| "stage_of Finished = K_Done"

fun round_of :: "kstage spot list \<times> int \<times> int \<times> int \<Rightarrow> kround" where
  "round_of (sp, k, l, e) = \<lparr>latch = k, lessCount = l, equalCount = e, stages = map stage_of sp\<rparr>"

lemma query_team:
  assumes "team_reach K_Search (query_job s g) query_over (length (ks_numbers s)) (0, 0) t"
  shows "round_reach s g (round_of t) \<and> Inside K_Done \<notin> set (fst t)"
  using assms
proof (induction rule: team_reach.induct)
  case team_start
  then show ?case using round_reach.start[of s g] by (simp add: round_start_def)
next
  case (team_enter sp k r i)
  have "map stage_of (sp[i := Inside K_Search]) = map stage_of sp"
    using team_enter(2,3) by (simp add: map_update) (metis list_update_id nth_map length_map stage_of.simps(1))
  then show ?case using team_enter by (cases r) (auto dest!: set_update_subset_insert[THEN subsetD])
next
  case (team_move sp k r i p p' r')
  obtain l e where r: "r = (l, e)" by (cases r)
  have "round_reach s g (work_stage g (ks_numbers s ! i) i (round_of (sp, k, r)))"
    using round_reach.work[of s g "round_of (sp, k, r)" i] team_move r by simp
  moreover have "work_stage g (ks_numbers s ! i) i (round_of (sp, k, r)) = round_of (sp[i := Inside p'], k, r')" "p' \<noteq> K_Done"
    using team_move(2-5) r by (cases p; auto simp: work_stage_def map_update Let_def)+
  ultimately show ?case using team_move.IH by (auto dest!: set_update_subset_insert[THEN subsetD])
next
  case (team_finish sp k r i p)
  obtain l e where r: "r = (l, e)" by (cases r)
  have p: "p = K_Count" using team_finish nth_mem[OF team_finish(2)] by (cases p) auto
  have "round_reach s g (work_stage g (ks_numbers s ! i) i (round_of (sp, k, r)))"
    using round_reach.work[of s g "round_of (sp, k, r)" i] team_finish r by simp
  moreover have "work_stage g (ks_numbers s ! i) i (round_of (sp, k, r)) = round_of (sp[i := Finished], latch_count k, r)"
    using team_finish(2,3) r p by (auto simp: work_stage_def map_update)
  ultimately show ?case using team_finish.IH by (auto dest!: set_update_subset_insert[THEN subsetD])
qed

section \<open>Properties\<close>

text \<open>
  C20: A query never blocks its server. With the worker loops idle, whatever the order in which the posting thread and
  the loops move, every step of a round of \<open>runInThreads\<close> comes nearer to its end, some step is possible until
  \<open>runInThreads\<close> has returned, and then the counters hold exactly how many numbers are below and equal to the guess and
  every loop is idle again, ready for the next query.
\<close>

theorem query_round_returns:
  assumes "list_all sorted (ks_numbers s)" and "list_all wk_idle ws" and "length ws = length (ks_numbers s)"
    and "crew_reach K_Search (query_job s g) query_over (runInThreads (0, 0) ws) c"
  shows "(\<forall>c'. crew_step K_Search (query_job s g) query_over c c' \<longrightarrow>
      crew_left K_Search stage_left c' < crew_left K_Search stage_left c) \<and>
    (cr_main c = R_Return \<or> (\<exists>c'. crew_step K_Search (query_job s g) query_over c c')) \<and>
    (cr_main c = R_Return \<longrightarrow>
      cr_shared c = (int (less_in g (concat (ks_numbers s))), int (equal_in g (concat (ks_numbers s)))) \<and>
      list_all wk_idle (cr_workers c))"
proof -
  note inv = query.reach_inv[OF crew_inv_start[OF assms(2)] assms(4)]
  have "cr_shared c = (int (less_in g (concat (ks_numbers s))), int (equal_in g (concat (ks_numbers s))))"
    if m: "cr_main c = R_Return"
  proof -
    obtain l e where r: "cr_shared c = (l, e)" by (cases "cr_shared c")
    have "round_reach s g (round_of (team_of c))"
      using query.crew_refines_team[OF assms(2,4)] query_team assms(3) by simp
    then show ?thesis
      using round_answer[OF assms(1), of g "round_of (team_of c)"] query.crew_all_finished[OF assms(2,4) m] r by simp
  qed
  then show ?thesis
    using query.step_ok[OF inv] query.crew_progress[OF inv] query.crew_all_finished(2)[OF assms(2,4)] by blast
qed

text \<open>
  The vectors are sorted when the server opens: the constructor's round of \<open>runInThreads\<close> ends under every
  interleaving, and leaves the sorted vectors that \<open>kserver_new\<close> stores, every loop idle.
\<close>

theorem sort_round_returns:
  assumes "list_all wk_idle ws" and "length ws = length vs"
    and "crew_reach S_Sort sort_job sort_over (runInThreads vs ws) c"
  shows "(\<forall>c'. crew_step S_Sort sort_job sort_over c c' \<longrightarrow> crew_left S_Sort sort_left c' < crew_left S_Sort sort_left c) \<and>
    (cr_main c = R_Return \<or> (\<exists>c'. crew_step S_Sort sort_job sort_over c c')) \<and>
    (cr_main c = R_Return \<longrightarrow> cr_shared c = map sort vs \<and> list_all wk_idle (cr_workers c))"
proof -
  note inv = sorting.reach_inv[OF crew_inv_start[OF assms(1)] assms(3)]
  have "cr_shared c = map sort vs" if m: "cr_main c = R_Return"
    using sort_team[OF sorting.crew_refines_team[OF assms(1,3), unfolded assms(2)]]
      sorting.crew_all_finished(1)[OF assms(1,3) m] assms(2) by (auto intro!: nth_equalityI)
  then show ?thesis
    using sorting.step_ok[OF inv] sorting.crew_progress[OF inv] sorting.crew_all_finished(2)[OF assms(1,3)] by blast
qed

definition demo_kserver :: kserver where
  "demo_kserver = \<lparr>ks_numbers = [[1, 5], [5]], ks_sum = 11, ks_count = 3, ks_min = 1, ks_max = 5, ks_drawn = 3\<rparr>"

lemma query_round_returns_witness:
  "\<exists>c. crew_reach K_Search (query_job demo_kserver 5) query_over (runInThreads (0, 0) (startWorkerThreads 2)) c \<and>
    cr_main c = R_Return \<and> cr_shared c = (1, 2)"
proof -
  have ws: "list_all wk_idle (startWorkerThreads 2)" using threads_idle by (auto simp: list_all_iff)
  obtain c where c: "crew_reach K_Search (query_job demo_kserver 5) query_over (runInThreads (0, 0) (startWorkerThreads 2)) c"
      "cr_main c = R_Return"
    using query.crew_returns[OF crew_inv_start[OF ws] crew_reach.start] by blast
  have "list_all sorted (ks_numbers demo_kserver)" "length (startWorkerThreads 2) = length (ks_numbers demo_kserver)"
    by (simp_all add: demo_kserver_def startWorkerThreads_def)
  from query_round_returns[OF this(1) ws this(2) c(1)] c show ?thesis
    by (intro exI[of _ c]) (simp add: demo_kserver_def less_in_def equal_in_def)
qed

lemma sort_round_returns_witness:
  "\<exists>c. crew_reach S_Sort sort_job sort_over (runInThreads [[5, 1], [2]] (startWorkerThreads 2)) c \<and>
    cr_main c = R_Return \<and> cr_shared c = [[1, 5], [2]]"
proof -
  have ws: "list_all wk_idle (startWorkerThreads 2)" using threads_idle by (auto simp: list_all_iff)
  obtain c where c: "crew_reach S_Sort sort_job sort_over (runInThreads [[5, 1], [2]] (startWorkerThreads 2)) c"
      "cr_main c = R_Return"
    using sorting.crew_returns[OF crew_inv_start[OF ws] crew_reach.start] by blast
  from sort_round_returns[OF ws _ c(1)] c show ?thesis
    by (intro exI[of _ c]) (simp add: startWorkerThreads_def)
qed

end
