(* ===== verification/Ev_KthMain.thy ===== *)
theory Ev_KthMain
  imports Ev_KthThreads
begin

text \<open>
  \<open>main\<close> of \<^verbatim>\<open>example/kth_element/KthServer.cc\<close>: the command line, read with \<open>strtol\<close> and \<open>strtoul\<close>, and the
  server it builds. \<open>args\<close> are the arguments after the program's name, \<open>hw\<close> is
  \<open>std::thread::hardware_concurrency()\<close>.
\<close>

section \<open>The C library\<close>

text \<open>
  The value, cut to the range of the type, and what follows the number: the whole text when there is no number. \<open>strtoul\<close> takes a
  minus sign as negation modulo the width.
\<close>

definition strtol_end :: "string \<Rightarrow> int \<times> string" where
  "strtol_end s =
     (let (neg, r) = take_sign (dropWhile isspace s); ds = takeWhile isdigit r;
          v = (if neg then - int (digits_value ds) else int (digits_value ds))
      in if ds = [] then (0, s) else (max (- (2 ^ 63)) (min (2 ^ 63 - 1) v), dropWhile isdigit r))"

definition strtoul_end :: "string \<Rightarrow> int \<times> string" where
  "strtoul_end s =
     (let (neg, r) = take_sign (dropWhile isspace s); ds = takeWhile isdigit r; v = int (digits_value ds)
      in if ds = [] then (0, s)
         else (if 2 ^ 64 \<le> v then 2 ^ 64 - 1 else if neg then (- v) mod 2 ^ 64 else v, dropWhile isdigit r))"

text \<open>\<open>static_cast<int>\<close> of a \<open>size_t\<close>.\<close>

definition narrow_int :: "int \<Rightarrow> int" where
  "narrow_int n = (let m = n mod 2 ^ 32 in if m < 2 ^ 31 then m else m - 2 ^ 32)"

section \<open>The program\<close>

definition threads_arg :: "int \<Rightarrow> string list \<Rightarrow> int option" where
  "threads_arg hw as =
     (case as of
        [] \<Rightarrow> Some hw
      | a # _ \<Rightarrow> (let (n, end) = strtoul_end a in if end \<noteq> [] then None else Some n))"

text \<open>\<open>Inr None\<close>: the usage is printed and the program ends; otherwise the server that starts to listen.\<close>

definition kth_main :: "(nat \<Rightarrow> int) \<Rightarrow> int \<Rightarrow> string list \<Rightarrow> error + kserver option" where
  "kth_main rnd hw args =
     (case args of
        [] \<Rightarrow> Inr None
      | a # as \<Rightarrow>
          (let (count, end) = strtol_end a in
           if end \<noteq> [] then Inr None
           else case threads_arg hw as of
             None \<Rightarrow> Inr None
           | Some nThreads \<Rightarrow> bindE (kserver_new rnd count (narrow_int nThreads)) (\<lambda>s. Inr (Some s))))"

section \<open>Numbers on the command line\<close>

lemma strtol_end_number:
  assumes "0 \<le> x" and "no_digit r"
  shows "strtol_end (to_string x @ r) = (min (2 ^ 63 - 1) x, r)"
  using assms by (simp add: strtol_end_def to_string_def span_dec)

lemma strtoul_end_number:
  assumes "0 \<le> x" and "no_digit r"
  shows "strtoul_end (to_string x @ r) = (min (2 ^ 64 - 1) x, r)"
  using assms by (simp add: strtoul_end_def to_string_def span_dec)

lemmas number_alone = strtol_end_number[where r = "[]", simplified] strtoul_end_number[where r = "[]", simplified]

lemma narrow_int_low: "0 \<le> n \<Longrightarrow> n < 2 ^ 31 \<Longrightarrow> narrow_int (2 ^ 32 * k + n) = n"
  by (simp add: narrow_int_def Let_def)

text \<open>
  The command line of the server. A count and a number of threads give a server with that many numbers in that many
  sorted vectors. Only the low 32 bits of the number of threads count: \<open>2 ^ 32 * k + n\<close> threads are \<open>n\<close> threads. A count with anything
  behind it gives the usage, and so does a missing count.
\<close>

theorem kth_command_line:
  assumes "\<And>k. 0 \<le> rnd k" and "0 < cnt" "cnt < 2 ^ 63" and "0 < n" "n < 2 ^ 31" and "cnt div n < 2 ^ 31"
    and "0 \<le> k" "k < 2 ^ 32" and "\<not> isdigit c"
  shows "(\<exists>s. kth_main rnd hw [to_string cnt, to_string (2 ^ 32 * k + n)] = Inr (Some s) \<and> server_ok s \<and>
      ks_count s = cnt \<and> length (ks_numbers s) = nat n) \<and>
    kth_main rnd hw ((to_string cnt @ c # r) # as) = Inr None \<and> kth_main rnd hw [] = Inr None"
proof -
  obtain s where s: "kserver_new rnd cnt n = Inr s" "server_ok s" "ks_count s = cnt" "length (ks_numbers s) = nat n"
    using kserver_new_ok[of rnd cnt n] assms by blast
  have "strtol_end (to_string cnt) = (cnt, [])" using assms(2,3) number_alone(1)[of cnt] by simp
  moreover have "strtoul_end (to_string (2 ^ 32 * k + n)) = (2 ^ 32 * k + n, [])"
    using assms(4,5,7,8) number_alone(2)[of "2 ^ 32 * k + n"] by simp
  ultimately have "kth_main rnd hw [to_string cnt, to_string (2 ^ 32 * k + n)] = Inr (Some s)"
    using narrow_int_low[of n k] assms(4,5) s(1) by (simp add: kth_main_def threads_arg_def)
  moreover have "strtol_end (to_string cnt @ c # r) = (cnt, c # r)" using assms strtol_end_number[of cnt "c # r"] by simp
  ultimately show ?thesis using s by (simp add: kth_main_def)
qed

lemma kth_command_line_witness:
  "\<exists>s. kth_main (\<lambda>k. 7 * int k) 4 [to_string 10, to_string (2 ^ 32 * 1 + 3)] = Inr (Some s) \<and> length (ks_numbers s) = 3 \<and>
    kth_main (\<lambda>k. 7 * int k) 4 [to_string 10 @ ''k''] = Inr None"
  using kth_command_line[of "\<lambda>k. 7 * int k" 10 3 1 "CHR ''k''" 4 "[]" "[]"] by (auto simp: isdigit_def)

text \<open>
  Texts that \<open>strtol\<close> finds no number in are taken for 0 when nothing follows, so that an empty argument ends the server
  instead of printing the usage; a count of 64 bits is cut to \<open>2 ^ 63 - 1\<close>; and a machine that does not tell its number of
  threads cannot run the server without a second argument.
\<close>

lemma kth_odd_arguments:
  "kth_main rnd hw [[]] = Inl Aborted"
  "2 ^ 63 \<le> x \<Longrightarrow> strtol_end (to_string x) = (2 ^ 63 - 1, [])"
  "kth_main rnd 0 [to_string x] \<in> {Inr None, Inl Aborted}"
proof -
  show "kth_main rnd hw [[]] = Inl Aborted"
    by (simp add: kth_main_def strtol_end_def take_sign_def threads_arg_def kserver_new_def)
  show "2 ^ 63 \<le> x \<Longrightarrow> strtol_end (to_string x) = (2 ^ 63 - 1, [])" by (simp add: number_alone)
  show "kth_main rnd 0 [to_string x] \<in> {Inr None, Inl Aborted}"
    by (simp add: kth_main_def threads_arg_def kserver_new_def narrow_int_def split: prod.split)
qed

end
