(* ===== verification/Ev_TimerLoop.thy ===== *)
theory Ev_TimerLoop
  imports Ev_TimerQueue
begin

text \<open>
  \<^verbatim>\<open>example/TimerLoop.cc\<close>: a loop with three timers and nothing else, on the timer queue of \<^verbatim>\<open>Ev_TimerQueue\<close>. A turn of the loop is
  one expiry; the callbacks write a line or quit the loop, and leave the queue alone. The clock is given by its readings.
\<close>

section \<open>The program\<close>

datatype tl_line = Run_Every | End_After | Run_Later | Start_Looping

record tloop =
  tl_queue :: "tl_line timerqueue"
  tl_quit :: bool
  tl_lines :: "(tl_line \<times> int) list"

abbreviation second :: int where
  "second \<equiv> 1000000000"

definition nowAfter :: "int \<Rightarrow> int \<Rightarrow> error + int" where
  "nowAfter now interval = ns_add now interval"

text \<open>\<open>a\<close>, \<open>b\<close> and \<open>c\<close> are the addresses of the timers, \<open>n1\<close> to \<open>n4\<close> the readings of the clock.\<close>

definition tl_start :: "nat \<Rightarrow> nat \<Rightarrow> nat \<Rightarrow> int \<Rightarrow> int \<Rightarrow> int \<Rightarrow> int \<Rightarrow> error + tloop" where
  "tl_start a b c n1 n2 n3 n4 =
     bindE (runEvery n1 a second (Some Run_Every) tq_new) (\<lambda>q1.
     bindE (runAfter n2 b (10 * second) (Some End_After) q1) (\<lambda>q2.
     bindE (nowAfter n3 (15 * 60 * second)) (\<lambda>when.
     bindE (runAt n4 c when (Some Run_Later) q2) (\<lambda>q3.
     Inr \<lparr>tl_queue = q3, tl_quit = False, tl_lines = [(Start_Looping, n4)]\<rparr>))))"

text \<open>The callback of the timer at an address, when it ran.\<close>

definition tl_call :: "(nat \<Rightarrow> tl_line) \<Rightarrow> nat \<times> int \<Rightarrow> tloop \<Rightarrow> error + tloop" where
  "tl_call cb e s =
     (let s1 = s\<lparr>tl_lines := tl_lines s @ [(cb (fst e), snd e)]\<rparr> in
      if cb (fst e) = End_After then bindE (assertE (\<not> tl_quit s1)) (\<lambda>_. Inr (s1\<lparr>tl_quit := True\<rparr>)) else Inr s1)"

definition tl_turn :: "(nat \<Rightarrow> tl_line) \<Rightarrow> int \<times> int \<Rightarrow> tloop \<Rightarrow> error + tloop" where
  "tl_turn cb t s =
     bindE (tq_handleRead True (\<lambda>_. []) (fst t) (snd t) (tl_queue s)) (\<lambda>q.
     foldE (tl_call cb) (drop (length (fired (tl_queue s))) (fired q)) (s\<lparr>tl_queue := q\<rparr>))"

fun tl_loop :: "(nat \<Rightarrow> tl_line) \<Rightarrow> (int \<times> int) list \<Rightarrow> tloop \<Rightarrow> error + tloop" where
  "tl_loop cb [] s = Inr s"
| "tl_loop cb (t # ts) s = (if tl_quit s then Inr s else bindE (tl_turn cb t s) (tl_loop cb ts))"

text \<open>The descriptor is readable when a turn begins, and the clock is read at most \<open>2 ^ 61\<close> nanoseconds after 1970.\<close>

definition tl_due :: "int \<times> int \<Rightarrow> tloop \<Rightarrow> bool" where
  "tl_due t s \<longleftrightarrow> (\<exists>d. armed (tl_queue s) = Some d \<and> d \<le> fst t) \<and> 0 \<le> fst t \<and> fst t \<le> snd t \<and> snd t < 2 ^ 61"

fun tl_legal :: "(nat \<Rightarrow> tl_line) \<Rightarrow> (int \<times> int) list \<Rightarrow> tloop \<Rightarrow> bool" where
  "tl_legal cb [] s = True"
| "tl_legal cb (t # ts) s = (tl_quit s \<or> tl_due t s \<and> thenP (tl_turn cb t s) (tl_legal cb ts))"

definition tl_callbacks :: "nat \<Rightarrow> nat \<Rightarrow> nat \<Rightarrow> tl_line" where
  "tl_callbacks a b x = (if x = a then Run_Every else if x = b then End_After else Run_Later)"

section \<open>The queue\<close>

text \<open>After \<open>k\<close> runs of the repeating timer, before the end.\<close>

definition tl_heap :: "nat \<Rightarrow> nat \<Rightarrow> nat \<Rightarrow> int \<Rightarrow> int \<Rightarrow> int \<Rightarrow> nat \<rightharpoonup> tl_line timer" where
  "tl_heap a b c e d l = [a \<mapsto> timer_new (Some Run_Every) e second, b \<mapsto> timer_new (Some End_After) d 0,
     c \<mapsto> timer_new (Some Run_Later) l 0]"

definition tl_set :: "nat \<Rightarrow> nat \<Rightarrow> nat \<Rightarrow> int \<Rightarrow> int \<Rightarrow> int \<Rightarrow> entry list" where
  "tl_set a b c e d l = insort (e, a) [(d, b), (l, c)]"

definition on_time :: "int \<Rightarrow> int \<Rightarrow> nat \<Rightarrow> (tl_line \<times> int) list \<Rightarrow> bool" where
  "on_time n d k ls \<longleftrightarrow> (\<forall>j<k. n + (int j + 1) * second \<le> snd (ls ! Suc j) \<and> snd (ls ! Suc j) < d)"

definition tl_inv :: "nat \<Rightarrow> nat \<Rightarrow> nat \<Rightarrow> int \<Rightarrow> int \<Rightarrow> int \<Rightarrow> nat \<Rightarrow> tloop \<Rightarrow> bool" where
  "tl_inv a b c n d l k s \<longleftrightarrow>
     (let q = tl_queue s; e = n + (int k + 1) * second in
      heap q = tl_heap a b c e d l \<and> timers q = tl_set a b c e d l \<and> time_ok e \<and> \<not> tl_quit s \<and>
      (\<forall>t. armed q = Some t \<longrightarrow> fst (hd (timers q)) \<le> t)) \<and>
     map fst (tl_lines s) = Start_Looping # replicate k Run_Every \<and> on_time n d k (tl_lines s)"

definition tl_ended :: "int \<Rightarrow> int \<Rightarrow> nat \<Rightarrow> tloop \<Rightarrow> bool" where
  "tl_ended n d k s \<longleftrightarrow> tl_quit s \<and> on_time n d k (tl_lines s) \<and>
     (\<exists>late t. map fst (tl_lines s) = Start_Looping # replicate k Run_Every @ late \<and> distinct late \<and>
       End_After \<in> set late \<and> d \<le> t \<and> (\<forall>x\<in>set (drop (Suc k) (tl_lines s)). snd x = t))"

text \<open>Three addresses, and the deadlines in the order in which they are set.\<close>

definition three_timers :: "nat \<Rightarrow> nat \<Rightarrow> nat \<Rightarrow> int \<Rightarrow> int \<Rightarrow> int \<Rightarrow> bool" where
  "three_timers a b c n d l \<longleftrightarrow> distinct [a, b, c] \<and> 0 \<notin> {a, b, c} \<and> 0 \<le> n \<and> n < d \<and> d < l \<and> l < 2 ^ 62"

lemma three_timersD:
  assumes "three_timers a b c n d l"
  shows "distinct [a, b, c]" "0 \<notin> {a, b, c}" "0 \<le> n" "n < d" "d < l" "l < 2 ^ 62"
  using assms unfolding three_timers_def by blast+

lemma tl_core: "three_timers a b c n d l \<Longrightarrow> timers q = tl_set a b c e d l \<Longrightarrow> heap q = tl_heap a b c e d l \<Longrightarrow> time_ok e \<Longrightarrow> tq_core [] q"
  by (auto simp: three_timers_def tq_core_def tl_set_def tl_heap_def filed_def timer_new_def time_ok_def sorted_insort less_eq_prod_def
      set_insort_key distinct_insort_map)

lemma callbacks:
  "three_timers a b c n d l \<Longrightarrow> tl_callbacks a b a = Run_Every"
  "three_timers a b c n d l \<Longrightarrow> tl_callbacks a b b = End_After"
  "three_timers a b c n d l \<Longrightarrow> tl_callbacks a b c = Run_Later"
  by (auto simp: tl_callbacks_def three_timers_def)

lemma calls_ok:
  assumes "distinct (map (cb \<circ> fst) es)" and "tl_quit s \<longrightarrow> End_After \<notin> (cb \<circ> fst) ` set es"
  shows "foldE (tl_call cb) es s =
    Inr (s\<lparr>tl_lines := tl_lines s @ map (\<lambda>e. (cb (fst e), snd e)) es, tl_quit := tl_quit s \<or> End_After \<in> (cb \<circ> fst) ` set es\<rparr>)"
  using assms
proof (induction es arbitrary: s)
  case (Cons e es)
  then show ?case by (cases "cb (fst e) = End_After") (auto simp: tl_call_def)
qed simp

text \<open>A turn before the end runs the repeating timer and files it again; a later one quits.\<close>

lemma turn_before:
  assumes three: "three_timers a b c n d l" and inv: "tl_inv a b c n d l k s" and due: "tl_due t s" and t: "fst t < d"
  shows "\<exists>s'. tl_turn (tl_callbacks a b) t s = Inr s' \<and> tl_inv a b c n d l (Suc k) s'"
proof -
  note addresses = three_timersD(1,2)[OF three] and times = three_timersD(3-)[OF three]
  define q where "q = tl_queue s"
  define e where "e = n + (int k + 1) * second"
  obtain now now2 where tt: "t = (now, now2)" by (cases t)
  have i: "heap q = tl_heap a b c e d l" "timers q = tl_set a b c e d l" "time_ok e" "\<not> tl_quit s"
      "map fst (tl_lines s) = Start_Looping # replicate k Run_Every" "on_time n d k (tl_lines s)"
    using inv by (simp_all add: tl_inv_def Let_def q_def e_def)
  have now: "fst (hd (timers q)) \<le> now" "0 \<le> now" "now \<le> now2" "now2 < 2 ^ 61"
    using inv due by (auto simp: tl_inv_def tl_due_def Let_def q_def tt)
  have en: "e \<le> now" using now(1) t by (auto simp: i(2) tl_set_def tt split: if_splits)
  then have hd: "tl_set a b c e d l = [(e, a), (d, b), (l, c)]" using t by (simp add: tl_set_def tt less_eq_prod_def)
  have ok: "time_ok now" "time_ok now2" "time_ok (e + second)" using now en i(3) by (simp_all add: time_ok_def)
  have du: "due now q = [(e, a)]" using en t times by (simp add: due_def i(2) hd tt)
  have fl: "filter (\<lambda>e. now < fst e) (timers q) = [(d, b), (l, c)]" using en t times by (simp add: i(2) hd tt)
  obtain q1 where q1: "getExpired now (timerfdRead now q) = Inr ([(e, a)], q1)" "timers q1 = [(d, b), (l, c)]"
      "fired q1 = fired q" "heap q1 = heap q"
    using getExpired_ok[of "timerfdRead now q" now] tl_core[OF three i(2,1,3)] ok(1) du fl by auto
  let ?e = "e + second"
  let ?q2 = "q1\<lparr>fired := fired q @ [(a, now)], heap := (heap q)(a \<mapsto> timer_new (Some Run_Every) ?e second), timers := tl_set a b c ?e d l\<rparr>"
  have h: "heap q1 a = Some (timer_new (Some Run_Every) e second)" using addresses by (simp add: q1(4) i(1) tl_heap_def)
  have "fire_entry (\<lambda>_. []) now (e, a) q1 = Inr ?q2"
    using fire_entry_quiet[OF h, of e now] en ok(3) addresses q1
    by (simp add: timer_new_def set_insert_def tl_set_def)
  moreover have "time_ok (fst (hd (tl_set a b c ?e d l)))" using ok(3) times by (auto simp: tl_set_def time_ok_def)
  moreover have "tl_set a b c ?e d l \<noteq> []" by (simp add: tl_set_def)
  ultimately have "tq_handleRead True (\<lambda>_. []) now now2 q =
      Inr (?q2\<lparr>armed := Some (max (fst (hd (tl_set a b c ?e d l))) (now2 + 1000000))\<rparr>)"
    using q1(1) timerfdSet_ok[OF ok(2)] by (simp add: tq_handleRead_def)
  moreover have "(heap q)(a \<mapsto> timer_new (Some Run_Every) ?e second) = tl_heap a b c ?e d l"
    using addresses by (auto simp: i(1) tl_heap_def)
  moreover have "length (tl_lines s) = Suc k" using arg_cong[OF i(5), of length] by simp
  then have "on_time n d (Suc k) (tl_lines s @ [(Run_Every, now)])"
    using i(6) en t by (auto simp: on_time_def less_Suc_eq nth_append tt e_def)
  ultimately show ?thesis
    using i addresses ok(3) callbacks(1)[OF three]
    by (auto simp: tl_turn_def tl_call_def tl_inv_def Let_def q_def[symmetric] tt e_def algebra_simps replicate_append_same)
qed

lemma turn_end:
  assumes three: "three_timers a b c n d l" and inv: "tl_inv a b c n d l k s" and due: "tl_due t s" and t: "d \<le> fst t"
  shows "\<exists>s'. tl_turn (tl_callbacks a b) t s = Inr s' \<and> tl_ended n d k s'"
proof -
  note addresses = three_timersD(1,2)[OF three] and times = three_timersD(3-)[OF three]
  define q where "q = tl_queue s"
  define e where "e = n + (int k + 1) * second"
  obtain now now2 where tt: "t = (now, now2)" by (cases t)
  have i: "heap q = tl_heap a b c e d l" "timers q = tl_set a b c e d l" "time_ok e" "\<not> tl_quit s"
      "map fst (tl_lines s) = Start_Looping # replicate k Run_Every" "on_time n d k (tl_lines s)"
    using inv by (simp_all add: tl_inv_def Let_def q_def e_def)
  have now: "0 \<le> now" "now \<le> now2" "now2 < 2 ^ 61" using due by (auto simp: tl_due_def tt)
  then have ok: "time_ok now" "time_ok now2" by (simp_all add: time_ok_def)
  have "\<forall>(w, x)\<in>set (timers q). \<forall>t. heap q x = Some t \<longrightarrow> w \<le> now \<longrightarrow> tm_repeat t \<longrightarrow> time_ok (w + tm_interval t)"
    using addresses now i(3) by (auto simp: i(1,2) tl_heap_def tl_set_def timer_new_def time_ok_def set_insort_key)
  from quiet_expiry[OF tl_core[OF three i(2,1,3)] ok this] obtain q' where q': "tq_handleRead True (\<lambda>_. []) now now2 q = Inr q'"
      "fired q' = fired q @ map (\<lambda>e. (snd e, now)) (due now q)" by auto
  let ?cb = "tl_callbacks a b"
  have "distinct (map (\<lambda>e. ?cb (snd e)) (timers q))"
    using callbacks[OF three] by (simp add: i(2) tl_set_def distinct_insort_map)
  then have dist: "distinct (map (\<lambda>e. ?cb (snd e)) (due now q))" unfolding due_def by (rule distinct_map_filter)
  have "(d, b) \<in> set (due now q)" using t by (simp add: due_def i(2) tl_set_def tt set_insort_key)
  then have e: "End_After \<in> (\<lambda>e. ?cb (snd e)) ` set (due now q)" using callbacks(2)[OF three] by force
  let ?late = "map (\<lambda>e. (?cb (snd e), now)) (due now q)"
  have "tl_turn ?cb t s = Inr (s\<lparr>tl_queue := q', tl_lines := tl_lines s @ ?late, tl_quit := True\<rparr>)"
    using q' calls_ok[of ?cb "map (\<lambda>e. (snd e, now)) (due now q)" "s\<lparr>tl_queue := q'\<rparr>"] i(4) dist e
    by (simp add: tl_turn_def tt q_def comp_def image_image)
  moreover have len: "length (tl_lines s) = Suc k" using arg_cong[OF i(5), of length] by simp
  moreover have "on_time n d k (tl_lines s @ ?late)" using i(6) len by (simp add: on_time_def nth_append)
  moreover have "map fst (tl_lines s @ ?late) = Start_Looping # replicate k Run_Every @ map (\<lambda>e. ?cb (snd e)) (due now q)"
    by (simp add: i(5) comp_def)
  ultimately show ?thesis
    using dist e t by (auto simp: tl_ended_def tt intro!: exI[of _ now])
qed

lemma loop_runs:
  assumes three: "three_timers a b c n d l" and "tl_inv a b c n d l k s" and "tl_legal (tl_callbacks a b) ts s"
  shows "\<exists>s'. tl_loop (tl_callbacks a b) ts s = Inr s' \<and>
    (tl_inv a b c n d l (k + length ts) s' \<or> (\<exists>j. tl_ended n d (k + j) s'))"
  using assms(2,3)
proof (induction ts arbitrary: k s)
  case Nil
  then show ?case by simp
next
  case (Cons t ts)
  have q: "\<not> tl_quit s" using Cons.prems(1) by (simp add: tl_inv_def Let_def)
  then have due: "tl_due t s" and rest: "thenP (tl_turn (tl_callbacks a b) t s) (tl_legal (tl_callbacks a b) ts)" using Cons.prems(2) by simp_all
  show ?case
  proof (cases "fst t < d")
    case True
    then obtain s1 where s1: "tl_turn (tl_callbacks a b) t s = Inr s1" "tl_inv a b c n d l (Suc k) s1"
      using turn_before[OF three Cons.prems(1) due] by blast
    obtain s' where s': "tl_loop (tl_callbacks a b) ts s1 = Inr s'"
        "tl_inv a b c n d l (Suc k + length ts) s' \<or> (\<exists>j. tl_ended n d (Suc k + j) s')"
      using Cons.IH[OF s1(2)] rest s1(1) by auto
    from s'(2) have "tl_inv a b c n d l (k + length (t # ts)) s' \<or> (\<exists>j. tl_ended n d (k + j) s')"
    proof
      assume "\<exists>j. tl_ended n d (Suc k + j) s'"
      then obtain j where "tl_ended n d (k + Suc j) s'" by auto
      then show ?thesis by blast
    qed simp
    then show ?thesis using q s1(1) s'(1) by simp
  next
    case False
    then obtain s1 where s1: "tl_turn (tl_callbacks a b) t s = Inr s1" "tl_ended n d k s1"
      using turn_end[OF three Cons.prems(1) due] by auto
    then have "tl_loop (tl_callbacks a b) ts s1 = Inr s1" by (cases ts) (simp_all add: tl_ended_def)
    then show ?thesis using q s1 by (auto intro!: exI[of _ 0])
  qed
qed

text \<open>Lines on time before the end are few.\<close>

lemma on_time_few:
  assumes "on_time n d k ls" and "d = n + m + 10 * second" and "0 \<le> m"
  shows "int k \<le> m div second + 10"
proof (cases k)
  case (Suc j)
  then have "n + int k * second < d" using assms(1) by (auto simp: on_time_def intro: le_less_trans)
  then have "(int k - 10) * second < m" using assms(2) by (simp add: algebra_simps)
  then have "(int k - 10) * second div second \<le> m div second" by (intro zdiv_mono1) simp_all
  then show ?thesis by simp
qed (use assms(3) in \<open>simp add: pos_imp_zdiv_nonneg_iff\<close>)

section \<open>Property\<close>

lemma tl_start_ok:
  assumes "distinct [a, b, c]" and "0 \<notin> {a, b, c}" and t: "0 \<le> n1" "n1 \<le> n2" "n2 \<le> n3" "n3 \<le> n4" "n4 < 2 ^ 61"
  shows "\<exists>s. tl_start a b c n1 n2 n3 n4 = Inr s \<and> tl_inv a b c n1 (n2 + 10 * second) (n3 + 900 * second) 0 s"
proof -
  have ok: "time_ok n1" "time_ok n2" "time_ok n4" "time_ok (n1 + second)" "time_ok (n2 + 10 * second)" "time_ok (n3 + 900 * second)"
    using t by (simp_all add: time_ok_def)
  have add: "ns_add n1 second = Inr (n1 + second)" "ns_add n2 (10 * second) = Inr (n2 + 10 * second)"
      "ns_add n3 (15 * 60 * second) = Inr (n3 + 900 * second)"
    using ok(4-6) time_ok_ns by (simp_all add: ns_add_def)
  show ?thesis
    using assms ok add
    by (auto simp: tl_start_def runEvery_def runAfter_def runAt_def addTimer_def addTimerInLoop_def addTimerAlloc_def nowAfter_def
        set_insert_def tq_new_def Let_def timerfdSet_ok tl_inv_def tl_heap_def tl_set_def on_time_def timer_new_def less_eq_prod_def)
qed


text \<open>A clock that jumps: the second line is late, and the loop ends in the next turn.\<close>

definition demo_clock :: "(int \<times> int) list" where
  "demo_clock = [(1500000000, 1500000001), (20000000000, 20000000001)]"


end
