(* ===== verification/Ev_EchoSystem.thy ===== *)
theory Ev_EchoSystem
  imports Ev_Echo Ev_EchoClient
begin

text \<open>
  The echo client and the echo server on the two ends of one network connection: the client of \<^verbatim>\<open>Ev_EchoClient\<close> and the server of
  \<^verbatim>\<open>Ev_Echo\<close>, which serves other connections at the same time; \<open>i\<close> is the place of the client's connection among the server's. Their
  steps interleave freely. The network is a parameter of which the contract is used: what one end reads is what the other
  has written, in order, as far as it has arrived.
\<close>

section \<open>The system\<close>

record echo_system =
  es_client :: echo_client
  es_server :: echo

datatype eslabel = At_Client ulabel | At_Server elabel

fun es_exec :: "eslabel \<Rightarrow> echo_system \<Rightarrow> error + echo_system" where
  "es_exec (At_Client x) s = bindE (uc_exec x (es_client s)) (\<lambda>u. Inr (s\<lparr>es_client := u\<rparr>))"
| "es_exec (At_Server x) s = bindE (echo_exec x (es_server s)) (\<lambda>e. Inr (s\<lparr>es_server := e\<rparr>))"

text \<open>What the server has written on the connection, nothing before it is accepted.\<close>

definition server_wire :: "nat \<Rightarrow> echo \<Rightarrow> string" where
  "server_wire i e = (if i < length (sv_objs (ec_server e)) then wire (sv_objs (ec_server e) ! i) else [])"

text \<open>The network: a read continues what was read before along what the other end has written.\<close>

fun client_reads :: "nat \<Rightarrow> ulabel \<Rightarrow> echo_system \<Rightarrow> bool" where
  "client_reads i (U_Event rr wr revs) s =
     (message_runs rr revs (uc_conn (es_client s)) \<longrightarrow>
       prefix (concat (uc_printed (es_client s)) @ contents (inputBuffer (uc_conn (es_client s))) @ delivered rr)
         (server_wire i (es_server s)))"
| "client_reads i x s = True"

fun server_reads :: "nat \<Rightarrow> elabel \<Rightarrow> echo_system \<Rightarrow> bool" where
  "server_reads i (E_Event j rr wr wr2 revs now) s =
     (j = i \<and> message_runs rr revs (sv_objs (ec_server (es_server s)) ! i) \<longrightarrow>
       prefix (ec_received (es_server s) i @ delivered rr) (wire (uc_conn (es_client s))))"
| "server_reads i x s = True"

fun es_legal :: "nat \<Rightarrow> eslabel \<Rightarrow> echo_system \<Rightarrow> bool" where
  "es_legal i (At_Client x) s = (uc_legal x (es_client s) \<and> client_reads i x s)"
| "es_legal i (At_Server x) s = (echo_legal x (es_server s) \<and> server_reads i x s)"

section \<open>What is written is never taken back\<close>

lemma uc_wire:
  assumes inv: "uc_inv u" and leg: "uc_legal x u" and run: "uc_exec x u = Inr u'"
  shows "prefix (wire (uc_conn u)) (wire (uc_conn u'))"
proof -
  have r: "run_inv (uc_conn u)" using inv by (simp add: uc_inv_def)
  have p: "prefix (wire (uc_conn u)) (wire c)" if "exec l (uc_conn u) = Inr c" "legal_label l (uc_conn u)" for l c
    using okE_Inr[OF exec_ok[OF r that(2)] that(1)] by (simp add: progress_def)
  show ?thesis
  proof (cases x)
    case (U_Line line)
    then show ?thesis using run p[of "L_Foreign (F_Send line)"] by (auto simp: bindE_eq_Inr simp del: exec.simps)
  next
    case U_Eof
    then show ?thesis using run leg p[of "L_Foreign F_Shutdown"] by (auto simp: bindE_eq_Inr disconnected_def simp del: exec.simps)
  next
    case (U_Event rr wr revs)
    then show ?thesis using run leg p[of "L_Event (ui_io rr wr) revs"]
      by (auto simp: bindE_eq_Inr eb_onConnection_down_def ui_onMessage_def simp del: exec.simps legal_label.simps)
  next
    case (U_Task wr)
    then show ?thesis using run leg p[of "L_Task wr []"]
      by (auto simp: bindE_eq_Inr eb_onConnection_down_def simp del: exec.simps legal_label.simps)
  qed
qed

lemma uc_prints:
  assumes run: "uc_exec x u = Inr u'"
  shows "concat (uc_printed u') = concat (uc_printed u) @
     (case x of U_Event rr wr revs \<Rightarrow> if message_runs rr revs (uc_conn u) then contents (inputBuffer (uc_conn u)) @ delivered rr else []
      | _ \<Rightarrow> [])"
proof (cases x)
  case (U_Line line)
  then show ?thesis using run by (cases "exec (L_Foreign (F_Send line)) (uc_conn u)") (auto simp del: exec.simps)
next
  case U_Eof
  then show ?thesis using run by (cases "exec (L_Foreign F_Shutdown) (uc_conn u)") (auto simp del: exec.simps)
next
  case (U_Event rr wr revs)
  then show ?thesis using run
    by (cases "exec (L_Event (ui_io rr wr) revs) (uc_conn u)") (auto simp: eb_onConnection_down_def ui_onMessage_def simp del: exec.simps)
next
  case (U_Task wr)
  then show ?thesis using run
    by (cases "exec (L_Task wr []) (uc_conn u)") (auto simp: eb_onConnection_down_def simp del: exec.simps)
qed

definition wires_grow :: "server \<Rightarrow> server \<Rightarrow> bool" where
  "wires_grow s s' \<longleftrightarrow> length (sv_objs s) \<le> length (sv_objs s') \<and>
     (\<forall>j<length (sv_objs s). prefix (wire (sv_objs s ! j)) (wire (sv_objs s' ! j)))"

lemma wires_grow_refl: "wires_grow s s"
  by (simp add: wires_grow_def)

lemma wires_grow_trans: "wires_grow a b \<Longrightarrow> wires_grow b c \<Longrightarrow> wires_grow a c"
  by (auto simp: wires_grow_def intro: prefix_order.trans order_less_le_trans)

lemma conn_wires:
  assumes inv: "server_inv s" and leg: "server_legal (SL_Conn j l) s" and run: "server_exec (SL_Conn j l) s = Inr s'"
  shows "wires_grow s s'"
proof -
  note S = server_conn_Inr[OF run]
  have r: "run_inv (sv_objs s ! j)" "legal_label l (sv_objs s ! j)" using inv leg by (simp_all add: server_inv_def)
  have "prefix (wire (sv_objs s ! j)) (wire (sv_objs s' ! j))"
    using okE_Inr[OF exec_ok[OF r]] S by (simp add: progress_def)
  moreover have "length (sv_objs s') = length (sv_objs s)" using S by (metis length_list_update)
  moreover have "sv_objs s' ! k = sv_objs s ! k" if "k \<noteq> j" for k using S that by (metis nth_list_update_neq)
  ultimately have "prefix (wire (sv_objs s ! k)) (wire (sv_objs s' ! k))" for k by (cases "k = j") simp_all
  then show ?thesis using \<open>length (sv_objs s') = _\<close> by (simp add: wires_grow_def)
qed

lemma deadline_server:
  "note_deadline now j d e = Inr e' \<Longrightarrow> ec_server e' = ec_server e \<and> ec_received e' = ec_received e \<and> ec_failed e' = ec_failed e"
  by (auto simp: note_deadline_def expireAfter_def bindE_eq_Inr split: option.splits)

lemma down_server [simp]:
  "ec_server (note_down j c e) = ec_server e" "ec_received (note_down j c e) = ec_received e" "ec_failed (note_down j c e) = ec_failed e"
  by (simp_all add: note_down_def erase_connection_def)

lemma timeout_wires:
  assumes inv: "echo_inv e" and run: "timeout_entry now j e = Inr e'"
  shows "wires_grow (ec_server e) (ec_server e') \<and> ec_received e' = ec_received e"
proof (cases "\<exists>t. ec_connections e j = Some t \<and> t \<le> now j")
  case False
  then have "e' = e" using run by (auto simp: timeout_entry_def split: option.splits)
  then show ?thesis by (simp add: wires_grow_refl)
next
  case True
  then have "bindE (server_exec (SL_Conn j (L_Call Api_ForceClose)) (ec_server e)) (\<lambda>s. Inr (erase_connection j (e\<lparr>ec_server := s\<rparr>))) = Inr e'"
    using run by (auto simp only: timeout_entry_def option.case if_True)
  then obtain s where s: "server_exec (SL_Conn j (L_Call Api_ForceClose)) (ec_server e) = Inr s" "erase_connection j (e\<lparr>ec_server := s\<rparr>) = e'"
    unfolding bindE_eq_Inr by blast
  have "server_legal (SL_Conn j (L_Call Api_ForceClose)) (ec_server e)" using server_conn_Inr[OF s(1)] by simp
  from conn_wires[OF echo_invD(1)[OF inv] this s(1)] show ?thesis by (simp add: erase_connection_def flip: s(2))
qed

lemma echo_wires:
  assumes inv: "echo_inv e" and leg: "echo_legal x e" and run: "echo_exec x e = Inr e'"
  shows "wires_grow (ec_server e) (ec_server e') \<and>
    ec_received e' i = ec_received e i @
      (case x of E_Event j rr wr wr2 revs now \<Rightarrow> if j = i \<and> message_runs rr revs (sv_objs (ec_server e) ! i) then delivered rr else []
       | _ \<Rightarrow> [])"
proof (cases x)
  case (E_Accept revs res now)
  obtain f where f: "res = Accepted f" using leg E_Accept by (auto split: accept_result.splits)
  obtain s where s: "server_exec (SL_Accept revs (Accepted f) (fst (echo_onConnection (ec_timeout e)))) (ec_server e) = Inr s"
      "ec_server e' = s" "ec_received e' = ec_received e"
    using run E_Accept f by (auto simp: Let_def bindE_eq_Inr case_prod_beta simp del: server_exec.simps dest: deadline_server split: if_splits)
  have "wires_grow (ec_server e) s"
    using server_accept_Inr[OF echo_invD(1)[OF inv] s(1)] by (auto simp: wires_grow_def nth_append)
  then show ?thesis using s(2,3) E_Accept by simp
next
  case (E_Event j rr wr wr2 revs now)
  let ?l = "L_Event (echo_io (ec_timeout e) rr wr wr2) revs"
  let ?c = "sv_objs (ec_server e) ! j"
  obtain s where s: "server_exec (SL_Conn j ?l) (ec_server e) = Inr s"
      "(if message_runs rr revs ?c
        then bindE (note_deadline now j (snd (echo_onMessage (ec_timeout e) wr2)) (note_message j rr (gives_up wr2 ?c) (e\<lparr>ec_server := s\<rparr>)))
               (\<lambda>e2. Inr (note_down j ?c e2))
        else Inr (note_down j ?c (e\<lparr>ec_server := s\<rparr>))) = Inr e'"
    using run E_Event by (auto simp: Let_def bindE_eq_Inr simp del: server_exec.simps)
  have s2: "ec_server e' = s" "ec_received e' = (if message_runs rr revs ?c then (ec_received e)(j := ec_received e j @ delivered rr) else ec_received e)"
    using s(2) by (auto simp: bindE_eq_Inr note_message_def dest!: deadline_server split: if_splits)
  have "server_legal (SL_Conn j ?l) (ec_server e)" using leg E_Event by simp
  from conn_wires[OF echo_invD(1)[OF inv] this s(1)] s2 E_Event show ?thesis by auto
next
  case (E_Task j now)
  let ?l = "L_Task (Write_Err EAGAIN) (fst (task_callback (ec_timeout e) (sv_objs (ec_server e) ! j)))"
  obtain s where s: "server_exec (SL_Conn j ?l) (ec_server e) = Inr s" "ec_server e' = s" "ec_received e' = ec_received e"
    using run E_Task
    by (auto simp: Let_def bindE_eq_Inr case_prod_beta simp del: server_exec.simps task_callback.simps dest!: deadline_server)
  from conn_wires[OF echo_invD(1)[OF inv] echo_task_legal[OF inv leg[unfolded E_Task]] s(1)] s(2,3) E_Task show ?thesis by simp
next
  case (E_Timer now)
  have "foldE (timeout_entry now) js e = Inr e' \<Longrightarrow> echo_inv e \<Longrightarrow> wires_grow (ec_server e) (ec_server e') \<and> ec_received e' = ec_received e" for js e
  proof (induction js arbitrary: e)
    case (Cons j js)
    obtain e1 where e1: "timeout_entry now j e = Inr e1" "foldE (timeout_entry now) js e1 = Inr e'"
      using Cons.prems(1) by (auto simp: bindE_eq_Inr)
    have "echo_inv e1" using timeout_entry_ok[OF Cons.prems(2), of now j] e1(1) by auto
    then show ?case using Cons.IH[OF e1(2)] timeout_wires[OF Cons.prems(2) e1(1)] wires_grow_trans by auto
  qed (simp add: wires_grow_refl)
  then show ?thesis using run inv E_Timer by (simp add: onTimeout_def)
qed

section \<open>Invariant\<close>

definition es_inv :: "nat \<Rightarrow> echo_system \<Rightarrow> bool" where
  "es_inv i s \<longleftrightarrow> uc_inv (es_client s) \<and> echo_inv (es_server s) \<and>
     prefix (ec_received (es_server s) i) (wire (uc_conn (es_client s))) \<and>
     prefix (concat (uc_printed (es_client s))) (server_wire i (es_server s))"

lemma server_wire_grows: "wires_grow (ec_server e) (ec_server e') \<Longrightarrow> prefix (server_wire i e) (server_wire i e')"
  by (auto simp: wires_grow_def server_wire_def)

lemma es_step_ok:
  assumes inv: "es_inv i s" and leg: "es_legal i x s"
  shows "okE (\<lambda>s'. es_inv i s' \<and> True) (es_exec x s)"
proof (cases x)
  case (At_Client y)
  let ?u = "es_client s"
  have y: "uc_inv ?u" "uc_legal y ?u" "client_reads i y s" using inv leg At_Client by (simp_all add: es_inv_def)
  show ?thesis unfolding At_Client es_exec.simps
  proof (rule okE_event[OF uc_step_ok[OF y(1,2)]])
    fix u
    assume u: "uc_exec y ?u = Inr u" "uc_inv u \<and> uc_rel ?u u"
    have "prefix (wire (uc_conn ?u)) (wire (uc_conn u))" by (rule uc_wire[OF y(1,2) u(1)])
    moreover have "prefix (concat (uc_printed u)) (server_wire i (es_server s))"
      using uc_prints[OF u(1)] y(3) inv by (cases y) (auto simp: es_inv_def)
    ultimately show "okE (\<lambda>s'. es_inv i s' \<and> True) (Inr (s\<lparr>es_client := u\<rparr>))"
      using inv u(2) by (auto simp: es_inv_def intro: prefix_order.trans)
  qed
next
  case (At_Server y)
  let ?e = "es_server s"
  have y: "echo_inv ?e" "echo_legal y ?e" "server_reads i y s" using inv leg At_Server by (simp_all add: es_inv_def)
  show ?thesis unfolding At_Server es_exec.simps
  proof (rule okE_event[OF echo_run.step_ok[OF y(1,2)]])
    fix e
    assume e: "echo_exec y ?e = Inr e" "echo_inv e \<and> echo_rel ?e e"
    note W = echo_wires[OF y(1,2) e(1), of i]
    then have "prefix (server_wire i ?e) (server_wire i e)" using server_wire_grows by blast
    moreover have "prefix (ec_received e i) (wire (uc_conn (es_client s)))"
      using W y(3) inv by (cases y) (auto simp: es_inv_def)
    ultimately show "okE (\<lambda>s'. es_inv i s' \<and> True) (Inr (s\<lparr>es_server := e\<rparr>))"
      using inv e(2) by (auto simp: es_inv_def intro: prefix_order.trans)
  qed
qed

interpretation es_run: safe_steps es_exec "es_legal i" "es_inv i" "\<lambda>s s'. True" for i
  by unfold_locales (auto intro: es_step_ok[simplified])

section \<open>Property\<close>


text \<open>One line goes to the server and comes back.\<close>

lemma demo_client_line:
  "\<exists>u0 u1 u2. eb_start 7 = Inr u0 \<and> legal_fold uc_legal uc_exec [U_Line ''hi'', U_Task (Wrote 2)] u0 \<and>
     foldE uc_exec [U_Line ''hi'', U_Task (Wrote 2)] u0 = Inr u1 \<and> wire (uc_conn u1) = ''hi'' \<and> uc_printed u1 = [] \<and>
     contents (inputBuffer (uc_conn u1)) = [] \<and> uc_legal (U_Event (Read_Ok ''hi'') (Write_Err EAGAIN) EPOLLIN) u1 \<and>
     uc_exec (U_Event (Read_Ok ''hi'') (Write_Err EAGAIN) EPOLLIN) u1 = Inr u2 \<and> uc_printed u2 = [''hi''] \<and>
     uc_typed u2 = [''hi''] \<and> \<not> uc_failed u2"
  by (simp add: eb_start_def conn_eval eb_onConnection_down_def ui_onMessage_def lost_write_def contents_def subrange_def ui_io_def
      message_runs_def delivered_def)

lemma client_part:
  "foldE es_exec (map At_Client xs) s = bindE (foldE uc_exec xs (es_client s)) (\<lambda>u. Inr (s\<lparr>es_client := u\<rparr>))"
  by (induction xs arbitrary: s) (auto simp: bindE_def split: sum.split)

lemma server_part:
  "foldE es_exec (map At_Server xs) s = bindE (foldE echo_exec xs (es_server s)) (\<lambda>e. Inr (s\<lparr>es_server := e\<rparr>))"
  by (induction xs arbitrary: s) (auto simp: bindE_def simp del: echo_exec.simps split: sum.split)


end
