(* ===== verification/Spec2Isabelle.thy ===== *)
theory Spec2Isabelle
  imports Ev_BufferInts Ev_TcpConnection Ev_TimerQueue Ev_EventLoop Ev_Text Ev_Lines Ev_KthCodec Ev_NQueenCodec Ev_NQueens Ev_NQueenApp Ev_ThreadPool
    Ev_NQueenServer Ev_KthServer Ev_KthClient Ev_Sorter Ev_Server Ev_TcpClient Ev_TcpServer Ev_Echo Ev_Chargen Ev_EchoClient Ev_Address Ev_Logger
    Ev_LoopThread Ev_KthThreads Ev_KthMain Ev_TimerLoop Ev_EchoSystem
begin

text \<open>
  A verification of tinyev, an event-driven TCP library in C++ (\<^verbatim>\<open>tinyev/\<close>), and of the programs that come
  with it (\<^verbatim>\<open>example/\<close>).

  \<^bold>\<open>The program.\<close> An event loop (\<^verbatim>\<open>EventLoop\<close>) waits for events with epoll (\<^verbatim>\<open>EPoller\<close>) and hands each one to the
  channel (\<^verbatim>\<open>Channel\<close>) of its descriptor, which calls the callbacks of its owner: a connection, an accepting
  or connecting socket, the timer queue, or the eventfd with which other threads wake the loop to run the tasks
  they queue. A connection (\<^verbatim>\<open>TcpConnection\<close>) keeps what it has read and what it could not write yet in two
  buffers (\<^verbatim>\<open>Buffer\<close>). A server (\<^verbatim>\<open>TcpServerSingle\<close>) is an acceptor and a set of connections, a client
  (\<^verbatim>\<open>TcpClient\<close>) a connector that is tried again by a timer, and one connection. The examples put text protocols on top.

  \<^bold>\<open>Conventions.\<close> Definitions have the names of the functions they model and take the object they work on as
  their last argument; a field \<open>x_\<close> is the record field \<open>x\<close>. The build with asserts is modelled: a failed assert, an
  exception, an abort and each kind of undefined behaviour is a value \<open>Inl e\<close> (type \<open>error\<close> in \<^verbatim>\<open>Ev_Prelude\<close>), so
  a theorem that says \<open>Inr\<close> excludes all of them. What a system call returns is an argument of the operation that
  makes it, and hypotheses called \<open>legal\<close> state what its documentation promises. User callbacks are lists of calls of the
  public interface. Calls from other threads and closures queued in a loop are steps of their own, in
  any order. Machine integers are naturals or integers with the wrap-around or the overflow written out, and
  words where the code works on bits. Running out of address space (\<open>Length_Error\<close>) is kept apart in the statements (\<open>okE\<close>).

  \<^bold>\<open>Theories and what they show.\<close>
  \<^item> \<^verbatim>\<open>Ev_Prelude\<close>: errors, their sequencing, folds of fallible steps, \<open>std::vector\<close> and \<open>size_t\<close>; the locales
    \<open>safe_steps\<close> and \<open>total_steps\<close> carry a step-wise contract to whole runs and are interpreted on
    connections, timer queues, servers, clients and the distributed examples.
  \<^item> \<^verbatim>\<open>Ev_Buffer\<close>, \<^verbatim>\<open>Ev_BufferInts\<close> (\<^verbatim>\<open>Buffer.h\<close>, \<^verbatim>\<open>Buffer.cc\<close>): the two indices and their invariant; the buffer
    refines a byte queue; \<open>readFd\<close> with its second region; big-endian integers in and out.
  \<^item> \<^verbatim>\<open>Ev_Channel\<close> (\<^verbatim>\<open>Channel.cc\<close>, \<^verbatim>\<open>EPoller.cc\<close>): wanted events, the \<open>epoll_ctl\<close> calls and what the kernel holds after them, dispatch;
    the locale \<open>channel_owner\<close> is the contract of whoever has a channel, interpreted on connections, acceptors and connectors.
  \<^item> \<^verbatim>\<open>Ev_TcpConnection\<close> (\<^verbatim>\<open>TcpConnection.cc\<close>): every public call, handler and queued closure; no legal run
    fails or loses, repeats or reorders a byte; draining, shutdown, high-water mark; where asserts can fail.
  \<^item> \<^verbatim>\<open>Ev_TimerQueue\<close> (\<^verbatim>\<open>Timer.h\<close>, \<^verbatim>\<open>TimerQueue.cc\<close>): timers on a heap that notices use after free, the ordered set, the
    arming of the timerfd, expiry with callbacks that use the queue.
  \<^item> \<^verbatim>\<open>Ev_EventLoop\<close> (\<^verbatim>\<open>EventLoop.cc\<close>): task queue, eventfd, \<open>quit\<close>, as a step relation of the loop's thread and any
    number of other threads; no wake-up is lost, tasks run in order; two ways in which one is. \<^verbatim>\<open>Ev_LoopThread\<close> is the thread a
    loop belongs to: one loop per thread, and what \<open>assertInLoopThread\<close> lets pass.
  \<^item> \<^verbatim>\<open>Ev_TimerLoop\<close> (\<^verbatim>\<open>example/TimerLoop.cc\<close>): the timer example on the timer queue, which ends.
  \<^item> \<^verbatim>\<open>Ev_Server\<close> (\<^verbatim>\<open>Acceptor.cc\<close>, \<^verbatim>\<open>TcpServerSingle.cc\<close>) and \<^verbatim>\<open>Ev_TcpClient\<close> (\<^verbatim>\<open>Connector.cc\<close>, \<^verbatim>\<open>TcpClient.cc\<close>): the
    composition with the connections and, for the client, with the timer queue; each connection is announced once up and once down.
  \<^item> \<^verbatim>\<open>Ev_Echo\<close> (\<^verbatim>\<open>example/EchoServer.cc\<close>): the callbacks of the echo server and its table of deadlines on top of the server:
    it echoes, is never stuck, and how a timeout at the wrong moment brings it down.
  \<^item> \<^verbatim>\<open>Ev_ServerApp\<close>: what the programs on a server share, with the locale \<open>conn_app\<close> for a property that every connection keeps.
  \<^item> \<^verbatim>\<open>Ev_Chargen\<close> (\<^verbatim>\<open>example/ChargenServer.cc\<close>, \<^verbatim>\<open>example/DiscardServer.cc\<close>): the character generator never runs dry; the
    discard server keeps and sends nothing.
  \<^item> \<^verbatim>\<open>Ev_EchoClient\<close> (\<^verbatim>\<open>example/EchoClient.cc\<close>): lines sent from another thread arrive in order; a shutdown that overtakes them,
    and one that undoes a close.
  \<^item> \<^verbatim>\<open>Ev_EchoSystem\<close>: echo client and echo server at the two ends of a connection; what comes back is what was typed.
  \<^item> \<^verbatim>\<open>Ev_TcpServer\<close> (\<^verbatim>\<open>TcpServer.cc\<close>, \<^verbatim>\<open>EventLoopThread.cc\<close>): loops in threads of their own, on the step relation of
    \<^verbatim>\<open>Ev_EventLoop\<close>: starting, quitting and joining them, and the two ways in which that goes wrong.
  \<^item> \<^verbatim>\<open>Ev_ThreadPool\<close> (\<^verbatim>\<open>ThreadPool.cc\<close>): the bounded queue with its two condition variables, workers and callers
    interleaved; no wake-up lost, stopping ends, and whom it strands.
  \<^item> \<^verbatim>\<open>Ev_Address\<close> (\<^verbatim>\<open>InetAddress.cc\<close>): addresses, their text, the names of connections, command lines of the clients.
  \<^item> \<^verbatim>\<open>Ev_Logger\<close> (\<^verbatim>\<open>Logger.c\<close>): levels, and the line that is built in a buffer it never leaves.
  \<^item> \<^verbatim>\<open>Ev_Text\<close>, \<^verbatim>\<open>Ev_Lines\<close>: decimal text and extraction by streams and \<open>strtol\<close> (the standard library the sources use), and
    the line loop shared by the codecs, with the locale \<open>line_codec\<close>.
  \<^item> \<^verbatim>\<open>Ev_KthCodec\<close>, \<^verbatim>\<open>Ev_KthServer\<close>, \<^verbatim>\<open>Ev_KthClient\<close> (\<^verbatim>\<open>example/kth_element\<close>): the protocol round trip under any
    fragmentation, the counting round of the server's threads with \<^verbatim>\<open>CountDownLatch.h\<close>, and the bisection of the client, which
    finds the k-th element and ends. \<^verbatim>\<open>Ev_KthThreads\<close> has the threads with their loops of \<^verbatim>\<open>Ev_EventLoop\<close>: a round of tasks queued in
    all of them (locale \<open>crew_job\<close>, interpreted for sorting and for a query) ends under every interleaving and refines a team
    of tasks without loops, and that the round of \<^verbatim>\<open>Ev_KthServer\<close>. \<^verbatim>\<open>Ev_KthMain\<close> is the command line of the server.
  \<^item> \<^verbatim>\<open>Ev_NQueenCodec\<close>, \<^verbatim>\<open>Ev_NQueens\<close>, \<^verbatim>\<open>Ev_NQueenApp\<close>, \<^verbatim>\<open>Ev_NQueenServer\<close> (\<^verbatim>\<open>example/nqueen\<close>): the protocol, the bit-mask
    solver against the definition of the problem, client and servers together, whose answer is right, and the server on the
    thread pool of \<^verbatim>\<open>Ev_ThreadPool\<close>, in all interleavings.
  \<^item> \<^verbatim>\<open>Ev_Sorter\<close> (\<^verbatim>\<open>example/sort\<close>): the external merge sort sorts.

  \<^bold>\<open>Bounds and fuel.\<close> Loops are structural or have a measure. The line loop of the codecs is a
  \<open>partial_function (option)\<close>; the round-trip theorems include that it returns. Times are below \<open>2^62\<close>
  nanoseconds (dates up to 2116), where no sum of the timer queue overflows. The bisection takes at most 66
  rounds because its interval is less than \<open>2^63\<close> wide. \<open>int64_t\<close> sums in the k-th element and n-queens programs are checked at their width.

  \<^bold>\<open>Not modelled.\<close> The calls of the logger and the addresses inside the other components, which decide nothing in them
  (\<^verbatim>\<open>Ev_Logger\<close> and \<^verbatim>\<open>Ev_Address\<close> model these parts by themselves); the wiring of callbacks in the \<open>main\<close> functions; type names and class declarations. Order
  and visibility of memory accesses are those of the interleavings: data races are not modelled.
\<close>

end
